(* ===== verification/Slicing.thy ===== *)
theory Slicing
  imports Prelude
begin

text \<open>
  The loop that cuts a vector into consecutive slices of a fixed size. The program has it
  twice, in \<open>SubscriptionManager::make_batches\<close> and in \<open>Sharder::Impl::shard\<close>, with
  \<open>std::size_t\<close> indices. It is modelled on 64-bit words, so a wrap-around of \<open>i + n\<close>
  would be seen, and compared with the specification \<open>chunks\<close>.
\<close>

subsection \<open>The loop\<close>

text \<open>
  \<open>for (i = 0; i < size; i += n) out.emplace_back(begin + i, begin + min(size, i + n))\<close>.
  A range whose end lies before its start (after a wrap-around) is undefined behaviour.
\<close>

fun slice_loop :: "nat \<Rightarrow> 'a list \<Rightarrow> u64 \<Rightarrow> u64 \<Rightarrow> 'a list list res" where
  "slice_loop 0 items n i = Inl Out_of_fuel"
| "slice_loop (Suc fuel) items n i =
     (let size = of_nat (length items) in
      if i < size then
        let last = min size (i + n) in
        if last < i then Inl Undefined_behaviour
        else bindE (slice_loop fuel items n (i + n))
               (\<lambda>rest. Inr (take (unat last - unat i) (drop (unat i) items) # rest))
      else Inr [])"

subsection \<open>Specification\<close>

function chunks :: "nat \<Rightarrow> 'a list \<Rightarrow> 'a list list" where
  "chunks n xs = (if xs = [] \<or> n = 0 then [] else take n xs # chunks n (drop n xs))"
  by pat_completeness auto
termination
  by (relation "measure (\<lambda>(n, xs). length xs)") auto

declare chunks.simps [simp del]

lemma chunks_Nil [simp]: "chunks n [] = []"
  by (simp add: chunks.simps)

lemma chunks_step: "xs \<noteq> [] \<Longrightarrow> 0 < n \<Longrightarrow> chunks n xs = take n xs # chunks n (drop n xs)"
  by (simp add: chunks.simps)

lemma chunks_eq_Nil [simp]: "0 < n \<Longrightarrow> chunks n xs = [] \<longleftrightarrow> xs = []"
  by (simp add: chunks.simps)

lemma concat_chunks: "0 < n \<Longrightarrow> concat (chunks n xs) = xs"
proof (induction n xs rule: chunks.induct)
  case (1 n xs)
  then show ?case by (cases "xs = []") (simp_all add: chunks_step)
qed

lemma chunks_sizes: "c \<in> set (chunks n xs) \<Longrightarrow> c \<noteq> [] \<and> length c \<le> n"
proof (induction n xs rule: chunks.induct)
  case (1 n xs)
  then show ?case
    by (cases "xs = [] \<or> n = 0") (auto simp: chunks.simps[of n xs])
qed

lemma chunks_full: "Suc i < length (chunks n xs) \<Longrightarrow> length (chunks n xs ! i) = n"
proof (induction n xs arbitrary: i rule: chunks.induct)
  case (1 n xs)
  then have ne: "xs \<noteq> []" "0 < n" by (auto simp: chunks.simps[of n xs] split: if_splits)
  show ?case
  proof (cases i)
    case 0
    with 1(2) ne have "drop n xs \<noteq> []" by (auto simp: chunks_step)
    with 0 ne show ?thesis by (simp add: chunks_step)
  next
    case (Suc j)
    with 1 ne show ?thesis by (simp add: chunks_step)
  qed
qed

lemma chunks_exact: "n dvd length xs \<Longrightarrow> c \<in> set (chunks n xs) \<Longrightarrow> length c = n"
proof (induction n xs rule: chunks.induct)
  case (1 n xs)
  then have ne: "xs \<noteq> []" "0 < n" by (auto simp: chunks.simps[of n xs] split: if_splits)
  with 1(2) have "n \<le> length xs" by (auto dest: dvd_imp_le)
  with 1 ne show ?case by (auto simp: chunks_step[of xs n] dvd_diff_nat)
qed

lemma ceil_div_step:
  assumes "0 < (n::nat)" and "0 < l"
  shows "Suc ((l - n + n - 1) div n) = (l + n - 1) div n"
proof -
  have "l + n - 1 = (l - 1) + n" using assms by simp
  moreover have "((l - 1) + n) div n = Suc ((l - 1) div n)"
    using assms(1) by (simp only: div_add_self2)
  ultimately have *: "(l + n - 1) div n = Suc ((l - 1) div n)" by (simp only:)
  show ?thesis
  proof (cases "l \<le> n")
    case True
    with * assms show ?thesis by simp
  next
    case False
    then have "l - n + n - 1 = l - 1" by simp
    with * show ?thesis by (simp only:)
  qed
qed

lemma length_chunks: "0 < n \<Longrightarrow> length (chunks n xs) = (length xs + n - 1) div n"
proof (induction n xs rule: chunks.induct)
  case (1 n xs)
  show ?case
  proof (cases "xs = []")
    case False
    with 1 have "length (chunks n xs) = Suc ((length xs - n + n - 1) div n)"
      by (simp add: chunks_step)
    then show ?thesis using False 1(2) ceil_div_step[of n "length xs"] by simp
  qed (use 1 in simp)
qed

subsection \<open>The loop meets its specification\<close>

text \<open>
  The indices the loop visits are multiples of \<open>n\<close>, so once \<open>i\<close> is positive \<open>n\<close> is at
  most \<open>i\<close>, and \<open>i + n\<close> cannot wrap while \<open>i\<close> is below a size of at most \<open>2 ^ 63\<close>.
\<close>

lemma slice_loop_chunks_from:
  assumes "length items \<le> 2 ^ 63" and "n \<noteq> 0"
    and "i = 0 \<or> unat n \<le> unat i" and "length items - unat i < fuel"
  shows "slice_loop fuel items n i = Inr (chunks (unat n) (drop (unat i) items))"
  using assms(3,4)
proof (induction fuel arbitrary: i)
  case 0
  then show ?case by simp
next
  case (Suc fuel)
  have size: "unat (of_nat (length items) :: u64) = length items"
    using assms(1) by (simp add: word_index)
  have npos: "0 < unat n" using assms(2) by (simp add: unat_gt_0)
  show ?case
  proof (cases "i < of_nat (length items)")
    case True
    then have lt: "unat i < length items" by (simp add: word_less_nat_alt size)
    have "unat i + unat n < 2 ^ 64"
    proof (cases "i = 0")
      case True
      then show ?thesis using unsigned_less[of n] by simp
    next
      case False
      with Suc.prems(1) lt assms(1) show ?thesis by simp
    qed
    then have sum: "unat (i + n) = unat i + unat n" by (simp add: unat_add_lem[THEN iffD1])
    have last: "unat (min (of_nat (length items)) (i + n)) = min (length items) (unat i + unat n)"
      by (simp add: min_def word_le_nat_alt size sum)
    have "\<not> min (of_nat (length items)) (i + n) < i"
      using lt by (simp add: word_less_nat_alt last)
    moreover have "slice_loop fuel items n (i + n) =
        Inr (chunks (unat n) (drop (unat i + unat n) items))"
      using Suc.IH[of "i + n"] Suc.prems lt npos by (simp add: sum)
    moreover have "take (min (length items) (unat i + unat n) - unat i) (drop (unat i) items)
        = take (unat n) (drop (unat i) items)"
      by (auto simp: min_def)
    ultimately show ?thesis
      using True lt npos
      by (simp add: Let_def last chunks_step add.commute)
  next
    case False
    then have "length items \<le> unat i" by (simp add: word_less_nat_alt size)
    with False show ?thesis by simp
  qed
qed

lemma slice_loop_chunks:
  "length items \<le> 2 ^ 63 \<Longrightarrow> n \<noteq> 0 \<Longrightarrow>
    slice_loop (Suc (length items)) items n 0 = Inr (chunks (unat n) items)"
  using slice_loop_chunks_from[of items n 0 "Suc (length items)"] by simp

subsection \<open>The contract of a slicing function\<close>

text \<open>
  What a caller relies on: a configured size (0 stands for a default), an effective width,
  and a result that is the list of consecutive chunks of that width.
\<close>

locale slicer =
  fixes slice :: "u64 \<Rightarrow> 'a list \<Rightarrow> 'a list list res"
    and width :: "u64 \<Rightarrow> nat"
  assumes slice_chunks: "length xs \<le> 2 ^ 63 \<Longrightarrow> slice n xs = Inr (chunks (width n) xs)"
    and width_pos: "0 < width n"
begin

lemma slice_returns: "length xs \<le> 2 ^ 63 \<Longrightarrow> \<exists>cs. slice n xs = Inr cs"
  by (simp add: slice_chunks)

lemma slice_concat: "length xs \<le> 2 ^ 63 \<Longrightarrow> slice n xs = Inr cs \<Longrightarrow> concat cs = xs"
  by (auto simp: slice_chunks concat_chunks width_pos)

lemma slice_sizes:
  "length xs \<le> 2 ^ 63 \<Longrightarrow> slice n xs = Inr cs \<Longrightarrow> c \<in> set cs \<Longrightarrow> c \<noteq> [] \<and> length c \<le> width n"
  using chunks_sizes by (auto simp: slice_chunks)

lemma slice_count:
  "length xs \<le> 2 ^ 63 \<Longrightarrow> slice n xs = Inr cs \<Longrightarrow>
    length cs = (length xs + width n - 1) div width n"
  using width_pos by (auto simp: slice_chunks length_chunks)

lemma slice_full:
  "length xs \<le> 2 ^ 63 \<Longrightarrow> slice n xs = Inr cs \<Longrightarrow> Suc i < length cs \<Longrightarrow> length (cs ! i) = width n"
  by (auto simp: slice_chunks chunks_full)

lemma slice_Nil: "slice n xs = Inr [] \<Longrightarrow> length xs \<le> 2 ^ 63 \<Longrightarrow> xs = []"
  using width_pos by (simp add: slice_chunks)

end

end
