(* ===== verification/Ingest_Queue.thy ===== *)
theory Ingest_Queue
  imports Prelude
begin

text \<open>
  The single-producer single-consumer ring \<open>IngestQueue\<close> (\<open>include/ingest_queue.h\<close>,
  \<open>src/ingest_queue.cpp\<close>): capacity rounding, the operations as whole calls, the
  representation invariant, the refinement to a bounded first-in first-out list, and the
  contract \<open>bounded_fifo\<close> that its clients rely on. The interleaving of the two threads is in
  theory \<open>Spsc\<close>. Indices are 64-bit words that count up and wrap, as \<open>std::size_t\<close> does.
\<close>

subsection \<open>Capacity rounding\<close>

definition is_power_of_two :: "u64 \<Rightarrow> bool" where
  "is_power_of_two x \<longleftrightarrow> x \<noteq> 0 \<and> x AND (x - 1) = 0"

text \<open>
  \<open>for (i = 1; i < 64; i <<= 1) n |= n >> i\<close>. The loop starts at 1, so the conjunct
  \<open>0 < i\<close>, which is there for termination only, holds in every iteration.
\<close>

function smear :: "nat \<Rightarrow> u64 \<Rightarrow> u64" where
  "smear i n = (if 0 < i \<and> i < 64 then smear (2 * i) (n OR drop_bit i n) else n)"
  by pat_completeness auto
termination
  by (relation "measure (\<lambda>(i, n). 64 - i)") auto

declare smear.simps [simp del]

definition next_pow2 :: "u64 \<Rightarrow> u64" where
  "next_pow2 n =
     (if n < 8 then 8
      else if is_power_of_two n then n
      else smear 1 (n - 1) + 1)"

subsection \<open>State and operations\<close>

record ingest_queue =
  qbuf :: "string list"
  qmask :: u64
  qhead :: u64
  qtail :: u64

text \<open>
  The constructor: the buffer gets \<open>next_pow2(capacity)\<close> empty strings, the mask is taken
  from the buffer's size, and the assertion is checked. Allocation is assumed to succeed.
\<close>

definition mk_queue :: "u64 \<Rightarrow> ingest_queue res" where
  "mk_queue cap =
     (let b = replicate (unat (next_pow2 cap)) '''' in
      if is_power_of_two (of_nat (length b))
      then Inr \<lparr>qbuf = b, qmask = of_nat (length b) - 1, qhead = 0, qtail = 0\<rparr>
      else Inl Assertion_failed)"

definition capacity :: "ingest_queue \<Rightarrow> u64" where
  "capacity q = qmask q + 1"

definition slot :: "ingest_queue \<Rightarrow> u64 \<Rightarrow> nat" where
  "slot q i = unat (i AND qmask q)"

text \<open>\<open>try_push(std::string&&)\<close>; the copying overload pushes a copy of its argument.\<close>

definition try_push :: "string \<Rightarrow> ingest_queue \<Rightarrow> bool \<times> ingest_queue" where
  "try_push msg q =
     (let h = qhead q; t = qtail q in
      if h - t = capacity q then (False, q)
      else (True, q\<lparr>qbuf := (qbuf q)[slot q h := msg], qhead := h + 1\<rparr>))"

text \<open>
  \<open>try_pop(out)\<close>: the message, if any. The slot is moved from, which leaves a valid but
  unspecified string in it; \<open>junk\<close> stands for that string, and every property holds for
  all \<open>junk\<close>.
\<close>

definition try_pop :: "string \<Rightarrow> ingest_queue \<Rightarrow> string option \<times> ingest_queue" where
  "try_pop junk q =
     (let t = qtail q; h = qhead q in
      if h = t then (None, q)
      else (Some (qbuf q ! slot q t),
            q\<lparr>qbuf := (qbuf q)[slot q t := junk], qtail := t + 1\<rparr>))"

text \<open>
  \<open>size()\<close> loads \<open>head_\<close> and then \<open>tail_\<close>: two loads, between which the other threads may
  run. \<open>size_across q1 q2\<close> is the result when the first load sees the state \<open>q1\<close> and the
  second the state \<open>q2\<close>.
\<close>

definition size_across :: "ingest_queue \<Rightarrow> ingest_queue \<Rightarrow> u64" where
  "size_across q1 q2 = qhead q1 - qtail q2"

definition queue_size :: "ingest_queue \<Rightarrow> u64" where
  "queue_size q = size_across q q"

definition queue_empty :: "ingest_queue \<Rightarrow> bool" where
  "queue_empty q \<longleftrightarrow> queue_size q = 0"

definition queue_full :: "ingest_queue \<Rightarrow> bool" where
  "queue_full q \<longleftrightarrow> queue_size q = capacity q"

definition queue_clear :: "ingest_queue \<Rightarrow> ingest_queue" where
  "queue_clear q = q\<lparr>qbuf := map (\<lambda>_. '''') (qbuf q), qhead := 0, qtail := 0\<rparr>"

subsection \<open>Powers of two on words\<close>

lemma bit_u64_iff: "bit (x :: u64) h \<longleftrightarrow> odd (unat x div 2 ^ h)"
proof -
  have "bit x h \<longleftrightarrow> bit (unat x) h"
    using bit_imp_le_length[of x h] by (auto simp: bit_unsigned_iff)
  then show ?thesis by (simp only: bit_iff_odd)
qed

lemma ex_high_bit:
  assumes "x \<noteq> (0 :: u64)"
  obtains h where "h < 64" "2 ^ h \<le> unat x" "unat x < 2 ^ Suc h"
proof -
  from assms have "1 \<le> unat x" by (simp add: Suc_leI unat_gt_0)
  then obtain h where h: "2 ^ h \<le> unat x" "unat x < 2 ^ (h + 1)"
    using ex_power_ivl1[of 2 "unat x"] by auto
  have "unat x < 2 ^ 64" using unsigned_less[of x] by simp
  with h(1) have "(2::nat) ^ h < 2 ^ 64" by (rule le_less_trans)
  then have "h < 64" by (simp only: power_strict_increasing_iff)
  with h that show ?thesis by simp
qed

lemma high_bit:
  assumes "2 ^ h \<le> unat (x :: u64)" and "unat x < 2 ^ Suc h" and "h < 64"
  shows "bit x h" and "\<And>j. h < j \<Longrightarrow> \<not> bit x j"
proof -
  have "unat x div 2 ^ h = 1" using assms by (intro div_nat_eqI) auto
  then show "bit x h" using assms by (simp add: bit_u64_iff)
next
  fix j assume "h < j"
  then have "(2::nat) ^ Suc h \<le> 2 ^ j" by (intro power_increasing) auto
  with assms(2) have "unat x div 2 ^ j = 0" by (simp add: div_eq_0_iff)
  then show "\<not> bit x j" by (simp add: bit_u64_iff)
qed


lemma is_power_of_two_pow:
  assumes "h < 64"
  shows "is_power_of_two (2 ^ h)"
proof -
  have "2 ^ h AND mask h = (0 :: u64)"
    by (rule bit_word_eqI) (auto simp: bit_and_iff bit_exp_iff bit_mask_iff)
  with assms show ?thesis by (simp add: is_power_of_two_def mask_eq_exp_minus_1)
qed

lemma is_power_of_two_iff: "is_power_of_two x \<longleftrightarrow> (\<exists>h < 64. x = 2 ^ h)"
proof
  assume p: "is_power_of_two x"
  then obtain h where h: "h < 64" "2 ^ h \<le> unat x" "unat x < 2 ^ Suc h"
    using ex_high_bit[of x] by (auto simp: is_power_of_two_def)
  have "x = 2 ^ h"
  proof (rule ccontr)
    assume "x \<noteq> 2 ^ h"
    moreover have u: "unat (2 ^ h :: u64) = 2 ^ h" using h(1) by (rule unat_pow2)
    ultimately have "unat x \<noteq> 2 ^ h" by (metis word_unat_eq_iff)
    with h(2) have gt: "2 ^ h < unat x" by simp
    then have "x \<noteq> 0" by auto
    then have "unat (x - 1) = unat x - 1" by (simp add: unat_minus_one)
    with gt h have "bit (x - 1) h" by (intro high_bit(1)) auto
    moreover have "bit x h" using h by (intro high_bit(1)) auto
    ultimately have "bit (x AND (x - 1)) h" by (simp add: bit_and_iff)
    with p show False by (simp add: is_power_of_two_def)
  qed
  with h(1) show "\<exists>h < 64. x = 2 ^ h" by blast
qed (auto simp: is_power_of_two_pow)

subsection \<open>The rounding loop\<close>

text \<open>
  After the round with shift \<open>i\<close>, bit \<open>j\<close> of the result says whether one of the bits
  \<open>j, \<dots>, j + 2 * i - 1\<close> of the argument was set.
\<close>

definition smeared :: "nat \<Rightarrow> u64 \<Rightarrow> u64 \<Rightarrow> bool" where
  "smeared w n m \<longleftrightarrow> (\<forall>j. bit m j \<longleftrightarrow> (\<exists>k < w. bit n (j + k)))"

lemma smeared_1: "smeared 1 n n"
  by (auto simp: smeared_def)

lemma smeared_double:
  assumes "smeared w n m"
  shows "smeared (2 * w) n (m OR drop_bit w m)"
proof -
  have "(\<exists>k < w. P (j + k)) \<or> (\<exists>k < w. P (w + j + k)) \<longleftrightarrow> (\<exists>k < 2 * w. P (j + k))"
    for P and j :: nat
  proof
    assume "\<exists>k < 2 * w. P (j + k)"
    then obtain k where k: "k < 2 * w" "P (j + k)" by blast
    show "(\<exists>k < w. P (j + k)) \<or> (\<exists>k < w. P (w + j + k))"
    proof (cases "k < w")
      case False
      with k have "k - w < w" "P (w + j + (k - w))" by (auto simp: algebra_simps)
      then show ?thesis by blast
    qed (use k in blast)
  next
    assume "(\<exists>k < w. P (j + k)) \<or> (\<exists>k < w. P (w + j + k))"
    then show "\<exists>k < 2 * w. P (j + k)"
    proof
      assume "\<exists>k < w. P (w + j + k)"
      then obtain k where "k < w" "P (w + j + k)" by blast
      then have "k + w < 2 * w" "P (j + (k + w))" by (auto simp: algebra_simps)
      then show ?thesis by blast
    qed force
  qed
  with assms show ?thesis by (simp add: smeared_def bit_or_iff bit_drop_bit_eq)
qed

lemma smear_smeared:
  "0 < i \<Longrightarrow> smeared i n m \<Longrightarrow> \<exists>w \<ge> 64. smeared w n (smear i m)"
proof (induction i m rule: smear.induct)
  case (1 i m)
  show ?case
  proof (cases "i < 64")
    case True
    then show ?thesis using 1 smeared_double[of i n m] by (simp add: smear.simps[of i m])
  next
    case False
    with 1 show ?thesis by (intro exI[of _ i]) (simp add: smear.simps[of i m])
  qed
qed

lemma bit_smear: "bit (smear 1 n) j \<longleftrightarrow> (\<exists>k. bit n (j + k))"
proof -
  obtain w where "64 \<le> w" "smeared w n (smear 1 n)"
    using smear_smeared[of 1 n n] smeared_1 by auto
  moreover have "bit n (j + k) \<Longrightarrow> k < 64" for k
    using bit_imp_le_length[of n "j + k"] by simp
  ultimately show ?thesis by (meson less_le_trans smeared_def)
qed

lemma smear_high_bit:
  assumes "2 ^ h \<le> unat n" and "unat n < 2 ^ Suc h" and "h < 64"
  shows "smear 1 n = mask (Suc h)"
proof (rule bit_word_eqI)
  fix j assume "j < LENGTH(64)"
  have "(\<exists>k. bit n (j + k)) \<longleftrightarrow> j \<le> h"
  proof
    assume "\<exists>k. bit n (j + k)"
    with high_bit(2)[OF assms] show "j \<le> h" by (meson le_add1 linorder_not_le order_less_le_trans)
  next
    assume "j \<le> h"
    then show "\<exists>k. bit n (j + k)" using high_bit(1)[OF assms] by (metis le_add_diff_inverse)
  qed
  with \<open>j < LENGTH(64)\<close> show "bit (smear 1 n) j = bit (mask (Suc h) :: u64) j"
    by (simp add: bit_smear bit_mask_iff less_Suc_eq_le del: One_nat_def)
qed


lemma smear_plus_1:
  assumes "2 ^ h \<le> unat n" and "unat n < 2 ^ Suc h" and "h < 64"
  shows "smear 1 n + 1 = 2 ^ Suc h"
  using smear_high_bit[OF assms] by (simp only: mask_eq_exp_minus_1) simp

text \<open>The result of the rounding, in terms of the exponent.\<close>

lemma next_pow2_cases:
  assumes "unat n \<le> 2 ^ 63"
  obtains k where "3 \<le> k" "k < 64" "next_pow2 n = 2 ^ k" "max 8 (unat n) \<le> 2 ^ k"
    "\<And>j. max 8 (unat n) \<le> 2 ^ j \<Longrightarrow> k \<le> j"
proof -
  have exp: "k \<le> j" if "(2::nat) ^ k \<le> 2 ^ j" for k j
    using that by simp
  show thesis
  proof (cases "n < 8")
    case True
    then have "next_pow2 n = 2 ^ 3" "max 8 (unat n) = 2 ^ 3"
      by (auto simp: next_pow2_def word_less_nat_alt)
    then show thesis using that[of 3] exp[of 3] by simp
  next
    case False
    then have ge8: "8 \<le> unat n" by (simp add: word_less_nat_alt)
    show thesis
    proof (cases "is_power_of_two n")
      case True
      then obtain k where k: "k < 64" "n = 2 ^ k" by (auto simp: is_power_of_two_iff)
      then have u: "unat n = 2 ^ k" by (simp add: unat_pow2)
      with ge8 have "(2::nat) ^ 3 \<le> 2 ^ k" by simp
      then have "3 \<le> k" by (rule exp)
      moreover have "next_pow2 n = n" using True False by (simp add: next_pow2_def)
      moreover have "k \<le> j" if "max 8 (unat n) \<le> 2 ^ j" for j
        by (rule exp) (use that u in \<open>simp only: max.bounded_iff\<close>)
      moreover have "max 8 (unat n) \<le> 2 ^ k" using u ge8 by simp
      ultimately show thesis using that k by (simp only:)
    next
      case npow: False
      have u1: "unat (n - 1) = unat n - 1" using ge8 by (intro unat_minus_one) auto
      then have "0 < unat (n - 1)" using ge8 by simp
      then have "n - 1 \<noteq> 0" by fastforce
      then obtain h where h: "h < 64" "2 ^ h \<le> unat (n - 1)" "unat (n - 1) < 2 ^ Suc h"
        by (rule ex_high_bit)
      have "(2::nat) ^ h < 2 ^ 63" using h(2) u1 assms ge8 by linarith
      then have h63: "h < 63" by (simp only: power_strict_increasing_iff)
      have res: "next_pow2 n = 2 ^ Suc h"
        using False npow smear_plus_1[OF h(2,3,1)] by (simp add: next_pow2_def)
      have up: "unat n \<le> 2 ^ Suc h" using h(3) u1 by linarith
      with ge8 have "(2::nat) ^ 3 \<le> 2 ^ Suc h" by simp
      then have "3 \<le> Suc h" by (rule exp)
      moreover have "Suc h \<le> j" if "max 8 (unat n) \<le> 2 ^ j" for j
      proof -
        have "(2::nat) ^ h < 2 ^ j" using that h(2) u1 ge8 by linarith
        then have "h < j" by (simp only: power_strict_increasing_iff)
        then show ?thesis by simp
      qed
      ultimately show thesis
        using that[of "Suc h"] h63 res up \<open>(2::nat) ^ 3 \<le> 2 ^ Suc h\<close> by simp
    qed
  qed
qed

lemma next_pow2_above:
  assumes "2 ^ 63 < unat n"
  shows "next_pow2 n = 0"
proof -
  have u1: "unat (n - 1) = unat n - 1" using assms by (intro unat_minus_one) auto
  have lt: "unat n < 2 ^ 64" using unsigned_less[of n] by simp
  have h: "2 ^ 63 \<le> unat (n - 1)" "unat (n - 1) < 2 ^ Suc 63"
    using assms lt by (auto simp: u1)
  have "\<not> is_power_of_two n"
  proof
    assume "is_power_of_two n"
    then obtain k where "k < 64" "n = 2 ^ k" by (auto simp: is_power_of_two_iff)
    then have "unat n \<le> 2 ^ 63"
      using power_increasing[of k 63 "2::nat"] by (simp add: unat_pow2)
    with assms show False by simp
  qed
  moreover have "\<not> n < 8" using assms by (simp add: word_less_nat_alt)
  moreover have "(2 :: u64) ^ Suc 63 = 0" by simp
  ultimately show ?thesis using smear_plus_1[OF h] by (simp add: next_pow2_def)
qed

subsection \<open>Representation invariant\<close>

definition queue_shape :: "ingest_queue \<Rightarrow> bool" where
  "queue_shape q \<longleftrightarrow>
     (\<exists>k < 64. 3 \<le> k \<and> length (qbuf q) = 2 ^ k) \<and> qmask q = of_nat (length (qbuf q)) - 1"

definition queue_inv :: "ingest_queue \<Rightarrow> bool" where
  "queue_inv q \<longleftrightarrow> queue_shape q \<and> unat (qhead q - qtail q) \<le> length (qbuf q)"

text \<open>The messages the ring holds, oldest first.\<close>

definition queue_list :: "ingest_queue \<Rightarrow> string list" where
  "queue_list q =
     map (\<lambda>i. qbuf q ! slot q (qtail q + of_nat i)) [0..<unat (qhead q - qtail q)]"

lemma queue_shape_cong:
  "length (qbuf q') = length (qbuf q) \<Longrightarrow> qmask q' = qmask q \<Longrightarrow> queue_shape q' = queue_shape q"
  by (simp add: queue_shape_def)

lemma queue_shape_bounds:
  assumes "queue_shape q"
  shows "8 \<le> length (qbuf q)" and "length (qbuf q) \<le> 2 ^ 63"
proof -
  obtain k where "k < 64" "3 \<le> k" "length (qbuf q) = 2 ^ k"
    using assms by (auto simp: queue_shape_def)
  then show "8 \<le> length (qbuf q)" "length (qbuf q) \<le> 2 ^ 63"
    using power_increasing[of 3 k "2::nat"] power_increasing[of k 63 "2::nat"] by auto
qed

lemma slot_of_nat:
  assumes "queue_shape q"
  shows "slot q (of_nat n) = n mod length (qbuf q)"
proof -
  obtain k where k: "k < 64" "length (qbuf q) = 2 ^ k" "qmask q = 2 ^ k - 1"
    using assms by (auto simp: queue_shape_def)
  then show ?thesis by (simp add: slot_def unat_and_pow2_minus1 unat_of_nat_mod_pow2)
qed

lemma slot_offset:
  assumes "queue_shape q"
  shows "slot q (x + of_nat i) = (unat x + i) mod length (qbuf q)"
proof -
  have "x + of_nat i = of_nat (unat x + i)" by simp
  then show ?thesis using slot_of_nat[OF assms, of "unat x + i"] by (simp only:)
qed

lemma slot_eq: "queue_shape q \<Longrightarrow> slot q x = unat x mod length (qbuf q)"
  using slot_offset[of q x 0] by simp

lemma slot_in_range:
  assumes "queue_shape q"
  shows "slot q x < length (qbuf q)"
proof -
  have "0 < length (qbuf q)" using queue_shape_bounds(1)[OF assms] by linarith
  then show ?thesis by (simp add: slot_eq[OF assms])
qed

lemma capacity_length: "queue_shape q \<Longrightarrow> capacity q = of_nat (length (qbuf q))"
  by (simp add: capacity_def queue_shape_def)

lemma unat_capacity: "queue_shape q \<Longrightarrow> unat (capacity q) = length (qbuf q)"
  using queue_shape_bounds[of q] by (simp add: capacity_length unat_of_nat_u64)

lemma mk_queue_inv:
  assumes "mk_queue cap = Inr q"
  shows "queue_inv q" and "queue_list q = []" and "length (qbuf q) = unat (next_pow2 cap)"
proof -
  define n where "n = unat (next_pow2 cap)"
  have q: "qbuf q = replicate n ''''" "qmask q = of_nat n - 1" "qhead q = 0" "qtail q = 0"
    and p: "is_power_of_two (of_nat n)"
    using assms by (auto simp: mk_queue_def n_def Let_def split: if_splits)
  have "unat cap \<le> 2 ^ 63"
  proof (rule ccontr)
    assume "\<not> ?thesis"
    then have "next_pow2 cap = 0" by (intro next_pow2_above) simp
    with p show False by (simp add: n_def is_power_of_two_def)
  qed
  then obtain k where "3 \<le> k" "k < 64" "next_pow2 cap = 2 ^ k" by (rule next_pow2_cases)
  then have "n = 2 ^ k" "3 \<le> k" "k < 64" by (auto simp: n_def unat_pow2)
  with q show "queue_inv q" by (auto simp: queue_inv_def queue_shape_def)
  show "queue_list q = []" using q by (simp add: queue_list_def)
  show "length (qbuf q) = unat (next_pow2 cap)" using q by (simp add: n_def)
qed

lemma mk_queue_returns:
  assumes "unat cap \<le> 2 ^ 63"
  shows "\<exists>q. mk_queue cap = Inr q"
proof -
  from assms obtain k where "k < 64" "next_pow2 cap = 2 ^ k" by (rule next_pow2_cases)
  then show ?thesis by (simp add: mk_queue_def is_power_of_two_pow unat_pow2)
qed

subsection \<open>Refinement to a bounded first-in first-out list\<close>

lemma length_queue_list: "length (queue_list q) = unat (qhead q - qtail q)"
  by (simp add: queue_list_def)

lemma queue_list_nth:
  assumes "queue_shape q" and "i < length (queue_list q)"
  shows "queue_list q ! i = qbuf q ! ((unat (qtail q) + i) mod length (qbuf q))"
  using assms by (simp add: queue_list_def slot_offset)

lemma full_iff:
  assumes "queue_inv q"
  shows "qhead q - qtail q = capacity q \<longleftrightarrow> length (queue_list q) = length (qbuf q)"
  using assms unat_capacity[of q]
  by (simp add: queue_inv_def length_queue_list word_unat_eq_iff)

lemma empty_iff: "qhead q = qtail q \<longleftrightarrow> queue_list q = []"
  by (metis eq_iff_diff_eq_0 length_0_conv length_queue_list unat_eq_0)

lemma head_eq: "qhead q = qtail q + of_nat (length (queue_list q))"
  by (simp add: length_queue_list)

lemma push_step:
  assumes inv: "queue_inv q" and room: "length (queue_list q) < length (qbuf q)"
    and q': "q' = q\<lparr>qbuf := (qbuf q)[slot q (qhead q) := m], qhead := qhead q + 1\<rparr>"
  shows "queue_inv q'" and "queue_list q' = queue_list q @ [m]"
proof -
  let ?n = "length (qbuf q)" and ?l = "length (queue_list q)"
  have sh: "queue_shape q" using inv by (simp add: queue_inv_def)
  have sh': "queue_shape q'" using sh queue_shape_cong[of q' q] by (simp add: q')
  have n: "?n \<le> 2 ^ 63" using sh by (rule queue_shape_bounds)
  have "qhead q' - qtail q' = of_nat (Suc ?l)" by (simp add: q' head_eq[of q])
  then have len: "unat (qhead q' - qtail q') = Suc ?l"
    using room n by (simp only:) (intro unat_of_nat_u64, simp)
  show "queue_inv q'" using sh' len room by (simp add: queue_inv_def) (simp add: q')
  have slot: "slot q (qhead q) = (unat (qtail q) + ?l) mod ?n"
    by (subst head_eq) (rule slot_offset[OF sh])
  show "queue_list q' = queue_list q @ [m]"
  proof (rule nth_equalityI)
    show "length (queue_list q') = length (queue_list q @ [m])"
      by (simp add: length_queue_list len)
    fix i assume "i < length (queue_list q')"
    then have i: "i < length (queue_list q')" "i \<le> ?l"
      using len by (simp_all add: length_queue_list)
    have "queue_list q' ! i = (qbuf q)[slot q (qhead q) := m] ! ((unat (qtail q) + i) mod ?n)"
      using queue_list_nth[OF sh' i(1)] by (simp add: q')
    also have "\<dots> = (queue_list q @ [m]) ! i"
    proof (cases "i = ?l")
      case True
      then show ?thesis using slot_in_range[OF sh] by (simp add: slot[symmetric])
    next
      case False
      with i room have "slot q (qhead q) \<noteq> (unat (qtail q) + i) mod ?n"
        using add_mod_cancel[of "unat (qtail q)" i ?n ?l] by (auto simp: slot)
      with False i show ?thesis by (simp add: nth_append queue_list_nth[OF sh])
    qed
    finally show "queue_list q' ! i = (queue_list q @ [m]) ! i" .
  qed
qed

lemma pop_step:
  assumes inv: "queue_inv q" and ne: "queue_list q \<noteq> []"
    and q': "q' = q\<lparr>qbuf := (qbuf q)[slot q (qtail q) := junk], qtail := qtail q + 1\<rparr>"
  shows "queue_inv q'" and "queue_list q = qbuf q ! slot q (qtail q) # queue_list q'"
proof -
  let ?n = "length (qbuf q)" and ?l = "length (queue_list q)"
  have sh: "queue_shape q" using inv by (simp add: queue_inv_def)
  have sh': "queue_shape q'" using sh queue_shape_cong[of q' q] by (simp add: q')
  have n: "?n \<le> 2 ^ 63" using sh by (rule queue_shape_bounds)
  have l: "?l \<le> ?n" using inv by (simp add: queue_inv_def length_queue_list)
  have pos: "0 < ?l" using ne by simp
  have "of_nat ?l = (1 :: u64) + of_nat (?l - 1)" using pos by (simp flip: of_nat_Suc)
  then have "qhead q' - qtail q' = of_nat (?l - 1)" by (simp add: q' head_eq[of q])
  then have len: "unat (qhead q' - qtail q') = ?l - 1"
    using l n by (simp only:) (intro unat_of_nat_u64, simp)
  show "queue_inv q'" using sh' len l by (simp add: queue_inv_def) (simp add: q')
  have slot: "slot q (qtail q) = unat (qtail q) mod ?n" by (rule slot_eq[OF sh])
  have off: "(unat (qtail q + 1) + i) mod ?n = (unat (qtail q) + Suc i) mod ?n" for i
    using slot_offset[OF sh, of "qtail q + 1" i] slot_offset[OF sh, of "qtail q" "Suc i"]
    by (simp add: add.assoc)
  show "queue_list q = qbuf q ! slot q (qtail q) # queue_list q'"
  proof (rule nth_equalityI)
    show "length (queue_list q) = length (qbuf q ! slot q (qtail q) # queue_list q')"
      using pos len by (simp add: length_queue_list)
    fix i assume i: "i < length (queue_list q)"
    show "queue_list q ! i = (qbuf q ! slot q (qtail q) # queue_list q') ! i"
    proof (cases i)
      case 0
      with i show ?thesis by (simp add: queue_list_nth[OF sh] slot)
    next
      case (Suc j)
      with i len have j: "j < length (queue_list q')" by (simp add: length_queue_list)
      have "slot q (qtail q) \<noteq> (unat (qtail q) + i) mod ?n"
        using add_mod_cancel[of "unat (qtail q)" i ?n 0] i l Suc by (force simp: slot)
      with Suc i show ?thesis
        using queue_list_nth[OF sh' j] off[of j] by (simp add: queue_list_nth[OF sh]) (simp add: q')
    qed
  qed
qed

subsection \<open>The queue contract\<close>

text \<open>
  What the producer and the consumer rely on. \<open>run_ops\<close> runs a sequence of calls and
  returns the accepted messages, the delivered messages and the final queue.
\<close>

datatype 'a fifo_op = Push 'a | Pop 'a

fun run_ops ::
  "('a \<Rightarrow> 'q \<Rightarrow> bool \<times> 'q) \<Rightarrow> ('a \<Rightarrow> 'q \<Rightarrow> 'a option \<times> 'q) \<Rightarrow> 'q \<Rightarrow> 'a fifo_op list
     \<Rightarrow> 'a list \<times> 'a list \<times> 'q" where
  "run_ops push pop q [] = ([], [], q)"
| "run_ops push pop q (Push m # ops) =
     (case push m q of (b, q1) \<Rightarrow>
      case run_ops push pop q1 ops of (acc, out, q2) \<Rightarrow>
        (if b then m # acc else acc, out, q2))"
| "run_ops push pop q (Pop j # ops) =
     (case pop j q of (r, q1) \<Rightarrow>
      case run_ops push pop q1 ops of (acc, out, q2) \<Rightarrow>
        (acc, (case r of None \<Rightarrow> out | Some x \<Rightarrow> x # out), q2))"

locale bounded_fifo =
  fixes push :: "'a \<Rightarrow> 'q \<Rightarrow> bool \<times> 'q"
    and pop :: "'a \<Rightarrow> 'q \<Rightarrow> 'a option \<times> 'q"
    and contents :: "'q \<Rightarrow> 'a list"
    and room :: "'q \<Rightarrow> nat"
    and inv :: "'q \<Rightarrow> bool"
  assumes push_full: "inv q \<Longrightarrow> length (contents q) = room q \<Longrightarrow> push m q = (False, q)"
    and push_room: "inv q \<Longrightarrow> length (contents q) < room q \<Longrightarrow>
      \<exists>q'. push m q = (True, q') \<and> contents q' = contents q @ [m] \<and> inv q' \<and> room q' = room q"
    and pop_empty: "inv q \<Longrightarrow> contents q = [] \<Longrightarrow> pop j q = (None, q)"
    and pop_front: "inv q \<Longrightarrow> contents q = x # xs \<Longrightarrow>
      \<exists>q'. pop j q = (Some x, q') \<and> contents q' = xs \<and> inv q' \<and> room q' = room q"
    and bounded: "inv q \<Longrightarrow> length (contents q) \<le> room q"
begin

lemma push_cases:
  assumes "inv q" and "push m q = (b, q')"
  shows "inv q'" and "room q' = room q" and "b \<longleftrightarrow> length (contents q) < room q"
    and "contents q' = contents q @ (if b then [m] else [])"
  using push_full[OF assms(1), of m] push_room[OF assms(1), of m] bounded[OF assms(1)] assms
  by (cases "length (contents q) < room q"; force)+

lemma pop_cases:
  assumes "inv q" and "pop j q = (r, q')"
  shows "inv q'" and "room q' = room q" and "r = None \<longleftrightarrow> contents q = []"
    and "contents q = (case r of None \<Rightarrow> [] | Some x \<Rightarrow> [x]) @ contents q'"
  using pop_empty[OF assms(1), of j] pop_front[OF assms(1), of _ _ j] assms
  by (cases "contents q"; force)+

text \<open>Nothing is lost, duplicated or reordered, whatever the sequence of calls.\<close>

lemma run_ops_fifo:
  "inv q \<Longrightarrow> run_ops push pop q ops = (acc, out, q') \<Longrightarrow>
    inv q' \<and> room q' = room q \<and> contents q @ acc = out @ contents q'"
proof (induction ops arbitrary: q acc out q')
  case Nil
  then show ?case by simp
next
  case (Cons op ops)
  show ?case
  proof (cases op)
    case (Push m)
    obtain b q1 where p: "push m q = (b, q1)" by (cases "push m q")
    obtain acc1 out1 q2 where r: "run_ops push pop q1 ops = (acc1, out1, q2)"
      by (cases "run_ops push pop q1 ops") auto
    note step = push_cases[OF Cons.prems(1) p]
    have "acc = (if b then [m] else []) @ acc1" "out = out1" "q' = q2"
      using Cons.prems(2) by (auto simp: Push p r)
    with Cons.IH[OF step(1) r] step(2,4) show ?thesis by simp
  next
    case (Pop j)
    obtain x q1 where p: "pop j q = (x, q1)" by (cases "pop j q")
    obtain acc1 out1 q2 where r: "run_ops push pop q1 ops = (acc1, out1, q2)"
      by (cases "run_ops push pop q1 ops") auto
    note step = pop_cases[OF Cons.prems(1) p]
    have "acc = acc1" "out = (case x of None \<Rightarrow> [] | Some y \<Rightarrow> [y]) @ out1" "q' = q2"
      using Cons.prems(2) by (auto simp: Pop p r split: option.split)
    with Cons.IH[OF step(1) r] step(2,4) show ?thesis by simp
  qed
qed

lemma run_ops_conserve:
  "inv q \<Longrightarrow> contents q = [] \<Longrightarrow> run_ops push pop q ops = (acc, out, q') \<Longrightarrow>
    acc = out @ contents q' \<and> length acc \<le> length out + room q"
  using run_ops_fifo[of q ops acc out q'] bounded[of q'] by fastforce

end

interpretation ring: bounded_fifo try_push try_pop queue_list "\<lambda>q. length (qbuf q)" queue_inv
proof unfold_locales
  fix q m
  assume inv: "queue_inv q"
  show "try_push m q = (False, q)" if "length (queue_list q) = length (qbuf q)"
    using that full_iff[OF inv] by (simp add: try_push_def)
  show "\<exists>q'. try_push m q = (True, q') \<and> queue_list q' = queue_list q @ [m] \<and> queue_inv q'
      \<and> length (qbuf q') = length (qbuf q)" if "length (queue_list q) < length (qbuf q)"
    using that full_iff[OF inv] push_step[OF inv that refl, of m] by (simp add: try_push_def Let_def)
next
  fix q j
  assume inv: "queue_inv q"
  show "try_pop j q = (None, q)" if "queue_list q = []"
    using that empty_iff[of q] by (simp add: try_pop_def)
  show "\<exists>q'. try_pop j q = (Some x, q') \<and> queue_list q' = xs \<and> queue_inv q'
      \<and> length (qbuf q') = length (qbuf q)" if "queue_list q = x # xs" for x xs
    using that empty_iff[of q] pop_step[OF inv _ refl, of j] by (simp add: try_pop_def Let_def)
next
  fix q
  assume "queue_inv q"
  then show "length (queue_list q) \<le> length (qbuf q)"
    by (simp add: queue_inv_def length_queue_list)
qed

lemma queue_size_length: "unat (queue_size q) = length (queue_list q)"
  by (simp add: queue_size_def size_across_def length_queue_list)

lemma queue_clear_inv:
  assumes "queue_inv q"
  shows "queue_inv (queue_clear q)" and "queue_list (queue_clear q) = []"
  using assms queue_shape_cong[of "queue_clear q" q]
  by (simp_all add: queue_inv_def queue_list_def queue_clear_def)

subsection \<open>Properties\<close>

text \<open>
  C30. The capacity is the least power of two that is at least 8 and at least the requested
  capacity, for every request up to \<open>2 ^ 63\<close>, and the constructor succeeds with a buffer of
  exactly that size.
\<close>

theorem mk_queue_capacity:
  assumes "unat cap \<le> 2 ^ 63"
  shows "\<exists>q k. mk_queue cap = Inr q \<and> unat (capacity q) = 2 ^ k \<and> length (qbuf q) = 2 ^ k
    \<and> max 8 (unat cap) \<le> 2 ^ k \<and> (\<forall>j. max 8 (unat cap) \<le> 2 ^ j \<longrightarrow> k \<le> j)"
proof -
  from assms obtain k where "3 \<le> k" and k: "k < 64" "next_pow2 cap = 2 ^ k" "max 8 (unat cap) \<le> 2 ^ k"
    "\<And>j. max 8 (unat cap) \<le> 2 ^ j \<Longrightarrow> k \<le> j" by (rule next_pow2_cases) blast
  from assms obtain q where q: "mk_queue cap = Inr q" using mk_queue_returns by blast
  have "queue_shape q" "length (qbuf q) = 2 ^ k"
    using mk_queue_inv[OF q] k by (simp_all add: queue_inv_def unat_pow2)
  then have "unat (capacity q) = 2 ^ k" "length (qbuf q) = 2 ^ k" by (simp_all add: unat_capacity)
  with q k(3,4) show ?thesis by blast
qed

theorem mk_queue_capacity_witness:
  "unat (1000 :: u64) \<le> 2 ^ 63 \<and> (\<exists>q k. mk_queue 1000 = Inr q \<and> unat (capacity q) = 2 ^ k
    \<and> max 8 (unat (1000 :: u64)) \<le> 2 ^ k)"
proof -
  have h: "unat (1000 :: u64) \<le> 2 ^ 63" by simp
  from mk_queue_capacity[OF h] h show ?thesis by blast
qed

text \<open>
  A request above \<open>2 ^ 63\<close> makes the rounding wrap to 0: the buffer would be empty and the
  constructor's assertion fails.
\<close>

lemma mk_queue_overflow:
  assumes "2 ^ 63 < unat cap"
  shows "next_pow2 cap = 0 \<and> mk_queue cap = Inl Assertion_failed"
  using next_pow2_above[OF assms] by (simp add: mk_queue_def is_power_of_two_def)

lemma mk_queue_overflow_witness:
  "2 ^ 63 < unat (2 ^ 63 + 1 :: u64) \<and> mk_queue (2 ^ 63 + 1) = Inl Assertion_failed"
proof -
  have h: "2 ^ 63 < unat (2 ^ 63 + 1 :: u64)" by simp
  from mk_queue_overflow[OF h] h show ?thesis by blast
qed

text \<open>
  C3. Any sequence of calls on a new queue delivers a prefix of the accepted messages, in
  order and without loss or duplication, keeps the rest in the queue, and never accepts more
  than the capacity beyond what was delivered.
\<close>

theorem queue_calls_fifo:
  assumes "mk_queue cap = Inr q" and "run_ops try_push try_pop q ops = (acc, out, q')"
  shows "acc = out @ queue_list q' \<and> length acc \<le> length out + unat (capacity q)"
proof -
  have inv: "queue_inv q" "queue_list q = []" using mk_queue_inv[OF assms(1)] by auto
  then have cap: "unat (capacity q) = length (qbuf q)" by (simp add: queue_inv_def unat_capacity)
  show ?thesis unfolding cap by (rule ring.run_ops_conserve[OF inv assms(2)])
qed

theorem queue_calls_fifo_witness:
  "\<exists>q q'. mk_queue 8 = Inr q \<and> run_ops try_push try_pop q [Push ''a'', Push ''b'', Pop '''']
      = ([''a'', ''b''], [''a''], q') \<and> [''a'', ''b''] = [''a''] @ queue_list q'"
proof -
  let ?q = "\<lparr>qbuf = replicate 8 '''', qmask = 7, qhead = 0, qtail = 0\<rparr>"
  have q: "mk_queue 8 = Inr ?q" by (simp add: mk_queue_def next_pow2_def is_power_of_two_def)
  let ?r = "run_ops try_push try_pop ?q [Push ''a'', Push ''b'', Pop '''']"
  have "fst ?r = [''a'', ''b''] \<and> fst (snd ?r) = [''a'']" by code_simp
  then obtain q' where r: "?r = ([''a'', ''b''], [''a''], q')"
    by (metis prod.collapse)
  from queue_calls_fifo[OF q r] q r show ?thesis by blast
qed

text \<open>
  On a well-formed queue \<open>size()\<close>, \<open>empty()\<close> and \<open>full()\<close> describe the messages it
  holds; \<open>try_push\<close> fails exactly when it is full and \<open>try_pop\<close> exactly when it is empty;
  and every slot an operation accesses lies inside the buffer.
\<close>

lemma queue_observers:
  assumes "queue_inv q"
  shows "unat (queue_size q) = length (queue_list q)
    \<and> (queue_empty q \<longleftrightarrow> queue_list q = [])
    \<and> (queue_full q \<longleftrightarrow> length (queue_list q) = length (qbuf q))
    \<and> (fst (try_push m q) \<longleftrightarrow> \<not> queue_full q) \<and> (fst (try_pop j q) = None \<longleftrightarrow> queue_empty q)
    \<and> slot q i < length (qbuf q)"
proof -
  have sh: "queue_shape q" using assms by (simp add: queue_inv_def)
  have full: "queue_full q \<longleftrightarrow> length (queue_list q) = length (qbuf q)"
    using full_iff[OF assms] by (simp add: queue_full_def queue_size_def size_across_def)
  have empty: "queue_empty q \<longleftrightarrow> qhead q = qtail q"
    by (simp add: queue_empty_def queue_size_def size_across_def)
  show ?thesis
    using full full_iff[OF assms] empty empty_iff[of q] slot_in_range[OF sh]
    by (simp add: queue_size_length try_push_def try_pop_def Let_def)
qed

lemma queue_observers_witness:
  "\<exists>q. queue_inv q \<and> unat (queue_size q) = length (queue_list q) \<and> slot q 9 < length (qbuf q)"
proof -
  obtain q where "mk_queue 8 = Inr q" using mk_queue_returns[of 8] by auto
  then have "queue_inv q" by (rule mk_queue_inv)
  from queue_observers[OF this] this show ?thesis by blast
qed

end
