(* ===== verification/Transition.thy ===== *)
theory Transition
  imports Main
begin

text \<open>
  Reachable states of a step relation, and the contract of an inductive invariant. The queue's
  thread interleavings and the life cycle of the WebSocket client are step relations; each
  proves its invariant once and interprets \<open>inductive_invariant\<close>.
\<close>

inductive reachable :: "('s \<Rightarrow> bool) \<Rightarrow> ('s \<Rightarrow> 's \<Rightarrow> bool) \<Rightarrow> 's \<Rightarrow> bool"
  for init step where
  reach_init: "init s \<Longrightarrow> reachable init step s"
| reach_step: "reachable init step s \<Longrightarrow> step s t \<Longrightarrow> reachable init step t"

inductive_simps reachable_unfold: "reachable init step s"

text \<open>A run from a given state, used to exhibit executions.\<close>

inductive runs_to :: "('s \<Rightarrow> 's \<Rightarrow> bool) \<Rightarrow> 's \<Rightarrow> 's \<Rightarrow> bool"
  for step where
  runs_refl: "runs_to step s s"
| runs_step: "step s t \<Longrightarrow> runs_to step t u \<Longrightarrow> runs_to step s u"

lemma reachable_runs_to:
  "runs_to step s t \<Longrightarrow> reachable init step s \<Longrightarrow> reachable init step t"
  by (induction rule: runs_to.induct) (auto intro: reach_step)

lemma runs_to_trans: "runs_to step s t \<Longrightarrow> runs_to step t u \<Longrightarrow> runs_to step s u"
  by (induction rule: runs_to.induct) (auto intro: runs_step)

locale inductive_invariant =
  fixes init :: "'s \<Rightarrow> bool"
    and step :: "'s \<Rightarrow> 's \<Rightarrow> bool"
    and invariant :: "'s \<Rightarrow> bool"
  assumes at_start: "init s \<Longrightarrow> invariant s"
    and kept: "step s t \<Longrightarrow> invariant s \<Longrightarrow> invariant t"
begin

lemma always: "reachable init step s \<Longrightarrow> invariant s"
  by (induction rule: reachable.induct) (auto intro: at_start kept)

lemma kept_run: "runs_to step s t \<Longrightarrow> invariant s \<Longrightarrow> invariant t"
  by (induction rule: runs_to.induct) (auto intro: kept)

end

end
