(* ===== verification/Spsc.thy ===== *)
theory Spsc
  imports Ingest_Queue Transition
begin

text \<open>
  The ring \<open>IngestQueue\<close> as its two threads run it: \<open>try_push\<close> in the producer (the WebSocket
  read loop) and \<open>try_pop\<close> in the consumer, cut at every access to shared memory.

  Memory order. A thread reads the index it writes itself exactly. A load of the other
  thread's index may return an older value, but never one older than a value this thread has
  already read (coherence); \<open>seen_tail\<close> and \<open>seen_head\<close> count what each thread has seen. The
  release store that publishes an index comes after the write to the slot, and the acquire
  load that reads the index comes before the read of the slot, so the slot is read as last
  written; that no slot is ever accessed by both threads at once is a theorem below, not an
  assumption. \<open>pushed\<close> and \<open>popped\<close> record the published and the delivered messages.
\<close>

subsection \<open>Thread states and steps\<close>

datatype producer_pc =
    PIdle                   \<comment> \<open>not in \<open>try_push\<close>\<close>
  | PHead string u64        \<comment> \<open>\<open>head_\<close> loaded\<close>
  | PTail string u64 u64    \<comment> \<open>\<open>tail_\<close> loaded: about to test for full\<close>
  | PStored string u64      \<comment> \<open>slot written: about to publish \<open>head_\<close>\<close>

datatype consumer_pc =
    CIdle
  | CTail u64
  | CHead u64 u64           \<comment> \<open>\<open>tail_\<close> and \<open>head_\<close> loaded: about to test for empty\<close>
  | CTaken u64 string       \<comment> \<open>slot moved out: about to publish \<open>tail_\<close>\<close>

record spsc =
  ring :: ingest_queue
  producer :: producer_pc
  consumer :: consumer_pc
  seen_tail :: nat
  seen_head :: nat
  pushed :: "string list"
  popped :: "string list"

definition spsc_start :: "ingest_queue \<Rightarrow> spsc" where
  "spsc_start q = \<lparr>ring = q, producer = PIdle, consumer = CIdle,
     seen_tail = 0, seen_head = 0, pushed = [], popped = []\<rparr>"

definition spsc_init :: "spsc \<Rightarrow> bool" where
  "spsc_init s \<longleftrightarrow> (\<exists>cap q. mk_queue cap = Inr q \<and> s = spsc_start q)"

inductive spsc_step :: "spsc \<Rightarrow> spsc \<Rightarrow> bool" where
  push_load_head:
    "producer s = PIdle \<Longrightarrow> spsc_step s (s\<lparr>producer := PHead m (qhead (ring s))\<rparr>)"
| push_load_tail:
    "producer s = PHead m h \<Longrightarrow> seen_tail s \<le> n \<Longrightarrow> n \<le> length (popped s) \<Longrightarrow>
     spsc_step s (s\<lparr>producer := PTail m h (of_nat n), seen_tail := n\<rparr>)"
| push_full:
    "producer s = PTail m h t \<Longrightarrow> h - t = capacity (ring s) \<Longrightarrow>
     spsc_step s (s\<lparr>producer := PIdle\<rparr>)"
| push_write:
    "producer s = PTail m h t \<Longrightarrow> h - t \<noteq> capacity (ring s) \<Longrightarrow>
     q = (ring s)\<lparr>qbuf := (qbuf (ring s))[slot (ring s) h := m]\<rparr> \<Longrightarrow>
     spsc_step s (s\<lparr>producer := PStored m h, ring := q\<rparr>)"
| push_publish:
    "producer s = PStored m h \<Longrightarrow> q = (ring s)\<lparr>qhead := h + 1\<rparr> \<Longrightarrow>
     spsc_step s (s\<lparr>producer := PIdle, ring := q, pushed := pushed s @ [m]\<rparr>)"
| pop_load_tail:
    "consumer s = CIdle \<Longrightarrow> spsc_step s (s\<lparr>consumer := CTail (qtail (ring s))\<rparr>)"
| pop_load_head:
    "consumer s = CTail t \<Longrightarrow> seen_head s \<le> n \<Longrightarrow> n \<le> length (pushed s) \<Longrightarrow>
     spsc_step s (s\<lparr>consumer := CHead t (of_nat n), seen_head := n\<rparr>)"
| pop_empty:
    "consumer s = CHead t h \<Longrightarrow> h = t \<Longrightarrow> spsc_step s (s\<lparr>consumer := CIdle\<rparr>)"
| pop_take:
    "consumer s = CHead t h \<Longrightarrow> h \<noteq> t \<Longrightarrow>
     q = (ring s)\<lparr>qbuf := (qbuf (ring s))[slot (ring s) t := junk]\<rparr> \<Longrightarrow>
     x = qbuf (ring s) ! slot (ring s) t \<Longrightarrow>
     spsc_step s (s\<lparr>consumer := CTaken t x, ring := q\<rparr>)"
| pop_publish:
    "consumer s = CTaken t x \<Longrightarrow> q = (ring s)\<lparr>qtail := t + 1\<rparr> \<Longrightarrow>
     spsc_step s (s\<lparr>consumer := CIdle, ring := q, popped := popped s @ [x]\<rparr>)"

subsection \<open>The invariant\<close>

text \<open>
  The published indices count the published and delivered messages; each thread's view of
  the other lags behind but never by more than the ring can hold; and the slots between the
  two indices hold the published messages that were not delivered, except the one the
  consumer has moved out.
\<close>

definition size_of :: "spsc \<Rightarrow> nat" where
  "size_of s = length (qbuf (ring s))"

definition indices_ok :: "spsc \<Rightarrow> bool" where
  "indices_ok s \<longleftrightarrow>
     queue_shape (ring s)
     \<and> qhead (ring s) = of_nat (length (pushed s)) \<and> qtail (ring s) = of_nat (length (popped s))
     \<and> length (popped s) \<le> seen_head s \<and> seen_head s \<le> length (pushed s)
     \<and> seen_tail s \<le> length (popped s) \<and> length (pushed s) \<le> seen_tail s + size_of s"

definition taken :: "spsc \<Rightarrow> bool" where
  "taken s \<longleftrightarrow> (case consumer s of CTaken t x \<Rightarrow> True | _ \<Rightarrow> False)"

definition slots_ok :: "spsc \<Rightarrow> bool" where
  "slots_ok s \<longleftrightarrow>
     (\<forall>i. length (popped s) \<le> i \<and> i < length (pushed s) \<and> \<not> (i = length (popped s) \<and> taken s)
        \<longrightarrow> qbuf (ring s) ! (i mod size_of s) = pushed s ! i)
     \<and> popped s = take (length (popped s)) (pushed s)"

fun producer_ok :: "spsc \<Rightarrow> producer_pc \<Rightarrow> bool" where
  "producer_ok s PIdle = True"
| "producer_ok s (PHead m h) = (h = of_nat (length (pushed s)))"
| "producer_ok s (PTail m h t) = (h = of_nat (length (pushed s)) \<and> t = of_nat (seen_tail s))"
| "producer_ok s (PStored m h) =
     (h = of_nat (length (pushed s)) \<and> length (pushed s) < seen_tail s + size_of s
      \<and> qbuf (ring s) ! (length (pushed s) mod size_of s) = m)"

fun consumer_ok :: "spsc \<Rightarrow> consumer_pc \<Rightarrow> bool" where
  "consumer_ok s CIdle = True"
| "consumer_ok s (CTail t) = (t = of_nat (length (popped s)))"
| "consumer_ok s (CHead t h) = (t = of_nat (length (popped s)) \<and> h = of_nat (seen_head s))"
| "consumer_ok s (CTaken t x) =
     (t = of_nat (length (popped s)) \<and> length (popped s) < seen_head s
      \<and> x = pushed s ! length (popped s))"

definition spsc_inv :: "spsc \<Rightarrow> bool" where
  "spsc_inv s \<longleftrightarrow> indices_ok s \<and> slots_ok s
     \<and> producer_ok s (producer s) \<and> consumer_ok s (consumer s)"

lemmas spsc_inv_defs = spsc_inv_def indices_ok_def slots_ok_def size_of_def taken_def

subsection \<open>Index arithmetic\<close>

text \<open>
  The abstract queue: the messages in the ring, and what one step may do to them. A step of a
  thread leaves them alone, appends one below the capacity, or removes the first.
\<close>

definition in_ring :: "spsc \<Rightarrow> string list" where
  "in_ring s = drop (length (popped s)) (pushed s)"

inductive fifo_step :: "nat \<Rightarrow> string list \<Rightarrow> string list \<Rightarrow> bool" for n where
  fifo_stay: "fifo_step n xs xs"
| fifo_enq: "length xs < n \<Longrightarrow> fifo_step n xs (xs @ [m])"
| fifo_deq: "fifo_step n (x # xs) xs"

lemma slots_differ:
  assumes "i < j" and "j < i + n"
  shows "i mod n \<noteq> j mod (n :: nat)"
  using assms add_mod_cancel[of i 0 n "j - i"] by force

lemma full_test_iff:
  assumes "indices_ok s"
  shows "(of_nat (length (pushed s)) :: u64) - of_nat (seen_tail s) = capacity (ring s)
    \<longleftrightarrow> length (pushed s) = seen_tail s + size_of s"
proof -
  let ?h = "length (pushed s)" and ?t = "seen_tail s"
  have le: "?t \<le> ?h" "?h - ?t \<le> size_of s" and sh: "queue_shape (ring s)"
    using assms by (auto simp: indices_ok_def)
  have n: "size_of s \<le> 2 ^ 63" unfolding size_of_def by (rule queue_shape_bounds(2)[OF sh])
  have "(of_nat ?h :: u64) - of_nat ?t = of_nat (?h - ?t)" using le(1) by (rule of_nat_diff_word)
  moreover have "(of_nat (?h - ?t) :: u64) = of_nat (size_of s) \<longleftrightarrow> ?h - ?t = size_of s"
    using le n by (intro of_nat_u64_inj) auto
  ultimately show ?thesis using le sh by (auto simp: capacity_length size_of_def)
qed

lemma empty_test_iff:
  assumes "indices_ok s"
  shows "(of_nat (seen_head s) :: u64) = of_nat (length (popped s)) \<longleftrightarrow> seen_head s = length (popped s)"
proof -
  let ?h = "seen_head s" and ?t = "length (popped s)"
  have le: "?t \<le> ?h" "?h - ?t \<le> size_of s" and sh: "queue_shape (ring s)"
    using assms by (auto simp: indices_ok_def)
  have n: "size_of s \<le> 2 ^ 63" unfolding size_of_def by (rule queue_shape_bounds(2)[OF sh])
  have "(of_nat ?h :: u64) = of_nat ?t \<longleftrightarrow> of_nat (?h - ?t) = (0 :: u64)"
    using of_nat_diff_word[OF le(1), where ?'a = 64] by (metis eq_iff_diff_eq_0)
  also have "\<dots> \<longleftrightarrow> ?h - ?t = 0"
    using of_nat_u64_inj[of "?h - ?t" 0] le n by simp
  finally show ?thesis using le by auto
qed

lemma spsc_tests:
  assumes "spsc_inv s"
  shows "producer s = PTail m h t \<Longrightarrow> h - t = capacity (ring s) \<longleftrightarrow> length (pushed s) = seen_tail s + size_of s"
    and "consumer s = CHead t' h' \<Longrightarrow> h' = t' \<longleftrightarrow> seen_head s = length (popped s)"
  using assms full_test_iff[of s] empty_test_iff[of s] by (auto simp: spsc_inv_def)

lemma indices_shape: "indices_ok s \<Longrightarrow> queue_shape (ring s)"
  by (simp add: indices_ok_def)

subsection \<open>Every step keeps the invariant\<close>

lemma spsc_inv_start: "spsc_init s \<Longrightarrow> spsc_inv s"
proof -
  assume "spsc_init s"
  then obtain cap q where q: "mk_queue cap = Inr q" "s = spsc_start q"
    by (auto simp: spsc_init_def)
  then have "queue_shape q" using mk_queue_inv(1) by (simp add: queue_inv_def)
  moreover have "qhead q = 0" "qtail q = 0"
    using q(1) by (auto simp: mk_queue_def Let_def split: if_splits)
  ultimately show "spsc_inv s" by (simp add: spsc_inv_defs q spsc_start_def)
qed

lemma inv_push_write:
  assumes inv: "spsc_inv s" and pc: "producer s = PTail m h t"
    and room: "h - t \<noteq> capacity (ring s)"
    and q: "q = (ring s)\<lparr>qbuf := (qbuf (ring s))[slot (ring s) h := m]\<rparr>"
  shows "spsc_inv (s\<lparr>producer := PStored m h, ring := q\<rparr>)"
proof -
  let ?H = "length (pushed s)" and ?T = "length (popped s)" and ?n = "size_of s"
  have ix: "indices_ok s" and sl: "slots_ok s" and h: "h = of_nat ?H" "t = of_nat (seen_tail s)"
    using inv by (auto simp: spsc_inv_def pc)
  have sh: "queue_shape (ring s)" and shq: "queue_shape q"
    using ix queue_shape_cong[of q "ring s"] by (auto simp: indices_ok_def q)
  have room': "?H < seen_tail s + ?n"
    using room full_test_iff[OF ix] ix by (simp add: h indices_ok_def)
  have slot: "slot (ring s) h = ?H mod ?n" using sh by (simp add: h slot_of_nat size_of_def)
  have in_range: "?H mod ?n < length (qbuf (ring s))" using slot_in_range[OF sh, of h] slot by simp
  have other: "?H mod ?n \<noteq> i mod ?n" if "?T \<le> i" "i < ?H" for i
    using slots_differ[of i ?H ?n] that room' ix by (simp add: indices_ok_def eq_commute)
  from ix shq have "indices_ok (s\<lparr>producer := PStored m h, ring := q\<rparr>)"
    by (simp add: indices_ok_def size_of_def) (simp add: q)
  moreover from sl other have "slots_ok (s\<lparr>producer := PStored m h, ring := q\<rparr>)"
    by (simp add: slots_ok_def taken_def size_of_def q slot)
  moreover from inv have "consumer_ok (s\<lparr>producer := PStored m h, ring := q\<rparr>) (consumer s)"
    by (cases "consumer s") (auto simp: spsc_inv_def)
  ultimately show ?thesis
    using room' in_range by (simp add: spsc_inv_def h) (simp add: q slot size_of_def flip: h)
qed

lemma inv_pop_take:
  assumes inv: "spsc_inv s" and pc: "consumer s = CHead t h" and ne: "h \<noteq> t"
    and q: "q = (ring s)\<lparr>qbuf := (qbuf (ring s))[slot (ring s) t := junk]\<rparr>"
    and x: "x = qbuf (ring s) ! slot (ring s) t"
  shows "spsc_inv (s\<lparr>consumer := CTaken t x, ring := q\<rparr>)"
proof -
  let ?H = "length (pushed s)" and ?T = "length (popped s)" and ?n = "size_of s"
    and ?s' = "s\<lparr>consumer := CTaken t x, ring := q\<rparr>"
  have ix: "indices_ok s" and sl: "slots_ok s" and h: "t = of_nat ?T" "h = of_nat (seen_head s)"
    using inv by (auto simp: spsc_inv_def pc)
  have sh: "queue_shape (ring s)" and shq: "queue_shape q"
    using ix queue_shape_cong[of q "ring s"] by (auto simp: indices_ok_def q)
  have room: "?T < seen_head s" "?T < ?H" "?H \<le> ?T + ?n"
    using ne empty_test_iff[OF ix] ix by (auto simp: h indices_ok_def)
  have slot: "slot (ring s) t = ?T mod ?n" using sh by (simp add: h slot_of_nat size_of_def)
  have other: "?T mod ?n \<noteq> i mod ?n" if "?T < i" "i < ?T + ?n" for i
    using slots_differ[of ?T i ?n] that by simp
  from ix shq have "indices_ok ?s'"
    by (simp add: indices_ok_def size_of_def) (simp add: q)
  moreover from sl other room have "slots_ok ?s'"
    by (simp add: slots_ok_def taken_def size_of_def q slot)
  moreover have "producer_ok ?s' (producer s)"
    using inv other[of ?H] room(2) ix
    by (cases "producer s") (auto simp: spsc_inv_def indices_ok_def q slot size_of_def)
  moreover have "x = pushed s ! ?T"
    using sl room(2) pc by (simp add: slots_ok_def taken_def x slot)
  ultimately show ?thesis using room by (simp add: spsc_inv_def h)
qed

lemma inv_push_publish:
  assumes inv: "spsc_inv s" and pc: "producer s = PStored m h"
    and q: "q = (ring s)\<lparr>qhead := h + 1\<rparr>"
  shows "spsc_inv (s\<lparr>producer := PIdle, ring := q, pushed := pushed s @ [m]\<rparr>)"
proof -
  let ?H = "length (pushed s)" and ?s' = "s\<lparr>producer := PIdle, ring := q, pushed := pushed s @ [m]\<rparr>"
  have ix: "indices_ok s" and sl: "slots_ok s" and h: "h = of_nat ?H"
    and room: "?H < seen_tail s + size_of s"
    and m: "qbuf (ring s) ! (?H mod size_of s) = m"
    using inv by (auto simp: spsc_inv_def pc)
  have shq: "queue_shape q" using ix queue_shape_cong[of q "ring s"] by (simp add: indices_ok_def q)
  have "indices_ok ?s'" using ix shq room by (simp add: indices_ok_def size_of_def) (simp add: q h)
  moreover have "slots_ok ?s'"
    using sl m ix by (auto simp: slots_ok_def taken_def size_of_def q nth_append less_Suc_eq indices_ok_def)
  moreover have "consumer_ok ?s' (consumer s)"
    using inv ix by (cases "consumer s") (auto simp: spsc_inv_def indices_ok_def nth_append)
  ultimately show ?thesis by (simp add: spsc_inv_def)
qed

lemma inv_pop_publish:
  assumes inv: "spsc_inv s" and pc: "consumer s = CTaken t x"
    and q: "q = (ring s)\<lparr>qtail := t + 1\<rparr>"
  shows "spsc_inv (s\<lparr>consumer := CIdle, ring := q, popped := popped s @ [x]\<rparr>)"
proof -
  let ?T = "length (popped s)" and ?s' = "s\<lparr>consumer := CIdle, ring := q, popped := popped s @ [x]\<rparr>"
  have ix: "indices_ok s" and sl: "slots_ok s" and t: "t = of_nat ?T"
    and lt: "?T < seen_head s" and x: "x = pushed s ! ?T"
    using inv by (auto simp: spsc_inv_def pc)
  have shq: "queue_shape q" using ix queue_shape_cong[of q "ring s"] by (simp add: indices_ok_def q)
  have "indices_ok ?s'" using ix shq lt by (simp add: indices_ok_def size_of_def) (simp add: q t)
  moreover have "slots_ok ?s'"
    using sl lt ix x by (auto simp: slots_ok_def taken_def size_of_def q indices_ok_def take_Suc_conv_app_nth)
  moreover have "producer_ok ?s' (producer s)"
    using inv by (cases "producer s") (auto simp: spsc_inv_def size_of_def q)
  ultimately show ?thesis by (simp add: spsc_inv_def)
qed

text \<open>Steps that only move a program counter or advance a view.\<close>

lemma frame_simps [simp]:
  "slots_ok (s\<lparr>producer := p\<rparr>) = slots_ok s" "indices_ok (s\<lparr>producer := p\<rparr>) = indices_ok s"
  "consumer_ok (s\<lparr>producer := p\<rparr>) c = consumer_ok s c"
  "producer_ok (s\<lparr>producer := p\<rparr>) p' = producer_ok s p'"
  "indices_ok (s\<lparr>consumer := c'\<rparr>) = indices_ok s"
  "consumer_ok (s\<lparr>consumer := c'\<rparr>) c = consumer_ok s c"
  "producer_ok (s\<lparr>consumer := c'\<rparr>) p' = producer_ok s p'"
  "slots_ok (s\<lparr>seen_tail := n\<rparr>) = slots_ok s" "slots_ok (s\<lparr>seen_head := n\<rparr>) = slots_ok s"
  "consumer_ok (s\<lparr>seen_tail := n\<rparr>) c = consumer_ok s c"
  "producer_ok (s\<lparr>seen_head := n\<rparr>) p' = producer_ok s p'"
  by (cases c; cases p'; auto simp: slots_ok_def indices_ok_def taken_def size_of_def)+

lemma slots_ok_consumer:
  "\<not> taken s \<Longrightarrow> (\<And>t x. c \<noteq> CTaken t x) \<Longrightarrow> slots_ok (s\<lparr>consumer := c\<rparr>) = slots_ok s"
  by (cases c) (auto simp: slots_ok_def taken_def size_of_def)

lemma spsc_inv_kept: "spsc_step s t \<Longrightarrow> spsc_inv s \<Longrightarrow> spsc_inv t"
proof (induction rule: spsc_step.induct)
  case (push_load_head s m)
  then show ?case by (simp add: spsc_inv_def) (simp add: indices_ok_def)
next
  case (push_load_tail s m h n)
  then have "indices_ok (s\<lparr>producer := PTail m h (of_nat n), seen_tail := n\<rparr>)"
    by (auto simp: spsc_inv_def indices_ok_def size_of_def)
  with push_load_tail show ?case by (simp add: spsc_inv_def)
next
  case (push_full s m h t)
  then show ?case by (simp add: spsc_inv_def)
next
  case (push_write s m h t q)
  then show ?case by (blast intro: inv_push_write)
next
  case (push_publish s m h q)
  then show ?case by (blast intro: inv_push_publish)
next
  case (pop_load_tail s)
  then show ?case by (simp add: spsc_inv_def slots_ok_consumer taken_def) (simp add: indices_ok_def)
next
  case (pop_load_head s t n)
  then have "indices_ok (s\<lparr>consumer := CHead t (of_nat n), seen_head := n\<rparr>)"
    by (auto simp: spsc_inv_def indices_ok_def size_of_def)
  with pop_load_head show ?case by (simp add: spsc_inv_def slots_ok_consumer taken_def)
next
  case (pop_empty s t h)
  then show ?case by (simp add: spsc_inv_def slots_ok_consumer taken_def)
next
  case (pop_take s t h q junk x)
  then show ?case by (blast intro: inv_pop_take)
next
  case (pop_publish s t x q)
  then show ?case by (blast intro: inv_pop_publish)
qed

interpretation spsc: inductive_invariant spsc_init spsc_step spsc_inv
  by unfold_locales (auto intro: spsc_inv_start spsc_inv_kept)

lemma in_ring_split: "spsc_inv s \<Longrightarrow> popped s @ in_ring s = pushed s"
  unfolding spsc_inv_def slots_ok_def in_ring_def by (metis append_take_drop_id)

text \<open>Only the two publishing steps change the abstract queue.\<close>

lemma publish_enqueues:
  assumes "spsc_inv s" and "producer s = PStored m h"
  shows "in_ring (s\<lparr>producer := PIdle, ring := q, pushed := pushed s @ [m]\<rparr>) = in_ring s @ [m]"
    and "length (in_ring s) < size_of s"
  using assms by (auto simp: spsc_inv_def indices_ok_def in_ring_def)

lemma publish_dequeues:
  assumes "spsc_inv s" and "consumer s = CTaken t x"
  shows "in_ring s = x # in_ring (s\<lparr>consumer := CIdle, ring := q, popped := popped s @ [x]\<rparr>)"
  using assms Cons_nth_drop_Suc[of "length (popped s)" "pushed s"]
  by (simp add: spsc_inv_def indices_ok_def in_ring_def)

lemma step_simulates:
  assumes "spsc_step s s'" and inv: "spsc_inv s"
  shows "fifo_step (size_of s) (in_ring s) (in_ring s') \<and> size_of s' = size_of s"
  using assms(1)
proof (cases rule: spsc_step.cases)
  case (push_publish m h q)
  with publish_enqueues[OF inv push_publish(2)] show ?thesis
    by (simp add: fifo_enq size_of_def)
next
  case (pop_publish t x q)
  with publish_dequeues[OF inv pop_publish(2), of q] show ?thesis
    by (simp only:) (simp add: fifo_deq size_of_def)
qed (auto simp: in_ring_def size_of_def intro: fifo_stay)

subsection \<open>One message through the ring\<close>

lemma mk_queue_8:
  "mk_queue 8 = Inr \<lparr>qbuf = replicate 8 '''', qmask = 7, qhead = 0, qtail = 0\<rparr>"
  by (simp add: mk_queue_def next_pow2_def is_power_of_two_def)

definition example_ring :: "string \<Rightarrow> u64 \<Rightarrow> u64 \<Rightarrow> ingest_queue" where
  "example_ring m h t =
     \<lparr>qbuf = (replicate 8 '''')[0 := m], qmask = 7, qhead = h, qtail = t\<rparr>"

definition example_state ::
  "ingest_queue \<Rightarrow> producer_pc \<Rightarrow> consumer_pc \<Rightarrow> nat \<Rightarrow> string list \<Rightarrow> string list \<Rightarrow> spsc" where
  "example_state q p c n pu po = \<lparr>ring = q, producer = p, consumer = c,
     seen_tail = 0, seen_head = n, pushed = pu, popped = po\<rparr>"

lemma example_start: "reachable spsc_init spsc_step (example_state (example_ring '''' 0 0) PIdle CIdle 0 [] [])"
proof (rule reach_init)
  have "example_state (example_ring '''' 0 0) PIdle CIdle 0 [] [] =
      spsc_start \<lparr>qbuf = replicate 8 '''', qmask = 7, qhead = 0, qtail = 0\<rparr>"
    by (simp add: example_state_def example_ring_def spsc_start_def eval_nat_numeral)
  then show "spsc_init (example_state (example_ring '''' 0 0) PIdle CIdle 0 [] [])"
    unfolding spsc_init_def using mk_queue_8 by blast
qed

lemma example_push:
  "runs_to spsc_step (example_state (example_ring '''' 0 0) PIdle CIdle 0 [] [])
     (example_state (example_ring m 1 0) PIdle CIdle 0 [m] [])"
proof -
  let ?st = "\<lambda>q p. example_state q p CIdle 0 [] []"
  have "spsc_step (?st (example_ring '''' 0 0) PIdle) (?st (example_ring '''' 0 0) (PHead m 0))"
    using spsc_step.push_load_head[of "?st (example_ring '''' 0 0) PIdle" m]
    by (simp add: example_state_def example_ring_def)
  moreover have "spsc_step (?st (example_ring '''' 0 0) (PHead m 0)) (?st (example_ring '''' 0 0) (PTail m 0 0))"
    using spsc_step.push_load_tail[of "?st (example_ring '''' 0 0) (PHead m 0)" m 0 0]
    by (simp add: example_state_def example_ring_def)
  moreover have "spsc_step (?st (example_ring '''' 0 0) (PTail m 0 0)) (?st (example_ring m 0 0) (PStored m 0))"
    using spsc_step.push_write[of "?st (example_ring '''' 0 0) (PTail m 0 0)" m 0 0, OF _ _ refl]
    by (simp add: example_state_def example_ring_def capacity_def slot_def)
  moreover have "spsc_step (?st (example_ring m 0 0) (PStored m 0))
      (example_state (example_ring m 1 0) PIdle CIdle 0 [m] [])"
    using spsc_step.push_publish[of "?st (example_ring m 0 0) (PStored m 0)" m 0, OF _ refl]
    by (simp add: example_state_def example_ring_def)
  ultimately show ?thesis by (meson runs_refl runs_step)
qed

lemma example_take:
  "spsc_step (example_state (example_ring m 1 0) PIdle (CHead 0 1) 1 [m] [])
     (example_state (example_ring junk 1 0) PIdle (CTaken 0 m) 1 [m] [])"
  "spsc_step (example_state (example_ring junk 1 0) PIdle (CTaken 0 m) 1 [m] [])
     (example_state (example_ring junk 1 1) PIdle CIdle 1 [m] [m])"
  using spsc_step.pop_take[of "example_state (example_ring m 1 0) PIdle (CHead 0 1) 1 [m] []"
      0 1, OF _ _ refl refl, of junk]
    spsc_step.pop_publish[of "example_state (example_ring junk 1 0) PIdle (CTaken 0 m) 1 [m] []"
      0 m, OF _ refl]
  by (simp_all add: example_state_def example_ring_def slot_def)

lemma example_pop:
  "runs_to spsc_step (example_state (example_ring m 1 0) PIdle CIdle 0 [m] [])
     (example_state (example_ring m 1 0) PIdle (CHead 0 1) 1 [m] [])"
  "runs_to spsc_step (example_state (example_ring m 1 0) PIdle (CHead 0 1) 1 [m] [])
     (example_state (example_ring junk 1 1) PIdle CIdle 1 [m] [m])"
proof -
  let ?st = "\<lambda>c n. example_state (example_ring m 1 0) PIdle c n [m] []"
  have "spsc_step (?st CIdle 0) (?st (CTail 0) 0)"
    using spsc_step.pop_load_tail[of "?st CIdle 0"] by (simp add: example_state_def example_ring_def)
  moreover have "spsc_step (?st (CTail 0) 0) (?st (CHead 0 1) 1)"
    using spsc_step.pop_load_head[of "?st (CTail 0) 0" 0 1]
    by (simp add: example_state_def example_ring_def)
  ultimately show "runs_to spsc_step (?st CIdle 0) (?st (CHead 0 1) 1)"
    by (meson runs_refl runs_step)
  show "runs_to spsc_step (?st (CHead 0 1) 1)
      (example_state (example_ring junk 1 1) PIdle CIdle 1 [m] [m])"
    by (meson example_take runs_refl runs_step)
qed

lemma example_reachable:
  "reachable spsc_init spsc_step (example_state (example_ring m 1 0) PIdle CIdle 0 [m] [])"
  "reachable spsc_init spsc_step (example_state (example_ring m 1 0) PIdle (CHead 0 1) 1 [m] [])"
  "reachable spsc_init spsc_step (example_state (example_ring junk 1 1) PIdle CIdle 1 [m] [m])"
  using example_start example_push example_pop by (meson reachable_runs_to)+

subsection \<open>Properties\<close>

text \<open>
  C1. First in, first out under every interleaving and every permitted stale read: the
  messages the consumer has delivered are exactly the first messages the producer published,
  in their order, and the messages in flight never exceed the ring's capacity.
\<close>

theorem spsc_fifo:
  assumes "reachable spsc_init spsc_step s"
  shows "prefix (popped s) (pushed s)
    \<and> length (pushed s) \<le> length (popped s) + length (qbuf (ring s))"
proof -
  have inv: "spsc_inv s" using assms by (rule spsc.always)
  then have "popped s = take (length (popped s)) (pushed s)"
    by (simp add: spsc_inv_def slots_ok_def)
  then have "prefix (popped s) (pushed s)" by (metis take_is_prefix)
  with inv show ?thesis by (simp add: spsc_inv_def indices_ok_def size_of_def)
qed

theorem spsc_fifo_witness:
  "\<exists>s. reachable spsc_init spsc_step s \<and> pushed s = [''tick''] \<and> prefix (popped s) [''tick'']"
proof -
  let ?s = "example_state (example_ring ''tick'' 1 0) PIdle CIdle 0 [''tick''] []"
  have r: "reachable spsc_init spsc_step ?s" by (rule example_reachable)
  moreover have "prefix (popped ?s) (pushed ?s)" using spsc_fifo[OF r] by blast
  moreover have "pushed ?s = [''tick'']" by (simp add: example_state_def)
  ultimately show ?thesis by metis
qed

text \<open>
  C2. The two threads together behave as a bounded queue: what was delivered and what is in the
  ring is what was published; each step of either thread leaves the messages in the ring
  alone, appends one while there is room, or removes the first; a push
  gives up exactly when the ring is full by the last pop the producer has seen, and a pop
  exactly when everything the consumer has seen published is delivered.
\<close>

theorem spsc_simulates_fifo:
  assumes "reachable spsc_init spsc_step s" and "spsc_step s s'"
  shows "popped s @ in_ring s = pushed s
    \<and> fifo_step (size_of s) (in_ring s) (in_ring s') \<and> size_of s' = size_of s
    \<and> (\<forall>m h t. producer s = PTail m h t \<longrightarrow>
         (h - t = capacity (ring s) \<longleftrightarrow> length (pushed s) = seen_tail s + size_of s))
    \<and> (\<forall>t h. consumer s = CHead t h \<longrightarrow> (h = t \<longleftrightarrow> seen_head s = length (popped s)))"
  using step_simulates[OF assms(2) spsc.always[OF assms(1)]] spsc_tests[OF spsc.always[OF assms(1)]]
    in_ring_split[OF spsc.always[OF assms(1)]] by blast

theorem spsc_simulates_fifo_witness:
  "\<exists>s s'. reachable spsc_init spsc_step s \<and> spsc_step s s'
    \<and> in_ring s = [''tick''] \<and> in_ring s' = [] \<and> fifo_step (size_of s) [''tick''] []"
proof -
  let ?c = "example_state (example_ring ''tick'' 1 0) PIdle (CHead 0 1) 1 [''tick''] []"
    and ?s = "example_state (example_ring '''' 1 0) PIdle (CTaken 0 ''tick'') 1 [''tick''] []"
    and ?t = "example_state (example_ring '''' 1 1) PIdle CIdle 1 [''tick''] [''tick'']"
  have "spsc_step ?c ?s" by (rule example_take)
  then have r: "reachable spsc_init spsc_step ?s" using example_reachable(2) by (rule reach_step[rotated])
  have st: "spsc_step ?s ?t" by (rule example_take)
  have q: "in_ring ?s = [''tick'']" "in_ring ?t = []" by (simp_all add: in_ring_def example_state_def)
  have "fifo_step (size_of ?s) (in_ring ?s) (in_ring ?t)"
    using spsc_simulates_fifo[OF r st] by blast
  with r st q show ?thesis by metis
qed

text \<open>
  C29. No data race on the slots: whenever the producer is about to write a slot and the
  consumer is about to move one out, the two slots are different.
\<close>

theorem spsc_no_race:
  assumes "reachable spsc_init spsc_step s"
    and "producer s = PTail m h t" and "h - t \<noteq> capacity (ring s)"
    and "consumer s = CHead t' h'" and "h' \<noteq> t'"
  shows "slot (ring s) h \<noteq> slot (ring s) t'"
proof -
  let ?H = "length (pushed s)" and ?T = "length (popped s)"
  have inv: "spsc_inv s" using assms(1) by (rule spsc.always)
  then have ix: "indices_ok s" and eqs: "h = of_nat ?H" "t = of_nat (seen_tail s)"
      "t' = of_nat ?T" "h' = of_nat (seen_head s)"
    using assms(2,4) by (simp_all add: spsc_inv_def)
  have "?T < ?H" "?H < ?T + size_of s"
    using ix assms(3,5) full_test_iff[OF ix] empty_test_iff[OF ix]
    by (auto simp: eqs indices_ok_def)
  then have "?T mod size_of s \<noteq> ?H mod size_of s" by (rule slots_differ)
  then show ?thesis
    using indices_shape[OF ix] by (simp add: eqs slot_of_nat size_of_def)
qed

lemma example_both_ready:
  "reachable spsc_init spsc_step
     ((example_state (example_ring m 1 0) PIdle (CHead 0 1) 1 [m] [])\<lparr>producer := PTail m' 1 0\<rparr>)"
proof -
  let ?s = "example_state (example_ring m 1 0) PIdle (CHead 0 1) 1 [m] []"
  have "spsc_step ?s (?s\<lparr>producer := PHead m' 1\<rparr>)"
    using spsc_step.push_load_head[of ?s m'] by (simp add: example_state_def example_ring_def)
  moreover have "spsc_step (?s\<lparr>producer := PHead m' 1\<rparr>) (?s\<lparr>producer := PTail m' 1 0\<rparr>)"
    using spsc_step.push_load_tail[of "?s\<lparr>producer := PHead m' 1\<rparr>" m' 1 0]
    by (simp add: example_state_def)
  ultimately show ?thesis using example_reachable(2) by (meson reach_step)
qed

theorem spsc_no_race_witness:
  "\<exists>s. reachable spsc_init spsc_step s \<and> producer s = PTail ''b'' 1 0 \<and> consumer s = CHead 0 1
    \<and> slot (ring s) 1 \<noteq> slot (ring s) 0"
proof -
  let ?s = "(example_state (example_ring ''a'' 1 0) PIdle (CHead 0 1) 1 [''a''] [])
              \<lparr>producer := PTail ''b'' 1 0\<rparr>"
  have f: "producer ?s = PTail ''b'' 1 0" "consumer ?s = CHead 0 1" "1 - 0 \<noteq> capacity (ring ?s)"
    by (simp_all add: example_state_def example_ring_def capacity_def)
  have "slot (ring ?s) 1 \<noteq> slot (ring ?s) 0"
    by (rule spsc_no_race[OF example_both_ready f(1,3,2)]) simp
  then show ?thesis using example_both_ready f by blast
qed

text \<open>
  When no thread runs between its two loads, \<open>size()\<close> is the number of published messages
  that were not delivered, and at most the capacity, however often the indices have wrapped.
\<close>

lemma spsc_size_exact:
  assumes "reachable spsc_init spsc_step s"
  shows "unat (queue_size (ring s)) = length (pushed s) - length (popped s)
    \<and> unat (queue_size (ring s)) \<le> unat (capacity (ring s))"
proof -
  let ?d = "length (pushed s) - length (popped s)"
  have ix: "indices_ok s" using spsc.always[OF assms] by (simp add: spsc_inv_def)
  have le: "length (popped s) \<le> length (pushed s)" "?d \<le> length (qbuf (ring s))"
    using ix by (auto simp: indices_ok_def size_of_def)
  have n: "length (qbuf (ring s)) \<le> 2 ^ 63" by (rule queue_shape_bounds(2)[OF indices_shape[OF ix]])
  have "queue_size (ring s) = of_nat (length (pushed s)) - of_nat (length (popped s))"
    using ix by (simp add: queue_size_def size_across_def indices_ok_def)
  also have "\<dots> = of_nat ?d" using le(1) by (rule of_nat_diff_word)
  finally have "unat (queue_size (ring s)) = ?d"
    using le(2) n by (simp only:) (intro unat_of_nat_u64, simp)
  with le(2) show ?thesis by (simp add: unat_capacity[OF indices_shape[OF ix]])
qed

text \<open>
  A third thread that calls \<open>size()\<close> while both threads run can read \<open>2 ^ 64 - 1\<close> from a
  ring that never holds more than one message: one push and one pop between the load of
  \<open>head_\<close> and the load of \<open>tail_\<close> are enough, and the difference then wraps.
\<close>

lemma spsc_size_wraps:
  "\<exists>s s'. reachable spsc_init spsc_step s \<and> runs_to spsc_step s s'
    \<and> length (pushed s) = 0 \<and> length (pushed s') = 1
    \<and> unat (size_across (ring s) (ring s')) = 2 ^ 64 - 1"
proof -
  let ?s = "example_state (example_ring '''' 0 0) PIdle CIdle 0 [] []"
    and ?s' = "example_state (example_ring '''' 1 1) PIdle CIdle 1 [''a''] [''a'']"
  have "runs_to spsc_step ?s ?s'" using example_push example_pop by (meson runs_to_trans)
  moreover have "pushed ?s = []" "pushed ?s' = [''a'']" "size_across (ring ?s) (ring ?s') = -1"
    by (simp_all add: example_state_def example_ring_def size_across_def)
  moreover have "unat (-1 :: u64) = 2 ^ 64 - 1"
    by (simp add: unsigned_minus_1_eq_mask mask_eq_exp_minus_1)
  ultimately show ?thesis using example_start
    by (intro exI[of _ ?s] exI[of _ ?s']) simp
qed

end
