(* ===== verification/Json.thy ===== *)
theory Json
  imports Text
begin

text \<open>
  The data that crosses the boundary to \<open>nlohmann::json\<close>, and the library calls the program
  depends on. A JSON value is data with the library's documented kinds; reading text into a
  value (\<open>json::parse\<close>) and writing a value as text (\<open>dump\<close>) are not modelled: they are
  parameters, gathered in a record that every definition using them takes as an argument.
  Floating-point numbers are kept abstract (\<open>'d\<close>): the program only passes them on and
  converts them, and the three conversions it uses are parameters of the same record.
\<close>

subsection \<open>JSON values\<close>

text \<open>
  Integers keep the kind the library gives them: a parsed integer literal is
  \<open>number_unsigned\<close> when it is not negative and \<open>number_integer\<close> otherwise.
\<close>

datatype 'd json =
    JNull
  | JBool bool
  | JInt i64
  | JUInt u64
  | JFloat 'd
  | JString string
  | JArray "'d json list"
  | JObject "(string \<times> 'd json) list"

text \<open>
  \<open>parse_json\<close>: \<open>None\<close> when \<open>json::parse\<close> throws. \<open>dump_json\<close> may throw (text that is not
  UTF-8). \<open>stod\<close>: \<open>None\<close> when it throws. \<open>to_ll\<close>: \<open>None\<close> when the truncated value is not
  representable, where the conversion has undefined behaviour.
\<close>

record 'd runtime =
  parse_json :: "string \<Rightarrow> 'd json option"
  dump_json :: "'d json \<Rightarrow> string res"
  stod :: "string \<Rightarrow> 'd option"
  of_ll :: "i64 \<Rightarrow> 'd"
  to_ll :: "'d \<Rightarrow> i64 option"

subsection \<open>Access\<close>

text \<open>\<open>j.contains(k) ? j.at(k)\<close>: \<open>contains\<close> is false on everything but objects.\<close>

fun json_field :: "'d json \<Rightarrow> string \<Rightarrow> 'd json option" where
  "json_field (JObject kvs) k = map_of kvs k"
| "json_field _ k = None"

definition json_contains :: "'d json \<Rightarrow> string \<Rightarrow> bool" where
  "json_contains j k \<longleftrightarrow> json_field j k \<noteq> None"

fun is_object :: "'d json \<Rightarrow> bool" where
  "is_object (JObject kvs) = True"
| "is_object _ = False"

fun is_number_integer :: "'d json \<Rightarrow> bool" where
  "is_number_integer (JInt w) = True"
| "is_number_integer (JUInt w) = True"
| "is_number_integer _ = False"

text \<open>
  \<open>get<long long>()\<close> on an integer: both kinds keep their 64 bits, so an unsigned value of at
  least \<open>2 ^ 63\<close> comes out negative.
\<close>

fun get_ll :: "'d json \<Rightarrow> i64" where
  "get_ll (JInt w) = w"
| "get_ll (JUInt w) = w"
| "get_ll _ = 0"

text \<open>
  \<open>j.value(k, default)\<close> for a string default: the default when the key is missing; it throws
  when \<open>j\<close> is not an object or the value is not a string.
\<close>

fun json_value :: "'d json \<Rightarrow> string \<Rightarrow> string \<Rightarrow> string res" where
  "json_value (JObject kvs) k d =
     (case map_of kvs k of
        None \<Rightarrow> Inr d
      | Some (JString s) \<Rightarrow> Inr s
      | Some _ \<Rightarrow> Inl Json_exception)"
| "json_value _ k d = Inl Json_exception"

lemma json_contains_object [simp]: "json_contains (JObject kvs) k \<longleftrightarrow> map_of kvs k \<noteq> None"
  by (simp add: json_contains_def)

lemma json_value_Inr:
  "json_value (JObject kvs) k d = Inr s \<longleftrightarrow>
     map_of kvs k = Some (JString s) \<or> (map_of kvs k = None \<and> s = d)"
  by (auto split: option.splits json.splits)

text \<open>A library that writes every value as the empty text, for the examples that need one.\<close>

definition silent_runtime :: "int runtime" where
  "silent_runtime = \<lparr>parse_json = (\<lambda>s. None), dump_json = (\<lambda>v. Inr []), stod = (\<lambda>s. None),
     of_ll = sint, to_ll = (\<lambda>d. Some (of_int d))\<rparr>"

end
