(* ===== verification/Parser.thy ===== *)
theory Parser
  imports Json
begin

text \<open>
  \<open>Parser\<close> (\<open>include/parser.h\<close>, \<open>src/parser.cpp\<close>): one WebSocket frame to one last-traded-price
  record. A time point is its count of nanoseconds since the epoch in a 64-bit signed integer
  (the tick of \<open>std::chrono::system_clock\<close> in libstdc++).
\<close>

subsection \<open>Data\<close>

record 'd ltp_rec =
  token :: string
  ltp :: 'd
  ts :: i64

record parser =
  strip_prefix :: string

definition set_strip_prefix :: "string \<Rightarrow> parser \<Rightarrow> parser" where
  "set_strip_prefix p ps = ps\<lparr>strip_prefix := p\<rparr>"

subsection \<open>Reading a field under several names\<close>

text \<open>
  Each function tries the keys in order and skips a key whose value it cannot use. The
  conversion of one value is \<open>None\<close> when it cannot be used.
\<close>

fun string_of_value :: "'d runtime \<Rightarrow> 'd json \<Rightarrow> string option res" where
  "string_of_value rt (JString s) = Inr (Some s)"
| "string_of_value rt (JInt w) = bindE (dump_json rt (JInt w)) (\<lambda>s. Inr (Some s))"
| "string_of_value rt (JUInt w) = bindE (dump_json rt (JUInt w)) (\<lambda>s. Inr (Some s))"
| "string_of_value rt (JFloat d) = bindE (dump_json rt (JFloat d)) (\<lambda>s. Inr (Some s))"
| "string_of_value rt _ = Inr None"

fun number_of_value :: "'d runtime \<Rightarrow> 'd json \<Rightarrow> 'd option res" where
  "number_of_value rt (JFloat d) = Inr (Some d)"
| "number_of_value rt (JInt w) = Inr (Some (of_ll rt (get_ll (JInt w :: 'd json))))"
| "number_of_value rt (JUInt w) = Inr (Some (of_ll rt (get_ll (JUInt w :: 'd json))))"
| "number_of_value rt (JString s) = Inr (stod rt s)"
| "number_of_value rt _ = Inr None"

fun time_of_value :: "'d runtime \<Rightarrow> 'd json \<Rightarrow> i64 option res" where
  "time_of_value rt (JInt w) = Inr (Some (get_ll (JInt w :: 'd json)))"
| "time_of_value rt (JUInt w) = Inr (Some (get_ll (JUInt w :: 'd json)))"
| "time_of_value rt (JFloat d) =
     (case to_ll rt d of None \<Rightarrow> Inl Undefined_behaviour | Some w \<Rightarrow> Inr (Some w))"
| "time_of_value rt (JString s) = Inr (stoll s)"
| "time_of_value rt _ = Inr None"

fun first_usable :: "('d json \<Rightarrow> 'a option res) \<Rightarrow> 'd json \<Rightarrow> string list \<Rightarrow> 'a option res" where
  "first_usable conv j [] = Inr None"
| "first_usable conv j (k # ks) =
     (case json_field j k of
        None \<Rightarrow> first_usable conv j ks
      | Some v \<Rightarrow> bindE (conv v) (\<lambda>r. case r of
          None \<Rightarrow> first_usable conv j ks
        | Some x \<Rightarrow> Inr (Some x)))"

definition get_string_any :: "'d runtime \<Rightarrow> 'd json \<Rightarrow> string list \<Rightarrow> string option res" where
  "get_string_any rt = first_usable (string_of_value rt)"

definition get_number_any :: "'d runtime \<Rightarrow> 'd json \<Rightarrow> string list \<Rightarrow> 'd option res" where
  "get_number_any rt = first_usable (number_of_value rt)"

definition get_time_any :: "'d runtime \<Rightarrow> 'd json \<Rightarrow> string list \<Rightarrow> i64 option res" where
  "get_time_any rt = first_usable (time_of_value rt)"

subsection \<open>Time points\<close>

text \<open>
  Signed arithmetic: a product that is not a 64-bit value is undefined behaviour, and so is
  \<open>llabs\<close> of the least value.
\<close>

definition ticks :: "int \<Rightarrow> i64 res" where
  "ticks n = (if - (2 ^ 63) \<le> n \<and> n < 2 ^ 63 then Inr (of_int n) else Inl Undefined_behaviour)"

definition to_timepoint :: "i64 \<Rightarrow> i64 res" where
  "to_timepoint w =
     (let n = sint w in
      if n = - (2 ^ 63) then Inl Undefined_behaviour
      else if 1000000000000 \<le> \<bar>n\<bar> then ticks (n * 1000000)
      else ticks (n * 1000000000))"

subsection \<open>One frame\<close>

definition unwrap :: "'d json \<Rightarrow> 'd json" where
  "unwrap j =
     (let j1 = (case j of JArray (x # xs) \<Rightarrow> x | _ \<Rightarrow> j) in
      case json_field j1 ''data'' of
        None \<Rightarrow> j1
      | Some (JObject kvs) \<Rightarrow> JObject kvs
      | Some (JArray (x # xs)) \<Rightarrow> x
      | Some _ \<Rightarrow> j1)"

definition TOKEN_KEYS :: "string list" where
  "TOKEN_KEYS = [''token'', ''symbol'', ''tradingsymbol'', ''instrument_token'', ''tokenID'']"

definition PRICE_KEYS :: "string list" where
  "PRICE_KEYS = [''ltp'', ''last_price'', ''lastPrice'', ''price'', ''trade_price'']"

definition TS_KEYS :: "string list" where
  "TS_KEYS = [''exchange_timestamp'', ''timestamp'', ''ts'', ''time'', ''epoch'']"

definition strip :: "string \<Rightarrow> string \<Rightarrow> string" where
  "strip p t = (if p \<noteq> [] \<and> starts_with p t then drop (length p) t else t)"

definition ltp_of_json :: "'d runtime \<Rightarrow> parser \<Rightarrow> 'd json \<Rightarrow> 'd ltp_rec option res" where
  "ltp_of_json rt ps j0 =
     (let j = unwrap j0 in
      bindE (get_string_any rt j TOKEN_KEYS) (\<lambda>tok. case tok of None \<Rightarrow> Inr None | Some t \<Rightarrow>
      bindE (get_number_any rt j PRICE_KEYS) (\<lambda>pr. case pr of None \<Rightarrow> Inr None | Some p \<Rightarrow>
      bindE (get_time_any rt j TS_KEYS) (\<lambda>tm.
      bindE (case tm of None \<Rightarrow> Inr 0 | Some w \<Rightarrow> to_timepoint w) (\<lambda>tp.
      Inr (Some \<lparr>token = strip (strip_prefix ps) t, ltp = p, ts = tp\<rparr>))))))"

definition parse_ltp :: "'d runtime \<Rightarrow> parser \<Rightarrow> string \<Rightarrow> 'd ltp_rec option res" where
  "parse_ltp rt ps text =
     (case parse_json rt text of None \<Rightarrow> Inr None | Some j \<Rightarrow> ltp_of_json rt ps j)"

subsection \<open>Lemmas\<close>

definition unusable :: "('d json \<Rightarrow> 'a option res) \<Rightarrow> 'd json \<Rightarrow> string \<Rightarrow> bool" where
  "unusable conv j k \<longleftrightarrow>
     (case json_field j k of None \<Rightarrow> True | Some v \<Rightarrow> conv v = Inr None)"

lemma first_usable_Some_iff:
  "first_usable conv j ks = Inr (Some x) \<longleftrightarrow>
     (\<exists>ks1 k ks2 v. ks = ks1 @ k # ks2 \<and> json_field j k = Some v \<and> conv v = Inr (Some x)
        \<and> (\<forall>k' \<in> set ks1. unusable conv j k'))" (is "_ \<longleftrightarrow> ?R ks")
proof (induction ks)
  case Nil
  then show ?case by simp
next
  case (Cons k ks)
  have split: "?R (k # ks) \<longleftrightarrow> (\<exists>v. json_field j k = Some v \<and> conv v = Inr (Some x))
      \<or> (unusable conv j k \<and> ?R ks)"
    (is "_ \<longleftrightarrow> ?A \<or> ?B")
  proof
    assume "?R (k # ks)"
    then obtain ks1 k1 ks2 v where
      "k # ks = ks1 @ k1 # ks2" "json_field j k1 = Some v" "conv v = Inr (Some x)"
      "\<forall>k' \<in> set ks1. unusable conv j k'" by blast
    then show "?A \<or> ?B" by (cases ks1) force+
  next
    assume "?A \<or> ?B"
    then show "?R (k # ks)"
    proof
      assume ?A
      then show ?thesis by - (rule exI[of _ "[]"], rule exI[of _ k], rule exI[of _ ks], auto)
    next
      assume ?B
      then obtain ks1 k1 ks2 v where
        "ks = ks1 @ k1 # ks2" "json_field j k1 = Some v" "conv v = Inr (Some x)"
        "\<forall>k' \<in> set (k # ks1). unusable conv j k'" by auto
      then show ?thesis
        by - (rule exI[of _ "k # ks1"], rule exI[of _ k1], rule exI[of _ ks2], auto)
    qed
  qed
  show ?case
    unfolding split using Cons.IH
    by (auto simp: unusable_def bindE_def split: option.splits sum.splits)
qed

lemma first_usable_None_iff:
  "first_usable conv j ks = Inr None \<longleftrightarrow> (\<forall>k \<in> set ks. unusable conv j k)"
  by (induction ks) (auto simp: unusable_def bindE_def split: option.splits sum.splits)

lemma first_usable_cong:
  "(\<And>k. k \<in> set ks \<Longrightarrow> json_field j k = json_field j' k) \<Longrightarrow>
    first_usable conv j ks = first_usable conv j' ks"
  by (induction ks) (auto split: option.split)

lemma first_usable_returns:
  "(\<And>v. \<exists>r. conv v = Inr r) \<Longrightarrow> \<exists>r. first_usable conv j ks = Inr r"
proof (induction ks)
  case (Cons k ks)
  then show ?case
  proof (cases "json_field j k")
    case (Some v)
    obtain r where "conv v = Inr r" using Cons.prems by blast
    with Some Cons show ?thesis by (cases r) auto
  qed auto
qed simp

lemma first_usable_Inl:
  "first_usable conv j ks = Inl e \<Longrightarrow> \<exists>v. conv v = Inl e"
  by (induction ks) (auto simp: bindE_def split: option.splits sum.splits)

lemma ticks_iff: "ticks n = Inr t \<longleftrightarrow> - (2 ^ 63) \<le> n \<and> n < 2 ^ 63 \<and> t = of_int n"
  by (auto simp: ticks_def)

lemma strip_prefixed: "strip p (p @ t) = t"
  by (simp add: strip_def)

lemma strip_cases: "strip p t = t \<or> t = p @ strip p t"
  by (auto simp: strip_def starts_with_iff)

lemma to_timepoint_eq:
  "to_timepoint w =
     (if \<bar>sint w\<bar> \<le> 9223372036 then Inr (of_int (sint w * 10 ^ 9))
      else if 10 ^ 12 \<le> \<bar>sint w\<bar> \<and> \<bar>sint w\<bar> \<le> 9223372036854 then Inr (of_int (sint w * 10 ^ 6))
      else Inl Undefined_behaviour)"
proof -
  have "- (2 ^ 63) \<le> sint w" "sint w < 2 ^ 63" by (rule sint_i64_range)+
  then show ?thesis by (auto simp: to_timepoint_def ticks_def Let_def)
qed

subsection \<open>Properties\<close>

text \<open>
  C24. Where \<open>to_timepoint\<close> has a defined result it is the exact number of nanoseconds of the
  argument read as milliseconds from \<open>10 ^ 12\<close> in absolute value on and as seconds below.
  Exactly the arguments with 9223372036 < |w| < \<open>10 ^ 12\<close> and those above 9223372036854 overflow
  the signed 64-bit count; the latter contain every present-day timestamp in microseconds.
\<close>

theorem to_timepoint_exact:
  "case to_timepoint w of
     Inl e \<Rightarrow> e = Undefined_behaviour
       \<and> (9223372036 < \<bar>sint w\<bar> \<and> \<bar>sint w\<bar> < 10 ^ 12 \<or> 9223372036854 < \<bar>sint w\<bar>)
   | Inr t \<Rightarrow> sint t = sint w * (if 10 ^ 12 \<le> \<bar>sint w\<bar> then 10 ^ 6 else 10 ^ 9)
       \<and> (\<bar>sint w\<bar> \<le> 9223372036 \<or> 10 ^ 12 \<le> \<bar>sint w\<bar> \<and> \<bar>sint w\<bar> \<le> 9223372036854)"
proof -
  consider (sec) "\<bar>sint w\<bar> \<le> 9223372036" | (ms) "10 ^ 12 \<le> \<bar>sint w\<bar>" "\<bar>sint w\<bar> \<le> 9223372036854"
    | (over) "9223372036 < \<bar>sint w\<bar> \<and> \<bar>sint w\<bar> < 10 ^ 12 \<or> 9223372036854 < \<bar>sint w\<bar>" by linarith
  then show ?thesis
  proof cases
    case sec
    then have "sint (of_int (sint w * 10 ^ 9) :: i64) = sint w * 10 ^ 9"
      by (intro sint_of_int_i64) auto
    then show ?thesis using sec by (auto simp: to_timepoint_eq)
  next
    case ms
    then have "sint (of_int (sint w * 10 ^ 6) :: i64) = sint w * 10 ^ 6"
      by (intro sint_of_int_i64) auto
    then show ?thesis using ms by (auto simp: to_timepoint_eq)
  next
    case over
    then show ?thesis by (auto simp: to_timepoint_eq)
  qed
qed

text \<open>
  The two units agree: a time in seconds and the same time in milliseconds give the same
  time point, for every time whose millisecond count is large enough to be recognised as such
  and whose nanosecond count is representable.
\<close>

lemma to_timepoint_units_agree:
  assumes "10 ^ 9 \<le> \<bar>s\<bar>" and "\<bar>s\<bar> \<le> 9223372036"
  shows "to_timepoint (of_int (1000 * s)) = to_timepoint (of_int s)
    \<and> (\<exists>t. to_timepoint (of_int s) = Inr t \<and> sint t = s * 10 ^ 9)"
proof -
  have s: "sint (of_int s :: i64) = s" "sint (of_int (1000 * s) :: i64) = 1000 * s"
    using assms by (auto intro!: sint_of_int_i64 simp del: of_int_mult)
  have t: "sint (of_int (s * 10 ^ 9) :: i64) = s * 10 ^ 9"
    using assms by (intro sint_of_int_i64) auto
  have "to_timepoint (of_int s) = Inr (of_int (s * 10 ^ 9))"
    using assms by (simp add: to_timepoint_eq s(1) del: of_int_mult)
  moreover have "to_timepoint (of_int (1000 * s)) = Inr (of_int (1000 * s * 10 ^ 6))"
  proof -
    have "10 ^ 12 \<le> \<bar>1000 * s\<bar>" "\<bar>1000 * s\<bar> \<le> 9223372036854" "\<not> \<bar>1000 * s\<bar> \<le> 9223372036"
      using assms by (simp_all add: abs_mult)
    then show ?thesis unfolding to_timepoint_eq s(2) by (simp only: if_False if_True simp_thms)
  qed
  moreover have "1000 * s * 10 ^ 6 = s * 10 ^ 9" by simp
  ultimately show ?thesis using t by metis
qed

text \<open>
  Only the listed fields matter: two frame objects that agree on the token, price,
  timestamp and \<open>data\<close> keys parse alike, whatever else they carry and in whatever order.
\<close>

lemma parser_relevant_fields:
  assumes "\<And>k. k \<in> set (''data'' # TOKEN_KEYS @ PRICE_KEYS @ TS_KEYS) \<Longrightarrow> map_of kvs k = map_of kvs' k"
  shows "ltp_of_json rt ps (JObject kvs) = ltp_of_json rt ps (JObject kvs')"
proof -
  have data: "map_of kvs ''data'' = map_of kvs' ''data''" using assms by simp

  have same: "unwrap (JObject kvs') = unwrap (JObject kvs)
      \<or> unwrap (JObject kvs) = JObject kvs \<and> unwrap (JObject kvs') = JObject kvs'"
    by (auto simp: unwrap_def Let_def data split: option.splits json.splits list.splits)
  have "ltp_of_json rt ps (JObject kvs) = ltp_of_json rt ps (JObject kvs')"
    if u: "unwrap (JObject kvs) = JObject kvs" "unwrap (JObject kvs') = JObject kvs'"
  proof -
    have "get_string_any rt (JObject kvs) TOKEN_KEYS = get_string_any rt (JObject kvs') TOKEN_KEYS"
      "get_number_any rt (JObject kvs) PRICE_KEYS = get_number_any rt (JObject kvs') PRICE_KEYS"
      "get_time_any rt (JObject kvs) TS_KEYS = get_time_any rt (JObject kvs') TS_KEYS"
      unfolding get_string_any_def get_number_any_def get_time_any_def
      by (intro first_usable_cong; use assms in auto)+
    then show ?thesis by (simp add: ltp_of_json_def u Let_def)
  qed
  moreover have "ltp_of_json rt ps (JObject kvs) = ltp_of_json rt ps (JObject kvs')"
    if u: "unwrap (JObject kvs') = unwrap (JObject kvs)"
    unfolding ltp_of_json_def u ..
  ultimately show ?thesis using same by blast
qed

text \<open>
  C23. The wrappers the feeds use are transparent: an object without a \<open>data\<close> key gives the
  same result bare, as the first element of an array, under \<open>data\<close>, as the first element of
  an array under \<open>data\<close>, and with both wrappers around it.
\<close>

theorem parser_wrapping:
  assumes "map_of kvs ''data'' = None" and "map_of outer ''data'' = Some d"
    and "d = JObject kvs \<or> d = JArray (JObject kvs # rest)"
  shows "ltp_of_json rt ps (JArray (JObject kvs # rest')) = ltp_of_json rt ps (JObject kvs)
    \<and> ltp_of_json rt ps (JObject outer) = ltp_of_json rt ps (JObject kvs)
    \<and> ltp_of_json rt ps (JArray (JObject outer # rest')) = ltp_of_json rt ps (JObject kvs)"
proof -
  have "unwrap (JArray (JObject kvs # rest')) = JObject kvs" "unwrap (JObject kvs) = JObject kvs"
    "unwrap (JObject outer) = JObject kvs" "unwrap (JArray (JObject outer # rest')) = JObject kvs"
    using assms by (auto simp: unwrap_def Let_def)
  then show ?thesis by (simp add: ltp_of_json_def)
qed

theorem parser_wrapping_witness:
  "\<forall>rt ps. ltp_of_json rt ps (JObject [(''data'', JObject [(''token'', JString ''1'')])])
    = ltp_of_json rt ps (JObject [(''token'', JString ''1'')])"
  by (intro allI, rule parser_wrapping[of "[(''token'', JString ''1'')]" _ "JObject [(''token'', JString ''1'')]"
        "[]", THEN conjunct2, THEN conjunct1]) simp_all

text \<open>
  A frame is rejected, and nothing is thrown, when its text is not JSON, when no token
  key holds a string or a number, or when a token is found but no price key holds a usable
  price.
\<close>

lemma parser_rejects:
  assumes "parse_json rt text = None
    \<or> (\<exists>j. parse_json rt text = Some j
        \<and> ((\<forall>k \<in> set TOKEN_KEYS. unusable (string_of_value rt) (unwrap j) k)
           \<or> (\<exists>t. get_string_any rt (unwrap j) TOKEN_KEYS = Inr (Some t)
                \<and> (\<forall>k \<in> set PRICE_KEYS. unusable (number_of_value rt) (unwrap j) k))))"
  shows "parse_ltp rt ps text = Inr None"
  using assms
  by (auto simp: parse_ltp_def ltp_of_json_def get_string_any_def get_number_any_def
      first_usable_None_iff[symmetric] Let_def)

definition sample_runtime :: "int json \<Rightarrow> int runtime" where
  "sample_runtime j = \<lparr>parse_json = (\<lambda>s. if s = '''' then None else Some j),
     dump_json = (\<lambda>v. Inr ''0''), stod = (\<lambda>s. None), of_ll = sint, to_ll = (\<lambda>d. Some (of_int d))\<rparr>"

text \<open>
  An accepted frame carries the value of the first listed token key that holds a string
  or a number, with the configured prefix removed, and the first usable price; keys listed
  earlier were missing or unusable.
\<close>

lemma parser_first_keys:
  assumes "parse_ltp rt ps text = Inr (Some r)"
  shows "\<exists>j. parse_json rt text = Some j
    \<and> (\<exists>ks1 k ks2 v t. TOKEN_KEYS = ks1 @ k # ks2 \<and> json_field (unwrap j) k = Some v
        \<and> string_of_value rt v = Inr (Some t) \<and> token r = strip (strip_prefix ps) t
        \<and> (\<forall>k' \<in> set ks1. unusable (string_of_value rt) (unwrap j) k'))
    \<and> (\<exists>ks1 k ks2 v. PRICE_KEYS = ks1 @ k # ks2 \<and> json_field (unwrap j) k = Some v
        \<and> number_of_value rt v = Inr (Some (ltp r))
        \<and> (\<forall>k' \<in> set ks1. unusable (number_of_value rt) (unwrap j) k'))"
proof -
  obtain j t where j: "parse_json rt text = Some j"
    and t: "get_string_any rt (unwrap j) TOKEN_KEYS = Inr (Some t)"
    and p: "get_number_any rt (unwrap j) PRICE_KEYS = Inr (Some (ltp r))"
    and r: "token r = strip (strip_prefix ps) t"
    using assms
    by (auto simp: parse_ltp_def ltp_of_json_def Let_def bindE_Inr_iff split: option.splits)
  from t[unfolded get_string_any_def first_usable_Some_iff]
    p[unfolded get_number_any_def first_usable_Some_iff] j r
  show ?thesis by blast
qed

definition sample_frame :: "int json" where
  "sample_frame = JObject [(''data'', JObject [(''symbol'', JString ''nse_cm|26000''),
     (''ltp'', JUInt 101), (''exchange_timestamp'', JUInt 1728123456789)])]"

lemmas parse_eval = parse_ltp_def ltp_of_json_def sample_runtime_def unwrap_def
  get_string_any_def get_number_any_def get_time_any_def TOKEN_KEYS_def PRICE_KEYS_def
  TS_KEYS_def to_timepoint_def ticks_def strip_def starts_with_def

lemma sample_parse:
  "parse_ltp (sample_runtime sample_frame) \<lparr>strip_prefix = ''nse_cm|''\<rparr> ''frame'' =
     Inr (Some \<lparr>token = ''26000'', ltp = 101, ts = 1728123456789000000\<rparr>)"
  by (simp add: parse_eval sample_frame_def)

lemma parser_first_keys_witness:
  "\<exists>j. parse_json (sample_runtime sample_frame) ''frame'' = Some j
    \<and> (\<exists>ks1 k ks2 v t. TOKEN_KEYS = ks1 @ k # ks2 \<and> json_field (unwrap j) k = Some v
        \<and> string_of_value (sample_runtime sample_frame) v = Inr (Some t)
        \<and> ''26000'' = strip ''nse_cm|'' t)"
proof -
  from parser_first_keys[OF sample_parse] obtain j ks1 k ks2 v t where
    "parse_json (sample_runtime sample_frame) ''frame'' = Some j" "TOKEN_KEYS = ks1 @ k # ks2"
    "json_field (unwrap j) k = Some v" "string_of_value (sample_runtime sample_frame) v = Inr (Some t)"
    "''26000'' = strip ''nse_cm|'' t"
    by (metis (no_types, lifting) ltp_rec.select_convs(1) parser.select_convs(1))
  then show ?thesis by blast
qed

text \<open>
  C22. The parser throws nothing: when the library can write numbers as text, the only way
  \<open>parse_ltp\<close> does not return is a timestamp whose conversion is undefined (a floating-point
  number outside \<open>long long\<close>, or a count that \<open>to_timepoint\<close> cannot represent).
\<close>

theorem parser_total:
  assumes "\<And>w. \<exists>s. dump_json rt (JInt w) = Inr s" and "\<And>w. \<exists>s. dump_json rt (JUInt w) = Inr s"
    and "\<And>d. \<exists>s. dump_json rt (JFloat d) = Inr s" and "parse_ltp rt ps text = Inl e"
  shows "e = Undefined_behaviour \<and> (\<exists>j. parse_json rt text = Some j
    \<and> (get_time_any rt (unwrap j) TS_KEYS = Inl Undefined_behaviour
       \<or> (\<exists>w. get_time_any rt (unwrap j) TS_KEYS = Inr (Some w)
            \<and> to_timepoint w = Inl Undefined_behaviour)))"
proof -
  obtain j where j: "parse_json rt text = Some j" and e: "ltp_of_json rt ps j = Inl e"
    using assms(4) by (auto simp: parse_ltp_def split: option.splits)
  have "\<exists>x. string_of_value rt v = Inr x" for v
  proof (cases v)
    case (JInt w)
    with assms(1)[of w] show ?thesis by auto
  next
    case (JUInt w)
    with assms(2)[of w] show ?thesis by auto
  next
    case (JFloat w)
    with assms(3)[of w] show ?thesis by auto
  qed auto
  then obtain t where t: "get_string_any rt (unwrap j) TOKEN_KEYS = Inr t"
    unfolding get_string_any_def using first_usable_returns by blast
  have "\<exists>x. number_of_value rt v = Inr x" for v by (cases v) auto
  then obtain p where p: "get_number_any rt (unwrap j) PRICE_KEYS = Inr p"
    unfolding get_number_any_def using first_usable_returns by blast
  have tv: "time_of_value rt v = Inl e' \<Longrightarrow> e' = Undefined_behaviour" for v e'
    by (cases v) (auto split: option.splits)
  have time: "get_time_any rt (unwrap j) TS_KEYS = Inl e' \<Longrightarrow> e' = Undefined_behaviour" for e'
    unfolding get_time_any_def using first_usable_Inl tv by blast
  have tp: "to_timepoint w = Inl e' \<Longrightarrow> e' = Undefined_behaviour" for w e'
    by (auto simp: to_timepoint_eq split: if_splits)
  from e t p time tp j show ?thesis
    by (auto simp: ltp_of_json_def Let_def bindE_def split: option.splits sum.splits)
qed

definition late_frame :: "int json" where
  "late_frame = JObject [(''token'', JString ''26000''), (''ltp'', JUInt 101),
     (''timestamp'', JUInt 1728123456789000)]"

theorem parser_total_witness:
  "\<exists>j. parse_json (sample_runtime late_frame) ''frame'' = Some j
    \<and> (\<exists>w. get_time_any (sample_runtime late_frame) (unwrap j) TS_KEYS = Inr (Some w)
        \<and> to_timepoint w = Inl Undefined_behaviour)"
proof -
  have f: "parse_ltp (sample_runtime late_frame) \<lparr>strip_prefix = ''''\<rparr> ''frame''
      = Inl Undefined_behaviour"
    by (simp add: parse_eval late_frame_def)
  have "get_time_any (sample_runtime late_frame) (unwrap late_frame) TS_KEYS
      \<noteq> Inl Undefined_behaviour"
    by (simp add: late_frame_def unwrap_def get_time_any_def TS_KEYS_def)
  then show ?thesis
    using parser_total[OF _ _ _ f] by (auto simp: sample_runtime_def)
qed

text \<open>
  Stripping undoes the token formatter of the subscriptions: with the same prefix on both
  sides the stored token is the raw one, and a token without the prefix is kept as it is.
\<close>

lemma strip_roundtrip:
  "strip p (p @ t) = t \<and> (strip p s = s \<longleftrightarrow> p = [] \<or> \<not> starts_with p s)"
proof -
  have "strip p s \<noteq> s" if "p \<noteq> []" "starts_with p s"
    using that strip_prefixed[of p] by (auto simp: starts_with_iff)
  then show ?thesis by (auto simp: strip_prefixed) (auto simp: strip_def)
qed

end
