(* ===== verification/Ltp_Store.thy ===== *)
theory Ltp_Store
  imports Parser
begin

text \<open>
  \<open>LTPStore\<close> (\<open>include/ltp_store.h\<close>, \<open>src/ltp_store.cpp\<close>): the last record of each token.
  Every operation holds the store's mutex from its first to its last access, so it is one
  atomic step. The contract \<open>kv_store\<close> is what the consumer relies on.
\<close>

subsection \<open>The store\<close>

type_synonym 'd ltp_store = "string \<rightharpoonup> 'd ltp_rec"

definition upsert :: "'d ltp_rec \<Rightarrow> 'd ltp_store \<Rightarrow> 'd ltp_store" where
  "upsert v m = m(token v \<mapsto> v)"

definition store_get :: "'d ltp_store \<Rightarrow> string \<Rightarrow> 'd ltp_rec option" where
  "store_get m t = (case m t of None \<Rightarrow> None | Some v \<Rightarrow> Some v)"

definition snapshot :: "'d ltp_store \<Rightarrow> 'd ltp_store" where
  "snapshot m = m"

definition store_size :: "'d ltp_store \<Rightarrow> nat" where
  "store_size m = card (dom m)"

subsection \<open>The contract\<close>

locale kv_store =
  fixes put :: "'v \<Rightarrow> 's \<Rightarrow> 's"
    and get :: "'s \<Rightarrow> 'k \<Rightarrow> 'v option"
    and key :: "'v \<Rightarrow> 'k"
  assumes get_put: "get (put v s) k = (if k = key v then Some v else get s k)"
begin

text \<open>Last write wins.\<close>

lemma get_fold_put:
  "get (fold put vs s) k =
     (case find (\<lambda>v. key v = k) (rev vs) of None \<Rightarrow> get s k | Some v \<Rightarrow> Some v)"
proof (induction vs rule: rev_induct)
  case (snoc v vs)
  then show ?case by (auto simp: get_put)
qed simp

lemma get_fold_put_other:
  "k \<notin> key ` set vs \<Longrightarrow> get (fold put vs s) k = get s k"
  by (induction vs arbitrary: s) (auto simp: get_put)

lemma get_fold_put_Some:
  "get (fold put vs s) k = Some v \<Longrightarrow> v \<in> set vs \<and> key v = k \<or> get s k = Some v"
  by (auto simp: get_fold_put find_Some_iff split: option.splits)
     (metis nth_mem set_rev length_rev)+

end

locale sized_kv_store = kv_store +
  fixes count :: "'s \<Rightarrow> nat"
    and empty :: "'s"
    and ok :: "'s \<Rightarrow> bool"
  assumes get_empty: "get empty k = None" and count_empty: "count empty = 0" and ok_empty: "ok empty"
    and ok_put: "ok s \<Longrightarrow> ok (put v s)"
    and count_put: "ok s \<Longrightarrow> count (put v s) = (if get s (key v) = None then Suc (count s) else count s)"
begin

lemma ok_fold_put: "ok s \<Longrightarrow> ok (fold put vs s)"
  by (induction vs arbitrary: s) (auto intro: ok_put)

lemma get_fold_put_None: "get (fold put vs empty) k = None \<longleftrightarrow> k \<notin> key ` set vs"
proof -
  have "find (\<lambda>v. key v = k) (rev vs) = None \<longleftrightarrow> k \<notin> key ` set vs"
    by (auto simp: find_None_iff)
  then show ?thesis by (auto simp: get_fold_put get_empty split: option.splits)
qed

lemma count_fold_put: "count (fold put vs empty) = card (key ` set vs)"
proof (induction vs rule: rev_induct)
  case (snoc v vs)
  have "count (fold put (vs @ [v]) empty) =
      (if key v \<notin> key ` set vs then Suc (card (key ` set vs)) else card (key ` set vs))"
    using snoc by (simp add: count_put ok_fold_put ok_empty get_fold_put_None)
  then show ?case by (simp add: insert_absorb)
qed (simp add: count_empty)

end

interpretation quotes: sized_kv_store upsert store_get token store_size Map.empty "\<lambda>m. finite (dom m)"
proof unfold_locales
  fix v :: "'a ltp_rec" and m :: "'a ltp_store"
  assume "finite (dom m)"
  then show "store_size (upsert v m) = (if store_get m (token v) = None then Suc (store_size m) else store_size m)"
    by (auto simp: store_size_def upsert_def store_get_def card_insert_if domIff split: option.splits)
qed (auto simp: upsert_def store_get_def store_size_def split: option.split)

lemma store_get_fold:
  "store_get (fold upsert vs Map.empty) t = find (\<lambda>v. token v = t) (rev vs)"
  using quotes.get_fold_put[of vs Map.empty t] by (simp add: quotes.get_empty split: option.splits)

subsection \<open>Properties\<close>

text \<open>
  Last write wins: after any sequence of updates on an empty store, a lookup gives the
  last record written for that token and nothing for other tokens, and \<open>size()\<close> is the
  number of different tokens written.
\<close>

lemma store_last_write_wins:
  "store_get (fold upsert vs Map.empty) t = find (\<lambda>v. token v = t) (rev vs)
    \<and> store_size (fold upsert vs Map.empty) = card (token ` set vs)
    \<and> snapshot (fold upsert vs Map.empty) t = store_get (fold upsert vs Map.empty) t"
  using store_get_fold[of vs t] quotes.count_fold_put[of vs]
  by (simp add: snapshot_def store_get_def[of "fold upsert vs Map.empty"] split: option.splits)

end
