(* ===== verification/Consumer.thy ===== *)
theory Consumer
  imports Ingest_Queue Ltp_Store Transition
begin

text \<open>
  \<open>Consumer\<close> (\<open>include/consumer.h\<close>, \<open>src/consumer.cpp\<close>): the thread that takes frames from the
  queue, parses them and writes the store, and its life cycle. The class works on references
  it is given, so the loop body takes the queue's, the parser's and the store's operations as
  arguments; theory-level facts are proved from their contracts and then instantiated.
\<close>

subsection \<open>The loop\<close>

record ('q, 's, 'v) consumer_state =
  cq :: 'q
  cstore :: 's
  sunk :: "'v list"          \<comment> \<open>what the sink was called with, in order\<close>

text \<open>
  One iteration of \<open>run()\<close>. A throwing parser ends the program, because nothing catches the
  exception in the thread.
\<close>

definition consumer_iter ::
  "('m \<Rightarrow> 'q \<Rightarrow> 'm option \<times> 'q) \<Rightarrow> ('m \<Rightarrow> 'v option res) \<Rightarrow> ('v \<Rightarrow> 's \<Rightarrow> 's) \<Rightarrow> bool \<Rightarrow> 'm
     \<Rightarrow> ('q, 's, 'v) consumer_state \<Rightarrow> ('q, 's, 'v) consumer_state res" where
  "consumer_iter pop parse put has_sink junk c =
     (case pop junk (cq c) of
        (None, q) \<Rightarrow> Inr (c\<lparr>cq := q\<rparr>)
      | (Some m, q) \<Rightarrow>
          (case parse m of
             Inl e \<Rightarrow> Inl (if e = Undefined_behaviour then e else Terminated)
           | Inr None \<Rightarrow> Inr (c\<lparr>cq := q\<rparr>)
           | Inr (Some v) \<Rightarrow>
               Inr (c\<lparr>cq := q, cstore := put v (cstore c),
                      sunk := (if has_sink then sunk c @ [v] else sunk c)\<rparr>)))"

text \<open>
  The loop runs once for each time \<open>running_\<close> is read as true; the list gives one moved-from
  string per iteration.
\<close>

fun consumer_loop ::
  "('m \<Rightarrow> 'q \<Rightarrow> 'm option \<times> 'q) \<Rightarrow> ('m \<Rightarrow> 'v option res) \<Rightarrow> ('v \<Rightarrow> 's \<Rightarrow> 's) \<Rightarrow> bool \<Rightarrow> 'm list
     \<Rightarrow> ('q, 's, 'v) consumer_state \<Rightarrow> ('q, 's, 'v) consumer_state res" where
  "consumer_loop pop parse put has_sink [] c = Inr c"
| "consumer_loop pop parse put has_sink (j # js) c =
     bindE (consumer_iter pop parse put has_sink j c) (consumer_loop pop parse put has_sink js)"

text \<open>
  The producer's callback \<open>on_message\<close>: push the frame, or drop it with a warning when the
  queue is full; and any interleaving of frames with iterations. The result lists the
  accepted frames.
\<close>

datatype 'm pipe_op = Frame 'm | Iteration 'm

fun run_pipe ::
  "('m \<Rightarrow> 'q \<Rightarrow> bool \<times> 'q) \<Rightarrow> ('m \<Rightarrow> 'q \<Rightarrow> 'm option \<times> 'q) \<Rightarrow> ('m \<Rightarrow> 'v option res)
     \<Rightarrow> ('v \<Rightarrow> 's \<Rightarrow> 's) \<Rightarrow> bool \<Rightarrow> 'm pipe_op list \<Rightarrow> ('q, 's, 'v) consumer_state
     \<Rightarrow> ('m list \<times> ('q, 's, 'v) consumer_state) res" where
  "run_pipe push pop parse put has_sink [] c = Inr ([], c)"
| "run_pipe push pop parse put has_sink (Frame m # ops) c =
     (case push m (cq c) of (b, q) \<Rightarrow>
      bindE (run_pipe push pop parse put has_sink ops (c\<lparr>cq := q\<rparr>))
        (\<lambda>(acc, c'). Inr (if b then m # acc else acc, c')))"
| "run_pipe push pop parse put has_sink (Iteration j # ops) c =
     bindE (consumer_iter pop parse put has_sink j c) (run_pipe push pop parse put has_sink ops)"

subsection \<open>Life cycle\<close>

text \<open>
  \<open>running_\<close>, whether \<open>thr_\<close> is joinable, and whether \<open>sink_\<close> is set (the argument \<open>has_sink\<close>
  of the loop). Assigning a thread to a joinable one, and
  destroying a joinable one, is \<open>std::terminate\<close>. \<open>stop()\<close> waits for the loop, which leaves at
  its next reading of \<open>running_\<close>.
\<close>

record consumer_life =
  c_running :: bool
  c_joinable :: bool
  c_sink :: bool

definition consumer_new :: consumer_life where
  "consumer_new = \<lparr>c_running = False, c_joinable = False, c_sink = False\<rparr>"

definition set_sink :: "bool \<Rightarrow> consumer_life \<Rightarrow> consumer_life" where
  "set_sink given c = c\<lparr>c_sink := given\<rparr>"

definition consumer_start :: "consumer_life \<Rightarrow> consumer_life res" where
  "consumer_start c =
     (if c_running c then Inr (c\<lparr>c_running := True\<rparr>)
      else if c_joinable c then Inl Terminated
      else Inr (c\<lparr>c_running := True, c_joinable := True\<rparr>))"

definition consumer_stop :: "consumer_life \<Rightarrow> consumer_life" where
  "consumer_stop c =
     (if \<not> c_running c then c\<lparr>c_running := False\<rparr>
      else c\<lparr>c_running := False, c_joinable := False\<rparr>)"

text \<open>The destructor calls \<open>stop()\<close> and then destroys the thread object.\<close>

definition consumer_destroy :: "consumer_life \<Rightarrow> unit res" where
  "consumer_destroy c = (if c_joinable (consumer_stop c) then Inl Terminated else Inr ())"

datatype life_call = Start | Stop | Set_sink bool

fun consumer_calls :: "life_call list \<Rightarrow> consumer_life \<Rightarrow> consumer_life res" where
  "consumer_calls [] c = Inr c"
| "consumer_calls (Start # cs) c = bindE (consumer_start c) (consumer_calls cs)"
| "consumer_calls (Stop # cs) c = consumer_calls cs (consumer_stop c)"
| "consumer_calls (Set_sink b # cs) c = consumer_calls cs (set_sink b c)"

text \<open>The last of the calls that start or stop.\<close>

fun runs_after :: "bool \<Rightarrow> life_call list \<Rightarrow> bool" where
  "runs_after r [] = r"
| "runs_after r (Start # cs) = runs_after True cs"
| "runs_after r (Stop # cs) = runs_after False cs"
| "runs_after r (Set_sink b # cs) = runs_after r cs"

subsection \<open>The pipeline from its contracts\<close>

definition valid :: "('m \<Rightarrow> 'v option res) \<Rightarrow> 'm list \<Rightarrow> 'v list" where
  "valid parse ms = concat (map (\<lambda>m. case parse m of Inr (Some v) \<Rightarrow> [v] | _ \<Rightarrow> []) ms)"

lemma valid_simps [simp]:
  "valid parse [] = []"
  "valid parse (m # ms) = (case parse m of Inr (Some v) \<Rightarrow> [v] | _ \<Rightarrow> []) @ valid parse ms"
  "valid parse (ms @ ms') = valid parse ms @ valid parse ms'"
  by (simp_all add: valid_def)

lemma consumer_iter_Some:
  assumes "pop j (cq c) = (Some m, q)" and "consumer_iter pop parse put sink j c = Inr c'"
  shows "cq c' = q" and "cstore c' = fold put (valid parse [m]) (cstore c)"
    and "sunk c' = sunk c @ (if sink then valid parse [m] else [])"
  using assms by (auto simp: consumer_iter_def split: option.splits sum.splits)

lemma consumer_iter_None:
  assumes "pop j (cq c) = (None, q)" and "consumer_iter pop parse put sink j c = Inr c'"
  shows "cq c' = q" and "cstore c' = cstore c" and "sunk c' = sunk c"
  using assms by (auto simp: consumer_iter_def)

locale ingest_pipeline = bounded_fifo push pop contents room inv + kv_store put get key
  for push :: "'m \<Rightarrow> 'q \<Rightarrow> bool \<times> 'q" and pop :: "'m \<Rightarrow> 'q \<Rightarrow> 'm option \<times> 'q"
    and contents :: "'q \<Rightarrow> 'm list" and room :: "'q \<Rightarrow> nat" and inv :: "'q \<Rightarrow> bool"
    and put :: "'v \<Rightarrow> 's \<Rightarrow> 's" and get :: "'s \<Rightarrow> 'k \<Rightarrow> 'v option" and key :: "'v \<Rightarrow> 'k"
begin

lemma iter_effect:
  assumes "inv (cq c)" and "consumer_iter pop parse put sink j c = Inr c'"
  shows "inv (cq c')" and "room (cq c') = room (cq c)"
    and "\<exists>d. contents (cq c) = d @ contents (cq c') \<and> cstore c' = fold put (valid parse d) (cstore c)
      \<and> sunk c' = sunk c @ (if sink then valid parse d else []) \<and> length d = min 1 (length (contents (cq c)))"
proof -
  obtain r q where p: "pop j (cq c) = (r, q)" by (cases "pop j (cq c)")
  note pc = pop_cases[OF assms(1) p]
  have q: "cq c' = q"
    using assms(2) by (auto simp: consumer_iter_def p split: option.splits sum.splits)
  show "inv (cq c')" "room (cq c') = room (cq c)" using pc q by auto
  show "\<exists>d. contents (cq c) = d @ contents (cq c') \<and> cstore c' = fold put (valid parse d) (cstore c)
      \<and> sunk c' = sunk c @ (if sink then valid parse d else []) \<and> length d = min 1 (length (contents (cq c)))"
  proof (cases r)
    case None
    with consumer_iter_None[OF _ assms(2)] p pc show ?thesis
      by (intro exI[of _ "[]"]) (simp add: q)
  next
    case (Some m)
    with consumer_iter_Some(2,3)[OF _ assms(2)] p pc show ?thesis
      by (intro exI[of _ "[m]"]) (simp add: q)
  qed
qed

lemma pipe_effect:
  "inv (cq c) \<Longrightarrow> run_pipe push pop parse put sink ops c = Inr (acc, c') \<Longrightarrow>
    inv (cq c') \<and> (\<exists>d. contents (cq c) @ acc = d @ contents (cq c')
      \<and> cstore c' = fold put (valid parse d) (cstore c)
      \<and> sunk c' = sunk c @ (if sink then valid parse d else []))"
proof (induction ops arbitrary: c acc)
  case Nil
  then show ?case by simp
next
  case (Cons op ops)
  show ?case
  proof (cases op)
    case (Frame m)
    obtain b q where p: "push m (cq c) = (b, q)" by (cases "push m (cq c)")
    note step = push_cases[OF Cons.prems(1) p]
    obtain acc1 where r: "run_pipe push pop parse put sink ops (c\<lparr>cq := q\<rparr>) = Inr (acc1, c')"
      and acc: "acc = (if b then [m] else []) @ acc1"
      using Cons.prems(2) by (auto simp: Frame p bindE_Inr_iff split: if_splits)
    have "inv (cq (c\<lparr>cq := q\<rparr>))" using step(1) by simp
    from Cons.IH[OF this r] step(4) show ?thesis by (simp add: acc)
  next
    case (Iteration j)
    obtain c1 where i: "consumer_iter pop parse put sink j c = Inr c1"
      and r: "run_pipe push pop parse put sink ops c1 = Inr (acc, c')"
      using Cons.prems(2) by (auto simp: Iteration bindE_Inr_iff)
    obtain d1 where d1: "contents (cq c) = d1 @ contents (cq c1)"
      "cstore c1 = fold put (valid parse d1) (cstore c)"
      "sunk c1 = sunk c @ (if sink then valid parse d1 else [])"
      using iter_effect(3)[OF Cons.prems(1) i] by blast
    from Cons.IH[OF iter_effect(1)[OF Cons.prems(1) i] r] obtain d where d:
      "inv (cq c')" "contents (cq c1) @ acc = d @ contents (cq c')"
      "cstore c' = fold put (valid parse d) (cstore c1)"
      "sunk c' = sunk c1 @ (if sink then valid parse d else [])" by blast
    with d1 show ?thesis by (intro conjI exI[of _ "d1 @ d"]) auto
  qed
qed

text \<open>A consumer that runs long enough with no new frames empties the queue.\<close>

lemma loop_drains:
  "inv (cq c) \<Longrightarrow> (\<And>m. m \<in> set (contents (cq c)) \<Longrightarrow> \<exists>r. parse m = Inr r) \<Longrightarrow>
    length (contents (cq c)) \<le> length js \<Longrightarrow>
    \<exists>c'. consumer_loop pop parse put sink js c = Inr c' \<and> contents (cq c') = []
      \<and> cstore c' = fold put (valid parse (contents (cq c))) (cstore c)
      \<and> sunk c' = sunk c @ (if sink then valid parse (contents (cq c)) else [])"
proof (induction js arbitrary: c)
  case Nil
  then show ?case by simp
next
  case (Cons j js)
  have "\<exists>c1. consumer_iter pop parse put sink j c = Inr c1"
  proof (cases "contents (cq c)")
    case Nil
    with pop_empty[OF Cons.prems(1)] show ?thesis by (simp add: consumer_iter_def)
  next
    case (Cons m ms)
    then obtain q where "pop j (cq c) = (Some m, q)" using pop_front[OF Cons.prems(1)] by blast
    moreover obtain r where "parse m = Inr r" using Cons.prems(2)[of m] Cons by auto
    ultimately show ?thesis by (cases r) (auto simp: consumer_iter_def)
  qed
  then obtain c1 where i: "consumer_iter pop parse put sink j c = Inr c1" by blast
  obtain d where d: "contents (cq c) = d @ contents (cq c1)"
    "cstore c1 = fold put (valid parse d) (cstore c)"
    "sunk c1 = sunk c @ (if sink then valid parse d else [])"
    "length d = min 1 (length (contents (cq c)))"
    using iter_effect(3)[OF Cons.prems(1) i] by blast
  have "length (contents (cq c1)) \<le> length js" using d(1,4) Cons.prems(3) by (auto simp: min_def split: if_splits)
  moreover have "\<And>m. m \<in> set (contents (cq c1)) \<Longrightarrow> \<exists>r. parse m = Inr r"
    using d(1) Cons.prems(2) by auto
  ultimately obtain c' where "consumer_loop pop parse put sink js c1 = Inr c'" "contents (cq c') = []"
    "cstore c' = fold put (valid parse (contents (cq c1))) (cstore c1)"
    "sunk c' = sunk c1 @ (if sink then valid parse (contents (cq c1)) else [])"
    using Cons.IH[OF iter_effect(1)[OF Cons.prems(1) i]] by blast
  with i d(1-3) show ?case by auto
qed

end

interpretation pipeline: ingest_pipeline try_push try_pop queue_list "\<lambda>q. length (qbuf q)" queue_inv
    upsert store_get token
  by unfold_locales

subsection \<open>Properties\<close>

text \<open>
  C4. End to end, for every interleaving of incoming frames with consumer iterations: the
  frames processed are the first accepted ones, the rest is still queued, the store holds for
  each token the last valid record among the processed frames, and the sink saw exactly the
  valid records in order.
\<close>

theorem pipeline_latest:
  assumes "mk_queue cap = Inr q"
    and "run_pipe try_push try_pop (parse_ltp rt ps) upsert sink ops
           \<lparr>cq = q, cstore = Map.empty, sunk = []\<rparr> = Inr (acc, c')"
  shows "\<exists>d. acc = d @ queue_list (cq c')
    \<and> store_get (cstore c') tok = find (\<lambda>v. token v = tok) (rev (valid (parse_ltp rt ps) d))
    \<and> sunk c' = (if sink then valid (parse_ltp rt ps) d else [])"
proof -
  have "queue_inv (cq \<lparr>cq = q, cstore = Map.empty :: 'a ltp_store, sunk = []\<rparr>)"
    and empty: "queue_list q = []" using mk_queue_inv[OF assms(1)] by auto
  from pipeline.pipe_effect[OF this(1) assms(2)] empty obtain d where
    "acc = d @ queue_list (cq c')" "cstore c' = fold upsert (valid (parse_ltp rt ps) d) Map.empty"
    "sunk c' = (if sink then valid (parse_ltp rt ps) d else [])" by auto
  with store_get_fold show ?thesis by metis
qed

lemma sample_queue:
  "mk_queue 8 = Inr \<lparr>qbuf = replicate 8 '''', qmask = 7, qhead = 0, qtail = 0\<rparr>"
  by (simp add: mk_queue_def next_pow2_def is_power_of_two_def)

lemma sample_pipe:
  "\<exists>c'. run_pipe try_push try_pop (parse_ltp (sample_runtime sample_frame) \<lparr>strip_prefix = ''nse_cm|''\<rparr>)
      upsert True [Frame ''frame'', Iteration '''']
      \<lparr>cq = \<lparr>qbuf = replicate 8 '''', qmask = 7, qhead = 0, qtail = 0\<rparr>, cstore = Map.empty, sunk = []\<rparr>
    = Inr ([''frame''], c') \<and> queue_list (cq c') = []"
  by (simp add: try_push_def try_pop_def capacity_def slot_def Let_def consumer_iter_def sample_parse
      queue_list_def)

theorem pipeline_latest_witness:
  "\<exists>c'. run_pipe try_push try_pop
      (parse_ltp (sample_runtime sample_frame) \<lparr>strip_prefix = ''nse_cm|''\<rparr>)
      upsert True [Frame ''frame'', Iteration '''']
      \<lparr>cq = \<lparr>qbuf = replicate 8 '''', qmask = 7, qhead = 0, qtail = 0\<rparr>, cstore = Map.empty, sunk = []\<rparr>
    = Inr ([''frame''], c')
    \<and> store_get (cstore c') ''26000'' = Some \<lparr>token = ''26000'', ltp = 101, ts = 1728123456789000000\<rparr>"
proof -
  obtain c' where r: "run_pipe try_push try_pop
      (parse_ltp (sample_runtime sample_frame) \<lparr>strip_prefix = ''nse_cm|''\<rparr>)
      upsert True [Frame ''frame'', Iteration '''']
      \<lparr>cq = \<lparr>qbuf = replicate 8 '''', qmask = 7, qhead = 0, qtail = 0\<rparr>, cstore = Map.empty, sunk = []\<rparr>
    = Inr ([''frame''], c')" and e: "queue_list (cq c') = []" using sample_pipe by blast
  from pipeline_latest[OF sample_queue r, of "''26000''"] e
  have "store_get (cstore c') ''26000'' = Some \<lparr>token = ''26000'', ltp = 101, ts = 1728123456789000000\<rparr>"
    by (auto simp: sample_parse)
  with r show ?thesis by blast
qed

text \<open>
  Draining: when the parser returns on every queued frame, a consumer that runs for at
  least as many iterations as there are frames, with no new ones, empties the queue, and has
  then written exactly the valid records, in order.
\<close>

lemma consumer_drains:
  assumes "queue_inv (cq c)" and "\<forall>m \<in> set (queue_list (cq c)). \<exists>r. parse_ltp rt ps m = Inr r"
    and "length (queue_list (cq c)) \<le> length js"
  shows "\<exists>c'. consumer_loop try_pop (parse_ltp rt ps) upsert sink js c = Inr c'
    \<and> queue_list (cq c') = []
    \<and> cstore c' = fold upsert (valid (parse_ltp rt ps) (queue_list (cq c))) (cstore c)"
  using pipeline.loop_drains[where parse = "parse_ltp rt ps" and sink = sink and js = js and c = c]
    assms by blast

lemma consumer_drains_witness:
  "\<exists>c'. consumer_loop try_pop (parse_ltp (sample_runtime sample_frame) \<lparr>strip_prefix = ''nse_cm|''\<rparr>)
      upsert False ['''', '''']
      \<lparr>cq = snd (try_push ''frame'' \<lparr>qbuf = replicate 8 '''', qmask = 7, qhead = 0, qtail = 0\<rparr>),
       cstore = Map.empty, sunk = []\<rparr> = Inr c' \<and> queue_list (cq c') = []"
proof -
  let ?q = "\<lparr>qbuf = replicate 8 '''', qmask = 7, qhead = 0, qtail = 0\<rparr>"
  let ?c = "\<lparr>cq = snd (try_push ''frame'' ?q), cstore = Map.empty, sunk = []\<rparr>
      :: (ingest_queue, int ltp_store, int ltp_rec) consumer_state"
  have inv: "queue_inv ?q" "queue_list ?q = []" by (rule mk_queue_inv[OF sample_queue])+
  obtain b q' where p: "try_push ''frame'' ?q = (b, q')" by (cases "try_push ''frame'' ?q")
  have l: "queue_list q' = (if b then [''frame''] else [])"
    using ring.push_cases(4)[OF inv(1) p] inv(2) by simp
  have i: "queue_inv (cq ?c)" using ring.push_cases(1)[OF inv(1) p] p by simp
  have "\<forall>m \<in> set (queue_list (cq ?c)). \<exists>r. parse_ltp (sample_runtime sample_frame)
      \<lparr>strip_prefix = ''nse_cm|''\<rparr> m = Inr r"
    using l p sample_parse by simp
  moreover have "length (queue_list (cq ?c)) \<le> length ['''', '''']" using l p by simp
  ultimately show ?thesis
    using consumer_drains[OF i, where js = "['''', '''']" and sink = False] by blast
qed

text \<open>
  No sequence of calls, nor the destructor after it, terminates the program; the thread
  runs exactly when the last of the \<open>start()\<close> and \<open>stop()\<close> calls was \<open>start()\<close>.
\<close>

lemma consumer_life_safe:
  "\<exists>c. consumer_calls cs consumer_new = Inr c \<and> consumer_destroy c = Inr ()
    \<and> c_joinable c = c_running c \<and> c_running c = runs_after False cs"
proof -
  have "\<exists>c'. consumer_calls cs c = Inr c' \<and> c_joinable c' = c_running c'
      \<and> c_running c' = runs_after (c_running c) cs"
    if "c_joinable c = c_running c" for c
    using that
  proof (induction cs arbitrary: c)
    case (Cons call cs)
    show ?case
    proof (cases call)
      case Start
      then show ?thesis
        using Cons.prems Cons.IH[of "c\<lparr>c_running := True\<rparr>"]
          Cons.IH[of "c\<lparr>c_running := True, c_joinable := True\<rparr>"]
        by (cases "c_running c") (simp_all add: consumer_start_def)
    next
      case Stop
      then show ?thesis using Cons.prems Cons.IH[of "consumer_stop c"]
        by (cases "c_running c") (simp_all add: consumer_stop_def)
    next
      case (Set_sink b)
      then show ?thesis using Cons.prems Cons.IH[of "set_sink b c"] by (simp add: set_sink_def)
    qed
  qed simp
  from this[of consumer_new] obtain c where "consumer_calls cs consumer_new = Inr c"
    "c_joinable c = c_running c" "c_running c = runs_after False cs"
    by (auto simp: consumer_new_def)
  moreover from this(2) have "consumer_destroy c = Inr ()"
    by (simp add: consumer_destroy_def consumer_stop_def)
  ultimately show ?thesis by blast
qed

end
