(* ===== verification/Base32.thy ===== *)
theory Base32
  imports Text Slicing
begin

text \<open>
  The Base32 decoder of \<open>src/totp.cpp\<close>: a loop over a 32-bit accumulator that is never masked,
  compared with the decoding of RFC 4648 on bit strings.
\<close>

subsection \<open>The decoder\<close>

definition b32_val :: "char \<Rightarrow> int" where
  "b32_val c =
     (if is_upper c then int (of_char c) - 65
      else if 50 \<le> (of_char c :: nat) \<and> of_char c \<le> (55 :: nat) then 26 + (int (of_char c) - 50)
      else -1)"

definition b32_normalise :: "string \<Rightarrow> string" where
  "b32_normalise s = map to_upper (filter (\<lambda>c. c \<noteq> CHR ''='' \<and> \<not> is_space c) s)"

text \<open>
  \<open>buffer\<close> is an \<open>int\<close>: the shift to the left wraps (C++20) and the shift to the right is
  arithmetic.
\<close>

fun b32_loop :: "string \<Rightarrow> i32 \<Rightarrow> nat \<Rightarrow> byte list \<Rightarrow> byte list res" where
  "b32_loop [] buffer bits_left out = Inr out"
| "b32_loop (c # cs) buffer bits_left out =
     (let v = b32_val c in
      if v < 0 then Inl (Runtime_error ''TOTP: invalid Base32 character'')
      else
        let buffer = push_bit 5 buffer OR of_int v; bits_left = bits_left + 5 in
        if 8 \<le> bits_left then
          let bits_left = bits_left - 8;
              b = ucast (signed_drop_bit bits_left buffer AND 0xFF) in
          b32_loop cs buffer bits_left (out @ [b])
        else b32_loop cs buffer bits_left out)"

definition base32_decode :: "string \<Rightarrow> byte list res" where
  "base32_decode b32 = b32_loop (b32_normalise b32) 0 0 []"

subsection \<open>Bit strings\<close>

text \<open>The number a bit string denotes, most significant bit first, and its digits.\<close>

definition bits_val :: "bool list \<Rightarrow> nat" where
  "bits_val bs = foldl (\<lambda>n b. 2 * n + of_bool b) 0 bs"

fun bits_of :: "nat \<Rightarrow> nat \<Rightarrow> bool list" where
  "bits_of 0 n = []"
| "bits_of (Suc k) n = bits_of k (n div 2) @ [odd n]"

lemma bits_val_Nil [simp]: "bits_val [] = 0"
  by (simp add: bits_val_def)

lemma bits_val_snoc [simp]: "bits_val (bs @ [b]) = 2 * bits_val bs + of_bool b"
  by (simp add: bits_val_def)

lemma bits_val_append: "bits_val (as @ bs) = bits_val as * 2 ^ length bs + bits_val bs"
proof (induction bs rule: rev_induct)
  case (snoc b bs)
  have "bits_val (as @ bs @ [b]) = 2 * bits_val (as @ bs) + of_bool b"
    using bits_val_snoc[of "as @ bs" b] by simp
  with snoc show ?case by (simp add: algebra_simps)
qed simp

lemma bits_val_less: "bits_val bs < 2 ^ length bs"
  by (induction bs rule: rev_induct) auto

lemma bits_of_numeral: "bits_of (numeral k) n = bits_of (pred_numeral k) (n div 2) @ [odd n]"
  by (simp add: numeral_eq_Suc)

lemma length_bits_of [simp]: "length (bits_of k n) = k"
  by (induction k arbitrary: n) auto

lemma bits_val_of: "n < 2 ^ k \<Longrightarrow> bits_val (bits_of k n) = n"
proof (induction k arbitrary: n)
  case (Suc k)
  then have "bits_val (bits_of k (n div 2)) = n div 2" by (simp add: less_mult_imp_div_less)
  then show ?case by simp
qed simp

lemma bits_of_val: "bits_of (length bs) (bits_val bs) = bs"
  by (induction bs rule: rev_induct) auto

lemma bits_val_take: "length bs = n + m \<Longrightarrow> bits_val (take n bs) = bits_val bs div 2 ^ m"
  using bits_val_append[of "take n bs" "drop n bs"] bits_val_less[of "drop n bs"] by simp

lemma bits_val_drop: "length bs = n + m \<Longrightarrow> bits_val (drop n bs) = bits_val bs mod 2 ^ m"
  using bits_val_append[of "take n bs" "drop n bs"] bits_val_less[of "drop n bs"] by simp

subsection \<open>Specification of decoding\<close>

text \<open>
  RFC 4648, section 6, written from its table and without the functions of the program: the
  alphabet, of which a letter may also be written in lower case; white space and the padding
  character are no part of the encoded text. The five bits of each character stand in a row,
  cut into groups of eight; an incomplete last group is dropped.
\<close>

definition rfc_alphabet :: string where
  "rfc_alphabet = ''ABCDEFGHIJKLMNOPQRSTUVWXYZ234567''"

definition rfc_small_letters :: string where
  "rfc_small_letters = ''abcdefghijklmnopqrstuvwxyz''"

definition rfc_ignored :: string where
  "rfc_ignored = [CHR '' '', CHR 0x09, CHR 0x0A, CHR 0x0B, CHR 0x0C, CHR 0x0D, CHR ''='']"

fun position :: "char \<Rightarrow> string \<Rightarrow> nat option" where
  "position c [] = None"
| "position c (x # xs) = (if c = x then Some 0 else map_option Suc (position c xs))"

definition rfc_value :: "char \<Rightarrow> nat option" where
  "rfc_value c = (case position c rfc_alphabet of
     Some v \<Rightarrow> Some v | None \<Rightarrow> position c rfc_small_letters)"

definition whole_bytes :: "bool list \<Rightarrow> byte list" where
  "whole_bytes bs = map (\<lambda>g. of_nat (bits_val g)) (filter (\<lambda>g. length g = 8) (chunks 8 bs))"

definition rfc_decode :: "string \<Rightarrow> byte list option" where
  "rfc_decode s = map_option (\<lambda>vs. whole_bytes (concat (map (bits_of 5) vs)))
     (those (map rfc_value (filter (\<lambda>c. c \<notin> set rfc_ignored) s)))"

text \<open>The values the program finds for the characters it keeps.\<close>

definition b32_bits :: "string \<Rightarrow> bool list" where
  "b32_bits cs = concat (map (\<lambda>c. bits_of 5 (nat (b32_val c))) cs)"

definition b32_valid :: "char \<Rightarrow> bool" where
  "b32_valid c \<longleftrightarrow> 0 \<le> b32_val c"

lemma b32_val_less: "b32_val c < 32"
  by (auto simp: b32_val_def is_upper_def)

text \<open>
  The program against the table, character by character: what it skips, and the value of a
  character after \<open>toupper\<close>.
\<close>

lemma position_append: "position c (xs @ ys) =
    (case position c xs of Some v \<Rightarrow> Some v | None \<Rightarrow> map_option (\<lambda>v. v + length xs) (position c ys))"
  by (induction xs) (auto simp: option.map_comp option.map_ident comp_def split: option.splits intro!: option.map_cong)

lemma position_range: "b \<le> 256 \<Longrightarrow> position c (map char_of [a..<b]) =
    (if a \<le> of_char c \<and> of_char c < b then Some (of_char c - a) else None)"
proof (induction "b - a" arbitrary: a)
  case (Suc d)
  then have "[a..<b] = a # [Suc a..<b]" "a < 256" by (simp_all add: upt_rec)
  moreover have "c = char_of a \<longleftrightarrow> of_char c = a" using Suc.prems \<open>a < 256\<close> by auto
  moreover have "position c (map char_of [Suc a..<b]) =
      (if Suc a \<le> of_char c \<and> of_char c < b then Some (of_char c - Suc a) else None)"
    using Suc by (intro Suc.hyps) simp_all
  ultimately show ?case using Suc.hyps(2) by (auto simp: le_less_Suc_eq)
qed simp

lemma rfc_ranges:
  "rfc_alphabet = map char_of [65..<91::nat] @ map char_of [50..<56::nat]"
  "rfc_small_letters = map char_of [97..<123::nat]"
  "rfc_ignored = char_of (32::nat) # map char_of [9..<14::nat] @ ''=''"
  by code_simp+

lemma ignored_char: "c \<in> set rfc_ignored \<longleftrightarrow> c = CHR ''='' \<or> is_space c"
proof -
  have "c = char_of n \<longleftrightarrow> of_char c = n" if "n < 256" for n :: nat using that by auto
  then have "c \<in> set rfc_ignored \<longleftrightarrow> c = CHR ''='' \<or> of_char c = (32::nat) \<or> of_char c \<in> {9..<14::nat}"
    unfolding rfc_ranges(3) by (auto simp: image_iff)
  then show ?thesis by (auto simp: is_space_def)
qed

lemma rfc_value_char: "rfc_value c =
    (if b32_valid (to_upper c) then Some (nat (b32_val (to_upper c))) else None)"
proof -
  define n where "n = (of_char c :: nat)"
  have u: "(of_char (to_upper c) :: nat) = (if 97 \<le> n \<and> n \<le> 122 then n - 32 else n)"
    by (auto simp: to_upper_def is_lower_def n_def)
  have "rfc_value c = (if 65 \<le> n \<and> n < 91 then Some (n - 65) else if 50 \<le> n \<and> n < 56 then Some (n - 24)
      else if 97 \<le> n \<and> n < 123 then Some (n - 97) else None)"
    unfolding rfc_value_def rfc_ranges position_append n_def
    by (simp add: position_range del: upt_rec_numeral)
  moreover have "b32_val (to_upper c) = (if 65 \<le> n \<and> n < 91 then int n - 65
      else if 50 \<le> n \<and> n < 56 then int n - 24 else if 97 \<le> n \<and> n < 123 then int n - 97 else -1)"
    by (auto simp: b32_val_def is_upper_def u)
  moreover have "nat (int n - 65) = n - 65" "nat (int n - 24) = n - 24" "nat (int n - 97) = n - 97"
    by arith+
  ultimately show ?thesis by (simp add: b32_valid_def)
qed

lemma rfc_values: "those (map rfc_value cs) =
    (if list_all b32_valid (map to_upper cs) then Some (map (\<lambda>c. nat (b32_val (to_upper c))) cs) else None)"
  by (induction cs) (simp_all add: rfc_value_char)

lemma rfc_decode_eq: "rfc_decode s =
    (if list_all b32_valid (b32_normalise s) then Some (whole_bytes (b32_bits (b32_normalise s)))
     else None)"
  by (simp add: rfc_decode_def rfc_values b32_normalise_def b32_bits_def ignored_char comp_def)

lemma length_b32_bits: "length (b32_bits cs) = 5 * length cs"
  by (induction cs) (auto simp: b32_bits_def)

lemma whole_bytes_short: "length bs < 8 \<Longrightarrow> whole_bytes bs = []"
  by (cases "bs = []") (auto simp: whole_bytes_def chunks_step)

lemma whole_bytes_cons:
  "length g = 8 \<Longrightarrow> whole_bytes (g @ bs) = of_nat (bits_val g) # whole_bytes bs"
  by (cases "g = []") (auto simp: whole_bytes_def chunks_step)

lemma whole_bytes_append:
  "8 dvd length as \<Longrightarrow> whole_bytes (as @ bs) = whole_bytes as @ whole_bytes bs"
proof (induction "length as" arbitrary: as rule: less_induct)
  case less
  show ?case
  proof (cases "as = []")
    case True
    then show ?thesis by (simp add: whole_bytes_def)
  next
    case False
    with less.prems have l: "8 \<le> length as" by (auto dest: dvd_imp_le)
    define g r where "g = take 8 as" and "r = drop 8 as"
    have as: "as = g @ r" "length g = 8" using l by (auto simp: g_def r_def)
    have "8 dvd length r" "length r < length as" using less.prems l by (auto simp: r_def dvd_diff_nat)
    then have "whole_bytes (r @ bs) = whole_bytes r @ whole_bytes bs" by (intro less.hyps) auto
    with as show ?thesis by (simp add: whole_bytes_cons)
  qed
qed

subsection \<open>The accumulator\<close>

lemma unat_accumulate:
  assumes "0 \<le> v" and "v < 32"
  shows "unat (push_bit 5 b OR of_int v :: i32) = (32 * unat b + nat v) mod 2 ^ 32"
proof -
  have v: "take_bit 5 v = v" using assms by (simp add: take_bit_int_eq_self)
  have "push_bit 5 b AND of_int v = 0"
  proof (rule bit_word_eqI)
    fix n
    have "\<not> bit v n" if "5 \<le> n" using that by (subst v[symmetric]) (simp add: bit_take_bit_iff)
    then show "bit (push_bit 5 b AND of_int v) n = bit (0 :: i32) n"
      by (auto simp: bit_and_iff bit_push_bit_iff bit_of_int_iff)
  qed
  then have "push_bit 5 b OR of_int v = push_bit 5 b + of_int v"
    by (rule disjunctive_add_eq_or[symmetric])
  also have "\<dots> = of_nat (32 * unat b + nat v)"
    using assms by (simp add: push_bit_eq_mult mult.commute)
  finally show ?thesis by (simp only: unat_of_nat) simp
qed

lemma extract_byte:
  assumes "r + 8 < 32"
  shows "(ucast (signed_drop_bit r (b :: i32) AND 0xFF) :: byte) = of_nat (unat b div 2 ^ r)"
proof (rule bit_word_eqI)
  fix n assume "n < LENGTH(8)"
  then have n: "n < 8" by simp
  have m: "(0xFF :: i32) = mask 8" by (simp add: mask_eq_exp_minus_1)
  have "\<not> 32 - r \<le> n" using n assms by arith
  then
  have "bit (ucast (signed_drop_bit r b AND 0xFF) :: byte) n \<longleftrightarrow> bit b (r + n)"
    using n assms by (simp add: m bit_and_iff bit_mask_iff bit_signed_drop_bit_iff bit_unsigned_iff)
  also have "\<dots> \<longleftrightarrow> bit (unat b) (r + n)" using n assms by (simp add: bit_unsigned_iff)
  also have "\<dots> \<longleftrightarrow> bit (unat b div 2 ^ r) n"
    by (simp flip: drop_bit_eq_div add: bit_drop_bit_eq)
  also have "\<dots> \<longleftrightarrow> bit (of_nat (unat b div 2 ^ r) :: byte) n" using n by (simp add: bit_of_nat_iff)
  finally show "bit (ucast (signed_drop_bit r b AND 0xFF) :: byte) n
      = bit (of_nat (unat b div 2 ^ r) :: byte) n" .
qed

lemma of_nat_byte_mod: "(of_nat (n mod 2 ^ 8) :: byte) = of_nat n"
  by (simp add: word_unat_eq_iff unat_of_nat)

lemma accumulate_mod:
  assumes "(v :: nat) < 32"
  shows "(32 * x + v) mod 2 ^ (k + 5) = 32 * (x mod 2 ^ k) + v"
proof -
  define r q where "r = x mod 2 ^ k" and "q = x div 2 ^ k"
  have "x = q * 2 ^ k + r" unfolding r_def q_def by (rule div_mult_mod_eq[symmetric])
  then have "32 * x + v = (32 * r + v) + q * 2 ^ (k + 5)"
    by (simp add: power_add algebra_simps)
  moreover have "r < 2 ^ k" by (simp add: r_def)
  then have "32 * r + v < 2 ^ (k + 5)" using assms by (simp add: power_add)
  ultimately have "(32 * x + v) mod 2 ^ (k + 5) = 32 * r + v"
    by (simp only: mod_mult_self1 mod_less)
  then show ?thesis by (simp add: r_def)
qed

lemma b32_loop_spec:
  "\<forall>c \<in> set cs. b32_valid c \<Longrightarrow> length l < 8 \<Longrightarrow> unat buffer mod 2 ^ length l = bits_val l \<Longrightarrow>
    b32_loop cs buffer (length l) out = Inr (out @ whole_bytes (l @ b32_bits cs))"
proof (induction cs arbitrary: buffer l out)
  case Nil
  then show ?case by (simp add: b32_bits_def whole_bytes_short)
next
  case (Cons c cs)
  define v where "v = b32_val c"
  define b where "b = push_bit 5 buffer OR of_int v"
  define l' where "l' = l @ bits_of 5 (nat v)"
  have v: "0 \<le> v" "v < 32" using Cons.prems(1) b32_val_less by (auto simp: v_def b32_valid_def)
  have len: "length l' = length l + 5" by (simp add: l'_def)
  have bits: "b32_bits (c # cs) = bits_of 5 (nat v) @ b32_bits cs" by (simp add: b32_bits_def v_def)
  have val: "unat b mod 2 ^ length l' = bits_val l'"
  proof -
    have "unat b mod 2 ^ (length l + 5) = (32 * unat buffer + nat v) mod 2 ^ (length l + 5)"
      using Cons.prems(2) unfolding b_def unat_accumulate[OF v]
      by (intro mod_mod_cancel le_imp_power_dvd) simp
    also have "\<dots> = 32 * bits_val l + nat v"
      using v Cons.prems(3) accumulate_mod[of "nat v" "unat buffer" "length l"] by simp
    also have "\<dots> = bits_val l'"
      using v by (simp add: l'_def bits_val_append bits_val_of)
    finally show ?thesis by (simp add: len)
  qed
  show ?case
  proof (cases "8 \<le> length l'")
    case True
    define r where "r = length l' - 8"
    have r: "length l' = 8 + r" "r < 5" using True Cons.prems(2) by (auto simp: r_def len)
    have top: "(unat b div 2 ^ r) mod 2 ^ 8 = bits_val (take 8 l')"
    proof -
      have "(unat b div 2 ^ r) mod 2 ^ 8 = (unat b mod (2 ^ r * 2 ^ 8)) div 2 ^ r"
        by (simp only: mod_mult2_eq) simp
      also have "\<dots> = bits_val l' div 2 ^ r"
        using val by (simp add: r(1) power_add mult.commute)
      finally show ?thesis using bits_val_take[OF r(1)] by simp
    qed
    have low: "unat b mod 2 ^ length (drop 8 l') = bits_val (drop 8 l')"
    proof -
      have "unat b mod 2 ^ r = (unat b mod 2 ^ length l') mod 2 ^ r"
        by (simp add: r(1) mod_mod_cancel le_imp_power_dvd)
      also have "\<dots> = bits_val l' mod 2 ^ r" by (simp only: val)
      finally show ?thesis using bits_val_drop[OF r(1)] by (simp add: r(1))
    qed
    have byte: "(ucast (signed_drop_bit r b AND 0xFF) :: byte) = of_nat (bits_val (take 8 l'))"
      using extract_byte[of r b] r(2) of_nat_byte_mod[of "unat b div 2 ^ r"] by (simp only: top)
    have "b32_loop cs b (length (drop 8 l')) (out @ [of_nat (bits_val (take 8 l'))])
        = Inr ((out @ [of_nat (bits_val (take 8 l'))]) @ whole_bytes (drop 8 l' @ b32_bits cs))"
      using r Cons.prems(1) low by (intro Cons.IH) auto
    moreover have "whole_bytes (l' @ b32_bits cs)
        = of_nat (bits_val (take 8 l')) # whole_bytes (drop 8 l' @ b32_bits cs)"
      using whole_bytes_cons[of "take 8 l'" "drop 8 l' @ b32_bits cs"] r(1)
      by (simp flip: append_assoc)
    moreover have "b32_loop (c # cs) buffer (length l) out
        = b32_loop cs b r (out @ [of_nat (bits_val (take 8 l'))])"
      using True v byte by (simp add: Let_def r_def len flip: v_def b_def)
    moreover have "l @ b32_bits (c # cs) = l' @ b32_bits cs" by (simp add: bits l'_def)
    ultimately show ?thesis by (simp add: r_def)
  next
    case False
    have "b32_loop cs b (length l') out = Inr (out @ whole_bytes (l' @ b32_bits cs))"
      using False val Cons.prems(1) by (intro Cons.IH) auto
    then show ?thesis
      using False v by (simp add: Let_def len bits l'_def flip: v_def b_def)
  qed
qed

lemma b32_loop_invalid:
  "\<exists>c \<in> set cs. \<not> b32_valid c \<Longrightarrow>
    b32_loop cs buffer bits out = Inl (Runtime_error ''TOTP: invalid Base32 character'')"
  by (induction cs arbitrary: buffer bits out) (auto simp: b32_valid_def Let_def)

lemma base32_decode_valid:
  "\<forall>c \<in> set (b32_normalise s). b32_valid c \<Longrightarrow>
    base32_decode s = Inr (whole_bytes (b32_bits (b32_normalise s)))"
  using b32_loop_spec[of "b32_normalise s" "[]" 0 "[]"] by (simp add: base32_decode_def)

subsection \<open>The encoder of RFC 4648\<close>

text \<open>The program has no encoder; this is the inverse the decoder is measured against.\<close>

definition b32_char :: "nat \<Rightarrow> char" where
  "b32_char v = rfc_alphabet ! v"

definition byte_bits :: "byte list \<Rightarrow> bool list" where
  "byte_bits bs = concat (map (\<lambda>b. bits_of 8 (unat b)) bs)"

definition base32_encode :: "byte list \<Rightarrow> string" where
  "base32_encode bs =
     (let bits = byte_bits bs; pad = (5 - length bits mod 5) mod 5 in
      map (\<lambda>g. b32_char (bits_val g)) (chunks 5 (bits @ replicate pad False)))"

lemma alphabet_chars:
  "list_all (\<lambda>v. b32_val (b32_char v) = int v \<and> to_upper (b32_char v) = b32_char v
     \<and> b32_char v \<notin> set rfc_ignored) [0..<32]"
  by code_simp

lemma b32_char_props:
  assumes "v < 32"
  shows "b32_val (b32_char v) = int v" and "to_upper (b32_char v) = b32_char v"
    and "b32_char v \<notin> set rfc_ignored" and "b32_char v \<noteq> CHR ''=''" and "\<not> is_space (b32_char v)"
  using alphabet_chars assms ignored_char by (auto simp: list_all_iff)

lemma length_byte_bits: "length (byte_bits bs) = 8 * length bs"
  by (induction bs) (auto simp: byte_bits_def)

lemma whole_bytes_byte_bits: "whole_bytes (byte_bits bs @ rest) = bs @ whole_bytes rest"
proof (induction bs)
  case Nil
  then show ?case by (simp add: byte_bits_def)
next
  case (Cons b bs)
  have "bits_val (bits_of 8 (unat b)) = unat b"
    using unsigned_less[of b] by (intro bits_val_of) simp
  with Cons whole_bytes_cons[of "bits_of 8 (unat b)" "byte_bits bs @ rest"] show ?case
    by (simp add: byte_bits_def)
qed

lemma pad_dvd: "0 < n \<Longrightarrow> (n::nat) dvd l + (n - l mod n) mod n"
proof (cases "l mod n = 0")
  case True
  then show ?thesis by (simp add: dvd_eq_mod_eq_0)
next
  case False
  then have "n \<noteq> 0 \<Longrightarrow> (n - l mod n) mod n = n - l mod n" by simp
  moreover have "l + (n - l mod n) = n * Suc (l div n)" if "n \<noteq> 0"
  proof -
    have "l = n * (l div n) + l mod n" by simp
    moreover have "l mod n \<le> n" using that by (simp add: less_imp_le)
    ultimately have "l + (n - l mod n) = n * (l div n) + n" by linarith
    then show ?thesis by simp
  qed
  ultimately show ?thesis if "0 < n" using that False by simp
qed

lemma encode_groups:
  "\<exists>gs rest. base32_encode bs = map (\<lambda>g. b32_char (bits_val g)) gs \<and> (\<forall>g \<in> set gs. length g = 5)
    \<and> concat gs = byte_bits bs @ rest \<and> length rest < 8"
proof -
  define pad where "pad = (5 - length (byte_bits bs) mod 5) mod 5"
  define gs where "gs = chunks 5 (byte_bits bs @ replicate pad False)"
  have "5 dvd length (byte_bits bs @ replicate pad False)"
    unfolding pad_def length_append length_replicate by (rule pad_dvd) simp
  then have "\<forall>g \<in> set gs. length g = 5" unfolding gs_def using chunks_exact by blast
  moreover have "concat gs = byte_bits bs @ replicate pad False"
    unfolding gs_def by (rule concat_chunks) simp
  moreover have "base32_encode bs = map (\<lambda>g. b32_char (bits_val g)) gs"
    by (simp add: base32_encode_def gs_def pad_def Let_def)
  moreover have "length (replicate pad False) < 8"
    unfolding pad_def length_replicate by (rule less_trans[OF mod_less_divisor]) simp_all
  ultimately show ?thesis by blast
qed

lemma group_char:
  assumes "length g = 5"
  shows "bits_val g < 32" and "bits_of 5 (bits_val g) = g"
  using bits_val_less[of g] bits_of_val[of g] assms by simp_all

lemma encode_facts:
  "b32_normalise (base32_encode bs) = base32_encode bs"
  "\<forall>c \<in> set (base32_encode bs). b32_valid c"
  "whole_bytes (b32_bits (base32_encode bs)) = bs"
proof -
  obtain gs rest where e: "base32_encode bs = map (\<lambda>g. b32_char (bits_val g)) gs"
    "\<forall>g \<in> set gs. length g = 5" "concat gs = byte_bits bs @ rest" "length rest < 8"
    using encode_groups by blast
  have lt: "bits_val g < 32" if "g \<in> set gs" for g using e(2) that group_char(1) by blast
  show "b32_normalise (base32_encode bs) = base32_encode bs"
    using lt unfolding e(1) b32_normalise_def
    by (subst filter_True) (auto simp: b32_char_props)
  show "\<forall>c \<in> set (base32_encode bs). b32_valid c"
    using lt by (auto simp: e(1) b32_valid_def b32_char_props(1))
  have "b32_bits (base32_encode bs) = concat (map (\<lambda>g. bits_of 5 (bits_val g)) gs)"
    using lt by (auto simp: e(1) b32_bits_def b32_char_props(1) intro!: arg_cong[where f = concat])
  also have "map (\<lambda>g. bits_of 5 (bits_val g)) gs = gs"
    using e(2) group_char(2) by (auto intro: map_idI)
  finally show "whole_bytes (b32_bits (base32_encode bs)) = bs"
    using whole_bytes_byte_bits[of bs rest] whole_bytes_short[OF e(4)] by (simp add: e(3))
qed

text \<open>
  The spellings of an encoded text: letters may be in lower case, and white space and padding
  characters may stand anywhere.
\<close>

inductive spelling :: "string \<Rightarrow> string \<Rightarrow> bool" where
  spell_nil: "spelling [] []"
| spell_same: "spelling s t \<Longrightarrow> spelling (c # s) (c # t)"
| spell_small: "spelling s t \<Longrightarrow> i < 26 \<Longrightarrow>
    spelling (rfc_small_letters ! i # s) (rfc_alphabet ! i # t)"
| spell_skip: "spelling s t \<Longrightarrow> c \<in> set rfc_ignored \<Longrightarrow> spelling (c # s) t"

lemma small_letters:
  assumes "i < 26"
  shows "rfc_value (rfc_small_letters ! i) = rfc_value (rfc_alphabet ! i)"
    and "rfc_small_letters ! i \<notin> set rfc_ignored" and "rfc_alphabet ! i \<notin> set rfc_ignored"
proof -
  have "list_all (\<lambda>i. rfc_value (rfc_small_letters ! i) = rfc_value (rfc_alphabet ! i)
      \<and> rfc_small_letters ! i \<notin> set rfc_ignored \<and> rfc_alphabet ! i \<notin> set rfc_ignored) [0..<26]"
    by code_simp
  with assms show "rfc_value (rfc_small_letters ! i) = rfc_value (rfc_alphabet ! i)"
    "rfc_small_letters ! i \<notin> set rfc_ignored" "rfc_alphabet ! i \<notin> set rfc_ignored"
    by (auto simp: list_all_iff)
qed

lemma spelling_decodes: "spelling s t \<Longrightarrow> rfc_decode s = rfc_decode t"
proof -
  have "spelling s t \<Longrightarrow> map rfc_value (filter (\<lambda>c. c \<notin> set rfc_ignored) s)
      = map rfc_value (filter (\<lambda>c. c \<notin> set rfc_ignored) t)"
    by (induction rule: spelling.induct) (simp_all add: small_letters)
  then show "spelling s t \<Longrightarrow> rfc_decode s = rfc_decode t" by (simp add: rfc_decode_def)
qed

lemma decode_encode: "rfc_decode (base32_encode bs) = Some bs"
  using encode_facts[of bs] by (simp add: rfc_decode_eq list_all_iff)

subsection \<open>Properties\<close>

text \<open>
  C25. The decoder computes RFC 4648 decoding although its accumulator is never masked: with the
  table of the RFC as specification, letters of either case, and white space and \<open>=\<close> skipped, it
  returns the whole bytes of the characters' bits in a row, and throws exactly when a character
  is not in the table.
\<close>

theorem base32_decode_correct:
  "base32_decode s = (case rfc_decode s of
     Some bs \<Rightarrow> Inr bs
   | None \<Rightarrow> Inl (Runtime_error ''TOTP: invalid Base32 character''))"
proof (cases "\<forall>c \<in> set (b32_normalise s). b32_valid c")
  case True
  then show ?thesis using base32_decode_valid[of s] by (simp add: rfc_decode_eq list_all_iff)
next
  case False
  then show ?thesis
    using b32_loop_invalid[of "b32_normalise s" 0 0 "[]"]
    by (auto simp: base32_decode_def rfc_decode_eq list_all_iff)
qed

text \<open>The test vectors of RFC 4648, section 10, without and with padding and in lower case.\<close>

lemma rfc_vectors:
  "rfc_decode ''MY======'' = Some [0x66]" "rfc_decode ''MZXQ===='' = Some [0x66, 0x6F]"
  "rfc_decode ''MZXW6==='' = Some [0x66, 0x6F, 0x6F]"
  "rfc_decode ''MZXW6YQ='' = Some [0x66, 0x6F, 0x6F, 0x62]"
  "rfc_decode ''mzxw6ytb'' = Some [0x66, 0x6F, 0x6F, 0x62, 0x61]"
  "rfc_decode ''MZXW6YTBOI'' = Some [0x66, 0x6F, 0x6F, 0x62, 0x61, 0x72]"
  by code_simp+

text \<open>
  C26. Round trip: every spelling of the Base32 encoding of a key (lower case, with spaces, with
  or without padding) decodes to the key.
\<close>

theorem base32_roundtrip:
  assumes "spelling s (base32_encode bs)"
  shows "base32_decode s = Inr bs"
  using base32_decode_valid[of s] spelling_decodes[OF assms] decode_encode[of bs]
  by (simp add: rfc_decode_eq list_all_iff split: if_splits)

theorem base32_roundtrip_witness: "base32_decode ''mz Xq===='' = Inr [0x66, 0x6F]"
proof -
  have e: "base32_encode [0x66, 0x6F] = ''MZXQ''" by code_simp
  have small: "CHR ''m'' = rfc_small_letters ! 12" "CHR ''M'' = rfc_alphabet ! 12"
    "CHR ''z'' = rfc_small_letters ! 25" "CHR ''Z'' = rfc_alphabet ! 25"
    "CHR ''q'' = rfc_small_letters ! 16" "CHR ''Q'' = rfc_alphabet ! 16"
    by code_simp+
  have "spelling ''===='' []" by (intro spell_skip spell_nil) (simp_all add: rfc_ignored_def)
  then have "spelling ''Xq===='' ''XQ''"
    unfolding small by (intro spell_same spell_small) simp_all
  then have "spelling '' Xq===='' ''XQ''" by (rule spell_skip) (simp add: rfc_ignored_def)
  then have "spelling ''mz Xq===='' ''MZXQ''" unfolding small by (intro spell_small) simp_all
  from base32_roundtrip[of _ "[0x66, 0x6F]", unfolded e, OF this] show ?thesis .
qed

end
