(* ===== verification/Totp.thy ===== *)
theory Totp
  imports Base32
begin

text \<open>
  \<open>TOTP\<close> (\<open>include/totp.h\<close>, \<open>src/totp.cpp\<close>): time-based one-time passwords over the Base32
  decoder. The keyed hash \<open>HMAC\<close> of OpenSSL is a parameter: it maps a digest (named by the
  OpenSSL function that returns its handle), key and message to the digest's bytes, or fails. A point in time is its nanosecond count since the epoch.
\<close>

subsection \<open>Data\<close>

datatype totp_algo = SHA1 | SHA256 | SHA512

datatype evp_md = EVP_sha1 | EVP_sha256 | EVP_sha512

fun md_for_algo :: "totp_algo \<Rightarrow> evp_md" where
  "md_for_algo SHA1 = EVP_sha1"
| "md_for_algo SHA256 = EVP_sha256"
| "md_for_algo SHA512 = EVP_sha512"

type_synonym hmac = "evp_md \<Rightarrow> byte list \<Rightarrow> byte list \<Rightarrow> byte list option"

record totp =
  secret :: "byte list"
  digits :: int
  period :: i64
  algo :: totp_algo

text \<open>The constructor decodes the secret first and then checks the other arguments.\<close>

definition totp_new :: "string \<Rightarrow> int \<Rightarrow> i64 \<Rightarrow> totp_algo \<Rightarrow> totp res" where
  "totp_new secret_base32 d p a =
     bindE (base32_decode secret_base32) (\<lambda>s.
       if d < 6 \<or> 10 < d then Inl (Invalid_argument ''TOTP: digits must be between 6 and 10'')
       else if sint p \<le> 0 then Inl (Invalid_argument ''TOTP: period must be positive'')
       else Inr \<lparr>secret = s, digits = d, period = p, algo = a\<rparr>)"

text \<open>With the default arguments the constructor throws only for a secret that is not Base32.\<close>

definition totp_default :: "string \<Rightarrow> totp res" where
  "totp_default secret_base32 = totp_new secret_base32 6 30 SHA1"

lemma totp_default_eq: "totp_default b32 =
  bindE (base32_decode b32) (\<lambda>s. Inr \<lparr>secret = s, digits = 6, period = 30, algo = SHA1\<rparr>)"
  by (simp add: totp_default_def totp_new_def)

subsection \<open>Counters and codes\<close>

text \<open>\<open>duration_cast\<close> to seconds truncates towards zero; a time before the epoch counts as 0.\<close>

definition time_counter :: "i64 \<Rightarrow> i64 \<Rightarrow> u64 res" where
  "time_counter tp p =
     (let secs = (if 0 \<le> sint tp then sint tp div 10 ^ 9 else - (- sint tp div 10 ^ 9));
          secs' = (of_int (if 0 \<le> secs then secs else 0) :: u64) in
      if p = 0 then Inl Undefined_behaviour else Inr (secs' div p))"

text \<open>\<open>for (i = 7; i >= 0; --i) { msg[i] = counter & 0xFF; counter >>= 8; }\<close>\<close>

fun counter_loop :: "nat \<Rightarrow> u64 \<Rightarrow> byte list \<Rightarrow> byte list" where
  "counter_loop 0 counter msg = msg"
| "counter_loop (Suc i) counter msg =
     counter_loop i (drop_bit 8 counter) (msg[i := ucast (counter AND 0xFF)])"

definition counter_bytes :: "u64 \<Rightarrow> byte list" where
  "counter_bytes counter = counter_loop 8 counter (replicate 8 0)"

fun pow10_loop :: "nat \<Rightarrow> u32 \<Rightarrow> u32" where
  "pow10_loop 0 m = m"
| "pow10_loop (Suc i) m = pow10_loop i (m * 10)"

definition left_pad_int :: "u32 \<Rightarrow> int \<Rightarrow> string res" where
  "left_pad_int val d =
     (let m = pow10_loop (nat d) 1 in
      if m = 0 then Inl Undefined_behaviour
      else Inr (show_padded (nat d) (unat (val mod m))))"

text \<open>
  The digest is written to a zeroed array of \<open>EVP_MAX_MD_SIZE\<close> (64) bytes; an empty digest
  would index it at \<open>len - 1\<close> with \<open>len = 0\<close>.
\<close>

definition bin_code :: "byte list \<Rightarrow> u32 res" where
  "bin_code digest =
     (if digest = [] \<or> 64 < length digest then Inl Undefined_behaviour
      else let mac = digest @ replicate (64 - length digest) 0;
               offset = unat (mac ! (length digest - 1) AND 0x0F) in
        Inr (push_bit 24 (ucast (mac ! offset AND 0x7F))
          OR push_bit 16 (ucast (mac ! (offset + 1) AND 0xFF))
          OR push_bit 8 (ucast (mac ! (offset + 2) AND 0xFF))
          OR ucast (mac ! (offset + 3) AND 0xFF)))"

definition hotp :: "hmac \<Rightarrow> byte list \<Rightarrow> u64 \<Rightarrow> int \<Rightarrow> totp_algo \<Rightarrow> string res" where
  "hotp hm key counter d a =
     (case hm (md_for_algo a) key (counter_bytes counter) of
        None \<Rightarrow> Inl (Runtime_error ''TOTP: HMAC failed'')
      | Some digest \<Rightarrow> bindE (bin_code digest) (\<lambda>code. left_pad_int code d))"

definition code_at :: "hmac \<Rightarrow> totp \<Rightarrow> i64 \<Rightarrow> string res" where
  "code_at hm t tp =
     bindE (time_counter tp (period t)) (\<lambda>ctr. hotp hm (secret t) ctr (digits t) (algo t))"

text \<open>\<open>now()\<close>, with the reading of the system clock as an argument.\<close>

definition totp_now :: "hmac \<Rightarrow> totp \<Rightarrow> i64 \<Rightarrow> string res" where
  "totp_now hm t clock = code_at hm t clock"

text \<open>
  The loop of \<open>verify\<close> with its \<open>int\<close> counter: incrementing the largest \<open>int\<close> is undefined.
\<close>

function verify_loop :: "hmac \<Rightarrow> totp \<Rightarrow> string \<Rightarrow> u64 \<Rightarrow> int \<Rightarrow> int \<Rightarrow> bool res" where
  "verify_loop hm t code ctr window w =
     (if w \<le> window then
        bindE (hotp hm (secret t) (ctr + of_int w) (digits t) (algo t)) (\<lambda>c.
          if c = code then Inr True
          else bindE (if of_int w \<le> ctr
                      then bindE (hotp hm (secret t) (ctr - of_int w) (digits t) (algo t))
                             (\<lambda>d. Inr (d = code))
                      else Inr False)
                 (\<lambda>hit. if hit then Inr True
                        else if w = 2147483647 then Inl Undefined_behaviour
                        else verify_loop hm t code ctr window (w + 1)))
      else Inr False)"
  by pat_completeness auto
termination
  by (relation "measure (\<lambda>(hm, t, code, ctr, window, w). nat (window + 1 - w))") auto

declare verify_loop.simps [simp del]

definition verify :: "hmac \<Rightarrow> totp \<Rightarrow> string \<Rightarrow> i64 \<Rightarrow> int \<Rightarrow> bool res" where
  "verify hm t code tp window =
     bindE (time_counter tp (period t)) (\<lambda>ctr.
       bindE (code_at hm t tp) (\<lambda>c.
         if c = code then Inr True else verify_loop hm t code ctr window 1))"

subsection \<open>Specification (RFC 4226)\<close>

definition be_nat :: "byte list \<Rightarrow> nat" where
  "be_nat bs = foldl (\<lambda>n b. 256 * n + unat b) 0 bs"

definition rfc_truncate :: "byte list \<Rightarrow> nat" where
  "rfc_truncate digest =
     be_nat (take 4 (drop (unat (last digest) mod 16) digest)) mod 2 ^ 31"

fun md_size :: "evp_md \<Rightarrow> nat" where
  "md_size EVP_sha1 = 20"
| "md_size EVP_sha256 = 32"
| "md_size EVP_sha512 = 64"

text \<open>What the code relies on from \<open>HMAC\<close>: it succeeds with as many bytes as the digest has.\<close>

definition mac_ok :: "hmac \<Rightarrow> bool" where
  "mac_ok hm \<longleftrightarrow> (\<forall>a k m. \<exists>d. hm a k m = Some d \<and> length d = md_size a)"

definition rfc_code :: "hmac \<Rightarrow> totp_algo \<Rightarrow> byte list \<Rightarrow> u64 \<Rightarrow> nat" where
  "rfc_code hm a key counter =
     (case hm (md_for_algo a) key (counter_bytes counter) of None \<Rightarrow> 0 | Some d \<Rightarrow> rfc_truncate d)"

subsection \<open>The counter's bytes\<close>

lemma be_nat_snoc [simp]: "be_nat (bs @ [b]) = 256 * be_nat bs + unat b"
  by (simp add: be_nat_def)

lemma length_counter_loop [simp]: "length (counter_loop i c msg) = length msg"
  by (induction i arbitrary: c msg) auto

lemma counter_loop_above: "i \<le> j \<Longrightarrow> counter_loop i c msg ! j = msg ! j"
  by (induction i arbitrary: c msg) auto

lemma low_byte: "unat (ucast (c AND 0xFF) :: byte) = unat (c :: u64) mod 256"
proof -
  have "unat (c AND 0xFF) = unat c mod 256"
    using unat_and_pow2_minus1[of c 8] by simp
  then show ?thesis by (simp add: unsigned_ucast_eq take_bit_eq_mod)
qed

lemma be_nat_counter_loop:
  "i \<le> length msg \<Longrightarrow> be_nat (take i (counter_loop i c msg)) = unat c mod 256 ^ i"
proof (induction i arbitrary: c msg)
  case 0
  then show ?case by (simp add: be_nat_def)
next
  case (Suc i)
  let ?m = "msg[i := ucast (c AND 0xFF)]"
  have "take (Suc i) (counter_loop (Suc i) c msg)
      = take i (counter_loop i (drop_bit 8 c) ?m) @ [ucast (c AND 0xFF)]"
    using Suc.prems by (simp add: take_Suc_conv_app_nth counter_loop_above)
  then have "be_nat (take (Suc i) (counter_loop (Suc i) c msg))
      = 256 * (unat (drop_bit 8 c) mod 256 ^ i) + unat c mod 256"
    using Suc.IH[of ?m "drop_bit 8 c"] Suc.prems by (simp add: low_byte)
  also have "\<dots> = 256 * (unat c div 256 mod 256 ^ i) + unat c mod 256"
    unfolding unsigned_drop_bit_eq
    using unat_u64_less[of c] by (simp add: drop_bit_eq_div take_bit_nat_eq_self)
  also have "\<dots> = unat c mod 256 ^ Suc i"
    by (simp add: mod_mult2_eq)
  finally show ?case .
qed

lemma counter_bytes_value: "length (counter_bytes c) = 8" "be_nat (counter_bytes c) = unat c"
  using be_nat_counter_loop[of 8 "replicate 8 0" c] unat_u64_less[of c]
  by (simp_all add: counter_bytes_def)

subsection \<open>Dynamic truncation\<close>

lemma or_push_nat:
  assumes "(y::nat) < 2 ^ n"
  shows "push_bit n x OR y = x * 2 ^ n + y"
proof -
  have "\<not> bit y m" if "n \<le> m" for m
  proof -
    from that have "(2::nat) ^ n \<le> 2 ^ m" by simp
    with assms have "y < 2 ^ m" by (rule less_le_trans)
    then show ?thesis by (simp add: bit_iff_odd)
  qed
  then have "push_bit n x + y = push_bit n x OR y"
    by (intro disjunctive_add) (auto simp: bit_push_bit_iff)
  then show ?thesis by (simp add: push_bit_eq_mult)
qed

lemma unat_ucast_byte: "unat (ucast (b :: byte) :: u32) = unat b"
  using unat_byte_less[of b] by (simp add: unsigned_ucast_eq take_bit_nat_eq_self)

lemma unat_push_byte:
  assumes "n \<le> 24"
  shows "unat (push_bit n (ucast (b :: byte)) :: u32) = push_bit n (unat b)"
proof -
  have "unat b * 2 ^ n < 2 ^ 8 * 2 ^ 24"
    using unat_byte_less[of b] assms by (intro mult_less_le_imp_less power_increasing) auto
  then show ?thesis
    unfolding unsigned_push_bit_eq unat_ucast_byte
    by (simp add: push_bit_eq_mult take_bit_nat_eq_self)
qed

lemma unat_join4:
  "unat (push_bit 24 (ucast (a :: byte)) OR push_bit 16 (ucast (b :: byte))
     OR push_bit 8 (ucast (c :: byte)) OR (ucast (d :: byte)) :: u32)
   = ((unat a * 256 + unat b) * 256 + unat c) * 256 + unat d"
proof -
  have lt: "unat a < 256" "unat b < 256" "unat c < 256" "unat d < 256"
    by (rule unat_byte_less)+
  have 1: "push_bit 24 (unat a) OR push_bit 16 (unat b) = push_bit 16 (unat a * 256 + unat b)"
    using lt by (subst or_push_nat) (simp_all add: push_bit_eq_mult algebra_simps)
  have 2: "push_bit 16 (unat a * 256 + unat b) OR push_bit 8 (unat c)
      = push_bit 8 ((unat a * 256 + unat b) * 256 + unat c)"
    using lt by (subst or_push_nat) (simp_all add: push_bit_eq_mult algebra_simps)
  have 3: "push_bit 8 ((unat a * 256 + unat b) * 256 + unat c) OR unat d
      = ((unat a * 256 + unat b) * 256 + unat c) * 256 + unat d"
    using lt by (subst or_push_nat) simp_all
  show ?thesis
    by (simp only: unsigned_or_eq unat_push_byte[of 24] unat_push_byte[of 16] unat_push_byte[of 8]
        unat_ucast_byte order_refl numeral_le_iff semiring_norm or.assoc[symmetric] 1 2 3)
qed

lemma take4: "i + 4 \<le> length xs \<Longrightarrow> take 4 (drop i xs) = [xs ! i, xs ! (i + 1), xs ! (i + 2), xs ! (i + 3)]"
  by (rule nth_equalityI) (auto simp: less_Suc_eq eval_nat_numeral)

lemma bin_code_correct:
  assumes "20 \<le> length d" and "length d \<le> 64"
  shows "\<exists>w. bin_code d = Inr w \<and> unat w = rfc_truncate d"
proof -
  define mac where "mac = d @ replicate (64 - length d) 0"
  define i where "i = unat (last d) mod 16"
  have ne: "d \<noteq> []" using assms(1) by auto
  have last: "mac ! (length d - Suc 0) = last d" using ne by (simp add: mac_def nth_append last_conv_nth)
  have off: "unat (last d AND 0x0F) = i"
    using unat_and_pow2_minus1[of "last d" 4] by (simp add: i_def)
  have i: "i + 4 \<le> length d" using assms(1) mod_less_divisor[of 16 "unat (last d)"] by (simp add: i_def)
  then have m: "mac ! i = d ! i" "mac ! (i + 1) = d ! (i + 1)" "mac ! (i + 2) = d ! (i + 2)"
    "mac ! (i + 3) = d ! (i + 3)" by (simp_all add: mac_def nth_append)
  have full: "b AND 0xFF = b" for b :: byte
    using unat_and_pow2_minus1[of b 8] unat_byte_less[of b] by (simp add: word_unat_eq_iff)
  have half: "unat (b AND 0x7F) = unat b mod 128" for b :: byte
    using unat_and_pow2_minus1[of b 7] by simp
  define w where "w = push_bit 24 (ucast (d ! i AND 0x7F)) OR push_bit 16 (ucast (d ! (i + 1)))
      OR push_bit 8 (ucast (d ! (i + 2))) OR (ucast (d ! (i + 3)) :: u32)"
  have "bin_code d = Inr w"
    using ne assms(2)
    by (simp add: bin_code_def Let_def mac_def[symmetric] last off m[simplified] w_def full)
  moreover have "unat w = ((unat (d ! i) mod 128 * 256 + unat (d ! (i + 1))) * 256
      + unat (d ! (i + 2))) * 256 + unat (d ! (i + 3))"
    unfolding w_def unat_join4 half ..
  moreover have "rfc_truncate d = (((unat (d ! i) * 256 + unat (d ! (i + 1))) * 256
      + unat (d ! (i + 2))) * 256 + unat (d ! (i + 3))) mod 2 ^ 31"
    using take4[OF i] by (simp add: rfc_truncate_def i_def[symmetric] be_nat_def mult.commute)
  moreover have "(((a * 256 + b) * 256 + c) * 256 + e) mod 2 ^ 31
      = ((a mod 128 * 256 + b) * 256 + c) * 256 + e" if "b < 256" "c < 256" "e < 256" for a b c e :: nat
  proof -
    define r where "r = a mod 128"
    define q where "q = a div 128"
    have a: "a = 128 * q + r" "r < 128" by (simp_all add: r_def q_def)
    have "((a * 256 + b) * 256 + c) * 256 + e
        = 2 ^ 31 * q + (((r * 256 + b) * 256 + c) * 256 + e)"
      unfolding a(1) by (simp add: algebra_simps)
    moreover have "((r * 256 + b) * 256 + c) * 256 + e < 2 ^ 31" using a(2) that by simp
    moreover have "(M * q + x) mod M = x" if "x < M" for M x :: nat using that by simp
    ultimately show ?thesis by (simp only: r_def[symmetric])
  qed
  ultimately show ?thesis by (auto simp: unat_byte_less)
qed

subsection \<open>Codes\<close>

lemma pow10_loop_eq: "pow10_loop i m = m * 10 ^ i"
  by (induction i arbitrary: m) (auto simp: mult.assoc power_commutes)

lemma unat_pow10: "k \<le> 9 \<Longrightarrow> unat (10 ^ k :: u32) = 10 ^ k"
proof -
  assume "k \<le> 9"
  then have "(10::nat) ^ k \<le> 10 ^ 9" by (intro power_increasing) auto
  then have "(10::nat) ^ k mod 2 ^ 32 = 10 ^ k" by simp
  then show ?thesis using unat_of_nat[where 'a = 32, of "10 ^ k"] by simp
qed

lemma md_size_bounds: "20 \<le> md_size a" "md_size a \<le> 64"
  by (cases a; simp)+

text \<open>Every call of \<open>hotp\<close> returns, with the truncated value reduced by the wrapped power of ten.\<close>

lemma hotp_wrapped:
  assumes "mac_ok hm" and "pow10_loop (nat d) 1 \<noteq> 0"
  shows "hotp hm key c d a =
    Inr (show_padded (nat d) (rfc_code hm a key c mod unat (pow10_loop (nat d) 1)))"
proof -
  obtain dg where dg: "hm (md_for_algo a) key (counter_bytes c) = Some dg" "length dg = md_size (md_for_algo a)"
    using assms(1) unfolding mac_ok_def by blast
  obtain w where "bin_code dg = Inr w" "unat w = rfc_truncate dg"
    using bin_code_correct[of dg] md_size_bounds[of "md_for_algo a"] dg(2) by auto
  with dg assms(2) show ?thesis
    by (simp add: hotp_def left_pad_int_def rfc_code_def Let_def unat_mod_distrib)
qed

lemma hotp_eq:
  assumes "mac_ok hm" and "6 \<le> d" and "d \<le> 9"
  shows "hotp hm key c d a = Inr (show_padded (nat d) (rfc_code hm a key c mod 10 ^ nat d))"
proof -
  have u: "unat (pow10_loop (nat d) 1) = 10 ^ nat d"
    using assms(3) by (simp add: pow10_loop_eq unat_pow10)
  then have "pow10_loop (nat d) 1 \<noteq> 0" by (metis power_not_zero unsigned_0 zero_neq_numeral)
  from hotp_wrapped[OF assms(1) this] u show ?thesis by simp
qed

lemma hotp_returns:
  assumes "mac_ok hm" and "6 \<le> d" and "d \<le> 10"
  shows "\<exists>s. hotp hm key c d a = Inr s"
proof (cases "d = 10")
  case True
  have "pow10_loop (nat 10) 1 \<noteq> 0" by (simp add: pow10_loop_eq)
  from hotp_wrapped[OF assms(1) this] True show ?thesis by auto
next
  case False
  with hotp_eq[OF assms(1,2)] assms(3) show ?thesis by auto
qed

lemma time_counter_value:
  assumes "0 < sint p"
  shows "\<exists>c. time_counter tp p = Inr c \<and> unat c = nat (max 0 (sint tp) div (10 ^ 9 * sint p))"
proof -
  define secs where "secs = max 0 (sint tp) div 10 ^ 9"
  have secs: "0 \<le> secs" "secs < 2 ^ 63"
    using sint_i64_range(2)[of tp] by (auto simp: secs_def)
  have cut: "(if 0 \<le> s then s else 0) = secs"
    if "s = (if 0 \<le> sint tp then sint tp div 10 ^ 9 else - (- sint tp div 10 ^ 9))" for s
    using that pos_imp_zdiv_nonneg_iff[of "10 ^ 9" "- sint tp"] by (auto simp: secs_def max_def)
  have p: "unat p = nat (sint p)"
    using unat_of_int_u64[of "sint p"] sint_i64_range(2)[of p] assms by simp
  have "unat ((of_int secs :: u64) div p) = nat secs div nat (sint p)"
    using unat_of_int_u64[of secs] secs by (simp add: unat_div_distrib p)
  also have "\<dots> = nat (secs div sint p)" using secs assms by (simp add: nat_div_distrib)
  also have "secs div sint p = max 0 (sint tp) div (10 ^ 9 * sint p)"
    using assms by (simp add: secs_def zdiv_zmult2_eq)
  finally have "unat ((of_int secs :: u64) div p) = nat (max 0 (sint tp) div (10 ^ 9 * sint p))" .
  moreover have "p \<noteq> 0" using assms by auto
  ultimately show ?thesis unfolding time_counter_def Let_def cut[OF refl] by simp
qed

lemma time_counter_small:
  assumes "0 < sint p" and "time_counter tp p = Inr c"
  shows "unat c \<le> 9223372036"
proof -
  have "max 0 (sint tp) div (10 ^ 9 * sint p) \<le> max 0 (sint tp) div 10 ^ 9"
    using assms(1) by (intro zdiv_mono2) auto
  also have "\<dots> \<le> 9223372036" using sint_i64_range(2)[of tp] by auto
  finally show ?thesis using time_counter_value[OF assms(1), of tp] assms(2) by auto
qed

subsection \<open>Verification\<close>

abbreviation code_of :: "hmac \<Rightarrow> totp \<Rightarrow> u64 \<Rightarrow> string res" where
  "code_of hm t c \<equiv> hotp hm (secret t) c (digits t) (algo t)"

lemma int_range_step:
  fixes w n :: int
  shows "(\<exists>v. w \<le> v \<and> v \<le> n \<and> P v) \<longleftrightarrow> w \<le> n \<and> (P w \<or> (\<exists>v. w + 1 \<le> v \<and> v \<le> n \<and> P v))"
    (is "?L \<longleftrightarrow> ?R")
proof
  assume ?L
  then obtain v where "w \<le> v" "v \<le> n" "P v" by blast
  then show ?R by (cases "v = w") (auto intro!: exI[of _ v])
next
  assume ?R
  then show ?L by (auto intro: exI[of _ w] add1_zle_eq[THEN iffD1, THEN less_imp_le])
qed

lemma verify_loop_steps:
  assumes "\<And>c. \<exists>s. code_of hm t c = Inr s" and "window < 2147483647"
  shows "verify_loop hm t code ctr window w = Inr (\<exists>v. w \<le> v \<and> v \<le> window
    \<and> (code_of hm t (ctr + of_int v) = Inr code
       \<or> of_int v \<le> ctr \<and> code_of hm t (ctr - of_int v) = Inr code))"
  using assms(2)
proof (induction hm\<equiv>hm t\<equiv>t code\<equiv>code ctr\<equiv>ctr window\<equiv>window w rule: verify_loop.induct)
  case (1 w)
  let ?hit = "\<lambda>v. code_of hm t (ctr + of_int v) = Inr code
       \<or> of_int v \<le> ctr \<and> code_of hm t (ctr - of_int v) = Inr code"
  obtain s where s: "code_of hm t (ctr + of_int w) = Inr s" using assms(1) by blast
  obtain d where d: "code_of hm t (ctr - of_int w) = Inr d" using assms(1) by blast
  have dec: "(\<exists>v. w \<le> v \<and> v \<le> window \<and> ?hit v)
      \<longleftrightarrow> w \<le> window \<and> (?hit w \<or> (\<exists>v. w + 1 \<le> v \<and> v \<le> window \<and> ?hit v))"
    by (rule int_range_step)
  show ?case
  proof (cases "w \<le> window \<and> \<not> ?hit w")
    case True
    then have "verify_loop hm t code ctr window w = verify_loop hm t code ctr window (w + 1)"
      using s d 1(2) by (subst verify_loop.simps) auto
    also have "\<dots> = Inr (\<exists>v. w + 1 \<le> v \<and> v \<le> window \<and> ?hit v)"
      using True s d 1 by (intro 1(1)[of s]) auto
    finally have "verify_loop hm t code ctr window w = Inr (\<exists>v. w + 1 \<le> v \<and> v \<le> window \<and> ?hit v)" .
    then show ?thesis unfolding dec using True by (simp only: simp_thms)
  next
    case False
    then show ?thesis unfolding dec using s d by (subst verify_loop.simps) auto
  qed
qed

lemma unat_window:
  assumes "unat (ctr :: u64) \<le> 9223372036" and "0 \<le> v" and "v < 2147483647"
  shows "ctr + of_int v = of_nat (unat ctr + nat v)"
    and "of_int v \<le> ctr \<longleftrightarrow> nat v \<le> unat ctr"
    and "nat v \<le> unat ctr \<Longrightarrow> ctr - of_int v = of_nat (unat ctr - nat v)"
proof -
  have v: "(of_int v :: u64) = of_nat (nat v)" using assms(2) by simp
  show "ctr + of_int v = of_nat (unat ctr + nat v)" by (simp add: v)
  have u: "unat (of_nat (nat v) :: u64) = nat v" using assms(3) by (intro unat_of_nat_u64) (simp add: nat_less_iff assms(2))
  show "of_int v \<le> ctr \<longleftrightarrow> nat v \<le> unat ctr" by (simp only: v word_le_nat_alt u)
  show "ctr - of_int v = of_nat (unat ctr - nat v)" if "nat v \<le> unat ctr"
  proof -
    have "ctr - of_nat (nat v) = of_nat (unat ctr) - of_nat (nat v)" by simp
    also have "\<dots> = of_nat (unat ctr - nat v)" using that by (rule of_nat_diff_word)
    finally show ?thesis by (simp only: v)
  qed
qed

lemma verify_steps:
  assumes "mac_ok hm" and "6 \<le> digits t" and "digits t \<le> 10" and "0 < sint (period t)"
    and "window < 2147483647"
  shows "\<exists>ctr. time_counter tp (period t) = Inr ctr \<and> verify hm t code tp window =
    Inr (\<exists>c::nat. \<bar>int c - int (unat ctr)\<bar> \<le> max 0 window \<and> code_of hm t (of_nat c) = Inr code)"
proof -
  have total: "\<exists>s. code_of hm t c = Inr s" for c using hotp_returns[OF assms(1-3)] .
  obtain ctr where ctr: "time_counter tp (period t) = Inr ctr"
    using time_counter_value[OF assms(4)] by blast
  have small: "unat ctr \<le> 9223372036" using time_counter_small[OF assms(4) ctr] .
  obtain s where s: "code_of hm t ctr = Inr s" using total by blast
  let ?P = "\<lambda>c::nat. \<bar>int c - int (unat ctr)\<bar> \<le> max 0 window \<and> code_of hm t (of_nat c) = Inr code"
  let ?hit = "\<lambda>v. code_of hm t (ctr + of_int v) = Inr code
       \<or> of_int v \<le> ctr \<and> code_of hm t (ctr - of_int v) = Inr code"
  have "verify hm t code tp window = Inr (s = code \<or> (\<exists>v. 1 \<le> v \<and> v \<le> window \<and> ?hit v))"
    using verify_loop_steps[OF total assms(5), of code ctr 1]
    by (simp add: verify_def code_at_def ctr s)
  moreover have "(\<exists>c. ?P c) \<longleftrightarrow> s = code \<or> (\<exists>v. 1 \<le> v \<and> v \<le> window \<and> ?hit v)"
  proof
    assume "\<exists>c. ?P c"
    then obtain c where c: "\<bar>int c - int (unat ctr)\<bar> \<le> max 0 window" "code_of hm t (of_nat c) = Inr code"
      by blast
    define v where "v = \<bar>int c - int (unat ctr)\<bar>"
    show "s = code \<or> (\<exists>v. 1 \<le> v \<and> v \<le> window \<and> ?hit v)"
    proof (cases "v = 0")
      case True
      then have "c = unat ctr" unfolding v_def by linarith
      then show ?thesis using c s by simp
    next
      case False
      then have v: "1 \<le> v" "v \<le> window" "v < 2147483647" using c assms(5) by (auto simp: v_def)
      have "c = unat ctr + nat v \<or> nat v \<le> unat ctr \<and> c = unat ctr - nat v"
        unfolding v_def by linarith
      then have "?hit v" using c(2) v unat_window[OF small, of v] by auto
      with v show ?thesis by blast
    qed
  next
    assume "s = code \<or> (\<exists>v. 1 \<le> v \<and> v \<le> window \<and> ?hit v)"
    then show "\<exists>c. ?P c"
    proof (elim disjE exE conjE)
      assume "s = code"
      then show ?thesis using s by (intro exI[of _ "unat ctr"]) simp
    next
      fix v assume v: "1 \<le> v" "v \<le> window" "code_of hm t (ctr + of_int v) = Inr code"
      then have ge: "0 \<le> v" by simp
      then have "int (unat ctr + nat v) - int (unat ctr) = v" by linarith
      moreover have "code_of hm t (of_nat (unat ctr + nat v)) = Inr code"
        using v(3) unat_window(1)[OF small ge le_less_trans[OF v(2) assms(5)]] by (simp only:)
      moreover have "\<bar>v\<bar> \<le> max 0 window" using v(1,2) by simp
      ultimately show ?thesis by metis
    next
      fix v assume v: "1 \<le> v" "v \<le> window" "of_int v \<le> ctr" "code_of hm t (ctr - of_int v) = Inr code"
      then have le: "nat v \<le> unat ctr" "0 \<le> v" using unat_window(2)[OF small, of v] assms(5) by simp_all
      then have "int (unat ctr - nat v) - int (unat ctr) = - v" by linarith
      moreover have "code_of hm t (of_nat (unat ctr - nat v)) = Inr code"
        using v(4) unat_window(3)[OF small le(2) le_less_trans[OF v(2) assms(5)] le(1)] by (simp only:)
      moreover have "\<bar>- v\<bar> \<le> max 0 window" using v(1,2) by simp
      ultimately show ?thesis by metis
    qed
  qed
  ultimately show ?thesis using ctr by auto
qed

subsection \<open>Properties\<close>

text \<open>
  C27. RFC 4226: with a hash that returns digests of its size, and 6 to 9 digits, \<open>hotp\<close>
  returns; the message it hashes is the counter's eight bytes, most significant first, and the
  code has the requested number of decimal digits and denotes the truncated digest modulo the
  power of ten.
\<close>

theorem hotp_rfc4226:
  assumes "mac_ok hm" and "6 \<le> d" and "d \<le> 9"
  shows "length (counter_bytes c) = 8 \<and> be_nat (counter_bytes c) = unat c
    \<and> (\<exists>dg s. hm (md_for_algo a) key (counter_bytes c) = Some dg \<and> hotp hm key c d a = Inr s
        \<and> length s = nat d \<and> (\<forall>ch \<in> set s. is_digit ch)
        \<and> digits_value s = int (rfc_truncate dg mod 10 ^ nat d))"
proof -
  obtain dg where dg: "hm (md_for_algo a) key (counter_bytes c) = Some dg"
    using assms(1) unfolding mac_ok_def by blast
  let ?s = "show_padded (nat d) (rfc_truncate dg mod 10 ^ nat d)"
  have "hotp hm key c d a = Inr ?s" using hotp_eq[OF assms] dg by (simp add: rfc_code_def)
  moreover have "length ?s = nat d" using assms(2) by (intro length_show_padded) auto
  ultimately show ?thesis
    using dg counter_bytes_value[of c] show_padded_digits show_padded_value by blast
qed

definition sample_digest :: "byte list" where
  "sample_digest = [0xcc, 0x93, 0xcf, 0x18, 0x50, 0x8d, 0x94, 0x93, 0x4c, 0x64,
     0xb6, 0x5d, 0x8b, 0xa7, 0x66, 0x7f, 0xb7, 0xcd, 0xe4, 0xb0]"

text \<open>The digest of the first test vector of RFC 4226, in the form a hash of each size returns it.\<close>

definition sample_mac :: hmac where
  "sample_mac a k m = Some (replicate (md_size a - 20) 0 @ sample_digest)"

lemma sample_mac_ok: "mac_ok sample_mac"
proof -
  have "length (replicate (md_size a - 20) 0 @ sample_digest) = md_size a" for a
    by (cases a) (simp_all add: sample_digest_def)
  then show ?thesis by (simp add: mac_ok_def sample_mac_def)
qed

lemma sample_truncate: "rfc_truncate sample_digest = 1284755224"
  by (simp add: rfc_truncate_def sample_digest_def be_nat_def)

theorem hotp_rfc4226_witness:
  "\<exists>s. hotp sample_mac [] 0 6 SHA1 = Inr s \<and> length s = 6 \<and> digits_value s = 755224"
  using hotp_rfc4226[OF sample_mac_ok, of 6 0 SHA1 "[]"]
  by (auto simp: sample_mac_def sample_truncate)

text \<open>
  Ten digits, which the constructor accepts, are not RFC 4226: the power of ten wraps to
  1410065408 in 32 bits, so a truncated digest of at least that value gets a code that is not
  its decimal form.
\<close>

lemma hotp_ten_digits:
  assumes "mac_ok hm"
  shows "\<exists>dg. hm (md_for_algo a) key (counter_bytes c) = Some dg
    \<and> hotp hm key c 10 a = Inr (show_padded 10 (rfc_truncate dg mod 1410065408))
    \<and> (hotp hm key c 10 a = Inr (show_padded 10 (rfc_truncate dg mod 10 ^ 10))
       \<longleftrightarrow> rfc_truncate dg < 1410065408)"
proof -
  obtain dg where dg: "hm (md_for_algo a) key (counter_bytes c) = Some dg"
    using assms(1) unfolding mac_ok_def by blast
  have p: "pow10_loop (nat 10) 1 = 1410065408" by (simp add: pow10_loop_eq)
  have h: "hotp hm key c 10 a = Inr (show_padded 10 (rfc_truncate dg mod 1410065408))"
    using hotp_wrapped[OF assms, of 10 key c a] dg unfolding p by (simp add: rfc_code_def)
  have lt: "rfc_truncate dg < 2 ^ 31" unfolding rfc_truncate_def by (rule mod_less_divisor) simp
  then have m: "rfc_truncate dg mod 10 ^ 10 = rfc_truncate dg" by simp
  have iff: "x mod k = x \<longleftrightarrow> x < k" if "0 < k" for x k :: nat
    using that mod_less_divisor[of k x] by (auto simp del: mod_less_divisor)
  have e: "rfc_truncate dg mod 1410065408 = rfc_truncate dg \<longleftrightarrow> rfc_truncate dg < 1410065408"
    by (rule iff) simp
  show ?thesis
  proof (intro exI conjI)
    show "hotp hm key c 10 a = Inr (show_padded 10 (rfc_truncate dg mod 10 ^ 10))
        \<longleftrightarrow> rfc_truncate dg < 1410065408"
      unfolding h m by (simp only: sum.inject show_padded_inj e)
  qed (rule dg h)+
qed

definition high_mac :: hmac where
  "high_mac a k m = Some (0x77 # 0x35 # 0x94 # 0x00 # replicate (md_size a - 4) 0)"

lemma hotp_ten_digits_witness:
  "hotp high_mac [] 0 10 SHA1 = Inr (show_padded 10 589934592)
    \<and> hotp high_mac [] 0 10 SHA1 \<noteq> Inr (show_padded 10 2000000000)"
proof -
  have "length (0x77 # 0x35 # 0x94 # 0x00 # replicate (md_size a - 4) (0 :: byte)) = md_size a" for a
    by (cases a) simp_all
  then have ok: "mac_ok high_mac" by (simp add: mac_ok_def high_mac_def)
  have "rfc_truncate (0x77 # 0x35 # 0x94 # 0x00 # replicate 16 0) = 2000000000"
    by (simp add: rfc_truncate_def be_nat_def last_replicate)
  with hotp_ten_digits[OF ok, of SHA1 "[]" 0] show ?thesis by (simp add: high_mac_def)
qed

text \<open>
  The code shown at a time is the code of the counter
  \<open>max 0 t div (10 ^ 9 * period)\<close>, so all instants of one period show one code, and every
  instant before the epoch shows the code of counter 0.
\<close>

lemma code_at_step:
  assumes "0 < sint (period t)"
  shows "code_at hm t tp = hotp hm (secret t)
      (of_nat (nat (max 0 (sint tp) div (10 ^ 9 * sint (period t))))) (digits t) (algo t)"
proof -
  obtain c where c: "time_counter tp (period t) = Inr c"
    "unat c = nat (max 0 (sint tp) div (10 ^ 9 * sint (period t)))"
    using time_counter_value[OF assms] by blast
  show ?thesis unfolding code_at_def c(1) c(2)[symmetric] by simp
qed

lemma code_at_step_witness:
  "code_at sample_mac \<lparr>secret = [], digits = 6, period = 30, algo = SHA1\<rparr> 59000000000
    = hotp sample_mac [] 1 6 SHA1"
  using code_at_step[of "\<lparr>secret = [], digits = 6, period = 30, algo = SHA1\<rparr>" sample_mac 59000000000]
  by simp

text \<open>
  C28. For every object the constructor accepts and every window below the largest \<open>int\<close>,
  \<open>verify\<close> returns, and says yes exactly when the text is the code of a counter at most
  \<open>window\<close> steps from the current one (never of a negative counter, nor of one that wrapped).
\<close>

theorem verify_window:
  assumes "mac_ok hm" and "totp_new s d p a = Inr t" and "window < 2147483647"
  shows "\<exists>ctr. time_counter tp p = Inr ctr \<and> verify hm t code tp window =
    Inr (\<exists>c::nat. \<bar>int c - int (unat ctr)\<bar> \<le> max 0 window
      \<and> hotp hm (secret t) (of_nat c) d a = Inr code)"
proof -
  have "base32_decode s = Inr (secret t)" "digits t = d" "period t = p" "algo t = a"
    "6 \<le> d" "d \<le> 10" "0 < sint p"
    using assms(2) by (auto simp: totp_new_def bindE_Inr_iff split: if_splits)
  with verify_steps[OF assms(1), of t window tp code] assms(3) show ?thesis by simp
qed

theorem verify_window_witness:
  "verify sample_mac \<lparr>secret = [], digits = 6, period = 30, algo = SHA1\<rparr> ''755224'' 59000000000 1
    = Inr True"
proof -
  have "totp_new '''' 6 30 SHA1 = Inr \<lparr>secret = [], digits = 6, period = 30, algo = SHA1\<rparr>"
    using totp_default_eq[of "''''"] by (simp add: totp_default_def base32_decode_def b32_normalise_def)
  from verify_window[OF sample_mac_ok this, of 1 59000000000 "''755224''"] obtain ctr where
    ctr: "time_counter 59000000000 30 = Inr ctr"
    and v: "verify sample_mac \<lparr>secret = [], digits = 6, period = 30, algo = SHA1\<rparr> ''755224'' 59000000000 1
      = Inr (\<exists>c::nat. \<bar>int c - int (unat ctr)\<bar> \<le> max 0 1 \<and> hotp sample_mac [] (of_nat c) 6 SHA1 = Inr ''755224'')"
    by auto
  have "unat ctr = 1" using time_counter_value[of 30 59000000000] ctr by simp
  moreover have "hotp sample_mac [] (of_nat 1) 6 SHA1 = Inr ''755224''"
    using hotp_eq[OF sample_mac_ok, of 6 "[]" "of_nat 1" SHA1]
    by (simp add: rfc_code_def sample_mac_def sample_truncate show_padded_def show_nat.simps
        digit_char_def char_of_def bit_0)
  ultimately show ?thesis unfolding v by (intro arg_cong[where f = Inr]) (auto intro!: exI[of _ 1])
qed

end
