(* ===== verification/Subscription_Manager.thy ===== *)
theory Subscription_Manager
  imports Json Slicing "HOL-Library.List_Lexorder" "HOL-Library.Char_ord"
begin

text \<open>
  \<open>SubscriptionManager\<close> (\<open>include/subscription_manager.h\<close>, \<open>src/subscription_manager.cpp\<close>):
  the set of tokens wanted, the set the server has acknowledged, and the payloads that bring
  the second to the first. The order in which an \<open>unordered_set\<close> is iterated is unspecified:
  it is an argument of every operation that iterates one, and the properties hold for all of
  them. Each public operation on the sets holds the mutex throughout, so it is one step.
\<close>

subsection \<open>Data and operations\<close>

datatype sub_mode = LTP | QUOTE | FULL

record sub_manager =
  mode :: sub_mode
  batch_size :: u64
  token_formatter :: "(string \<Rightarrow> string) option"
  desired :: "string set"
  active :: "string set"

type_synonym set_order = "string set \<Rightarrow> string list"

definition sm_new :: "sub_mode \<Rightarrow> u64 \<Rightarrow> (string \<Rightarrow> string) option \<Rightarrow> sub_manager" where
  "sm_new md n fmt = \<lparr>mode = md, batch_size = (if n \<noteq> 0 then n else 100), token_formatter = fmt,
     desired = {}, active = {}\<rparr>"

definition sm_add :: "string \<Rightarrow> sub_manager \<Rightarrow> sub_manager" where
  "sm_add t m = m\<lparr>desired := insert t (desired m)\<rparr>"

definition add_many :: "string list \<Rightarrow> sub_manager \<Rightarrow> sub_manager" where
  "add_many ts m = m\<lparr>desired := fold insert ts (desired m)\<rparr>"

definition sm_remove :: "string \<Rightarrow> sub_manager \<Rightarrow> sub_manager" where
  "sm_remove t m = m\<lparr>desired := desired m - {t}\<rparr>"

definition sm_clear :: "sub_manager \<Rightarrow> sub_manager" where
  "sm_clear m = m\<lparr>desired := {}\<rparr>"

definition set_mode :: "sub_mode \<Rightarrow> sub_manager \<Rightarrow> sub_manager" where
  "set_mode md m = m\<lparr>mode := md\<rparr>"

definition set_batch_size :: "u64 \<Rightarrow> sub_manager \<Rightarrow> sub_manager" where
  "set_batch_size n m = m\<lparr>batch_size := (if n \<noteq> 0 then n else 100)\<rparr>"

definition set_token_formatter :: "(string \<Rightarrow> string) option \<Rightarrow> sub_manager \<Rightarrow> sub_manager" where
  "set_token_formatter fmt m = m\<lparr>token_formatter := fmt\<rparr>"

definition mark_subscribed :: "string list \<Rightarrow> sub_manager \<Rightarrow> sub_manager" where
  "mark_subscribed ts m = m\<lparr>active := fold insert ts (active m)\<rparr>"

definition mark_unsubscribed :: "string list \<Rightarrow> sub_manager \<Rightarrow> sub_manager" where
  "mark_unsubscribed ts m = m\<lparr>active := fold (\<lambda>t s. s - {t}) ts (active m)\<rparr>"

definition desired_snapshot :: "set_order \<Rightarrow> sub_manager \<Rightarrow> string list" where
  "desired_snapshot order m = order (desired m)"

definition active_snapshot :: "set_order \<Rightarrow> sub_manager \<Rightarrow> string list" where
  "active_snapshot order m = order (active m)"

definition diff_desired_minus_active :: "set_order \<Rightarrow> sub_manager \<Rightarrow> string list" where
  "diff_desired_minus_active order m = filter (\<lambda>t. t \<notin> active m) (order (desired m))"

definition diff_active_minus_desired :: "set_order \<Rightarrow> sub_manager \<Rightarrow> string list" where
  "diff_active_minus_desired order m = filter (\<lambda>t. t \<notin> desired m) (order (active m))"

fun mode_string :: "sub_mode \<Rightarrow> string" where
  "mode_string LTP = ''ltp''"
| "mode_string QUOTE = ''quote''"
| "mode_string FULL = ''full''"

definition fmt_token :: "sub_manager \<Rightarrow> string \<Rightarrow> string" where
  "fmt_token m t = (case token_formatter m of Some f \<Rightarrow> f t | None \<Rightarrow> t)"

text \<open>The JSON object of one payload; the library keeps the keys of an object sorted.\<close>

definition payload_json :: "sub_manager \<Rightarrow> string list \<Rightarrow> bool \<Rightarrow> 'd json" where
  "payload_json m batch subscribe = JObject
     [(''action'', JString (if subscribe then ''subscribe'' else ''unsubscribe'')),
      (''mode'', JString (mode_string (mode m))),
      (''tokens'', JArray (map (\<lambda>t. JString (fmt_token m t)) batch))]"

definition build_payload :: "'d runtime \<Rightarrow> sub_manager \<Rightarrow> string list \<Rightarrow> bool \<Rightarrow> string res" where
  "build_payload rt m batch subscribe = dump_json rt (payload_json m batch subscribe)"

text \<open>\<open>make_batches\<close> reads only the member \<open>batch_size_\<close>, its first argument here.\<close>

definition make_batches :: "u64 \<Rightarrow> string list \<Rightarrow> string list list res" where
  "make_batches bsize items =
     (if items = [] then Inr []
      else slice_loop (Suc (length items)) items (if bsize \<noteq> 0 then bsize else 100) 0)"

definition build_subscribe_batches ::
  "'d runtime \<Rightarrow> set_order \<Rightarrow> sub_manager \<Rightarrow> string list res" where
  "build_subscribe_batches rt order m =
     bindE (make_batches (batch_size m) (diff_desired_minus_active order m))
       (mapE (\<lambda>b. build_payload rt m b True))"

definition build_unsubscribe_batches ::
  "'d runtime \<Rightarrow> set_order \<Rightarrow> sub_manager \<Rightarrow> string list res" where
  "build_unsubscribe_batches rt order m =
     bindE (make_batches (batch_size m) (diff_active_minus_desired order m))
       (mapE (\<lambda>b. build_payload rt m b False))"

text \<open>Sequences of calls.\<close>

datatype sm_call =
    Add string | Add_many "string list" | Remove string | Clear
  | Set_mode sub_mode | Set_batch_size u64 | Set_formatter "(string \<Rightarrow> string) option"
  | Ack_subscribed "string list" | Ack_unsubscribed "string list"

fun sm_apply :: "sm_call \<Rightarrow> sub_manager \<Rightarrow> sub_manager" where
  "sm_apply (Add t) m = sm_add t m"
| "sm_apply (Add_many ts) m = add_many ts m"
| "sm_apply (Remove t) m = sm_remove t m"
| "sm_apply Clear m = sm_clear m"
| "sm_apply (Set_mode md) m = set_mode md m"
| "sm_apply (Set_batch_size n) m = set_batch_size n m"
| "sm_apply (Set_formatter f) m = set_token_formatter f m"
| "sm_apply (Ack_subscribed ts) m = mark_subscribed ts m"
| "sm_apply (Ack_unsubscribed ts) m = mark_unsubscribed ts m"

subsection \<open>Invariant\<close>

definition sm_inv :: "sub_manager \<Rightarrow> bool" where
  "sm_inv m \<longleftrightarrow> batch_size m \<noteq> 0 \<and> finite (desired m) \<and> finite (active m)"

text \<open>An iteration visits each element of the set once.\<close>

definition order_ok :: "set_order \<Rightarrow> bool" where
  "order_ok order \<longleftrightarrow> (\<forall>S. finite S \<longrightarrow> distinct (order S) \<and> set (order S) = S)"

lemma fold_insert_set: "fold insert ts S = set ts \<union> S"
  by (induction ts arbitrary: S) auto

lemma fold_remove_set: "fold (\<lambda>t s. s - {t}) ts S = S - set ts"
  by (induction ts arbitrary: S) auto

lemmas sm_ops = sm_add_def add_many_def sm_remove_def sm_clear_def set_mode_def set_batch_size_def
  set_token_formatter_def mark_subscribed_def mark_unsubscribed_def fold_insert_set fold_remove_set

lemma sm_new_inv: "sm_inv (sm_new md n fmt)"
  by (simp add: sm_inv_def sm_new_def)

lemma sm_apply_inv: "sm_inv m \<Longrightarrow> sm_inv (sm_apply c m)"
  by (cases c) (auto simp: sm_inv_def sm_ops)

lemma sm_calls_inv: "sm_inv m \<Longrightarrow> sm_inv (fold sm_apply cs m)"
  by (induction cs arbitrary: m) (auto simp: sm_apply_inv)

lemma diff_props:
  assumes "order_ok order" and "sm_inv m"
  shows "distinct (diff_desired_minus_active order m)"
    and "set (diff_desired_minus_active order m) = desired m - active m"
    and "distinct (diff_active_minus_desired order m)"
    and "set (diff_active_minus_desired order m) = active m - desired m"
  using assms by (auto simp: diff_desired_minus_active_def diff_active_minus_desired_def
      sm_inv_def order_ok_def)

subsection \<open>Batches\<close>

interpretation batches: slicer make_batches "\<lambda>n. if n = 0 then 100 else unat n"
proof unfold_locales
  fix xs :: "string list" and n :: u64
  assume "length xs \<le> 2 ^ 63"
  then show "make_batches n xs = Inr (chunks (if n = 0 then 100 else unat n) xs)"
    using slice_loop_chunks[of xs n] slice_loop_chunks[of xs 100]
    by (simp add: make_batches_def)
qed (simp add: unat_gt_0)

text \<open>What the payloads of a list of tokens are, and that they can be built.\<close>

definition batches_of :: "sub_manager \<Rightarrow> string list \<Rightarrow> string list list" where
  "batches_of m ts = chunks (unat (batch_size m)) ts"

lemma make_batches_of:
  "sm_inv m \<Longrightarrow> length ts \<le> 2 ^ 63 \<Longrightarrow> make_batches (batch_size m) ts = Inr (batches_of m ts)"
  using batches.slice_chunks[of ts "batch_size m"] by (simp add: batches_of_def sm_inv_def)

lemma batches_of_props:
  assumes "sm_inv m"
  shows "concat (batches_of m ts) = ts"
    and "b \<in> set (batches_of m ts) \<Longrightarrow> b \<noteq> [] \<and> length b \<le> unat (batch_size m)"
    and "length (batches_of m ts) = (length ts + unat (batch_size m) - 1) div unat (batch_size m)"
proof -
  have pos: "0 < unat (batch_size m)" using assms by (simp add: sm_inv_def unat_gt_0)
  show "concat (batches_of m ts) = ts"
    "length (batches_of m ts) = (length ts + unat (batch_size m) - 1) div unat (batch_size m)"
    using pos by (simp_all add: batches_of_def concat_chunks length_chunks)
  show "b \<in> set (batches_of m ts) \<Longrightarrow> b \<noteq> [] \<and> length b \<le> unat (batch_size m)"
    unfolding batches_of_def by (rule chunks_sizes)
qed

lemma build_batches:
  assumes "order_ok order" and "sm_inv m"
  shows "card (desired m - active m) \<le> 2 ^ 63 \<Longrightarrow> build_subscribe_batches rt order m =
      mapE (\<lambda>b. build_payload rt m b True) (batches_of m (diff_desired_minus_active order m))"
    and "card (active m - desired m) \<le> 2 ^ 63 \<Longrightarrow> build_unsubscribe_batches rt order m =
      mapE (\<lambda>b. build_payload rt m b False) (batches_of m (diff_active_minus_desired order m))"
  using diff_props[OF assms] make_batches_of[OF assms(2)]
  by (simp_all add: build_subscribe_batches_def build_unsubscribe_batches_def distinct_card[symmetric])

lemma batch_cover:
  assumes "sm_inv m" and "distinct ts"
  shows "distinct (concat (batches_of m ts)) \<and> set (concat (batches_of m ts)) = set ts
    \<and> (\<forall>b \<in> set (batches_of m ts). b \<noteq> [] \<and> length b \<le> unat (batch_size m))
    \<and> length (batches_of m ts) = (card (set ts) + unat (batch_size m) - 1) div unat (batch_size m)"
  using batches_of_props[OF assms(1)] assms(2) by (simp add: distinct_card)

subsection \<open>Properties\<close>

text \<open>
  C14. After any sequence of calls on a new manager, the subscribe payloads are built from
  batches that contain each token wanted and not yet acknowledged exactly once and no other,
  the unsubscribe payloads likewise for the tokens acknowledged and no longer wanted; no batch
  is empty or longer than the batch size, and there are no more batches than needed.
\<close>

theorem batches_cover:
  assumes "order_ok order" and "m = fold sm_apply cs (sm_new md n fmt)"
    and "card (desired m - active m) \<le> 2 ^ 63" and "card (active m - desired m) \<le> 2 ^ 63"
  shows "\<exists>sub unsub.
      build_subscribe_batches rt order m = mapE (\<lambda>b. dump_json rt (payload_json m b True)) sub
    \<and> build_unsubscribe_batches rt order m = mapE (\<lambda>b. dump_json rt (payload_json m b False)) unsub
    \<and> distinct (concat sub) \<and> set (concat sub) = desired m - active m
    \<and> distinct (concat unsub) \<and> set (concat unsub) = active m - desired m
    \<and> (\<forall>b \<in> set (sub @ unsub). b \<noteq> [] \<and> length b \<le> unat (batch_size m))
    \<and> length sub = (card (desired m - active m) + unat (batch_size m) - 1) div unat (batch_size m)
    \<and> length unsub = (card (active m - desired m) + unat (batch_size m) - 1) div unat (batch_size m)"
proof -
  have inv: "sm_inv m" unfolding assms(2) by (intro sm_calls_inv sm_new_inv)
  note d = diff_props[OF assms(1) inv]
  note build = build_batches[OF assms(1) inv, of rt, unfolded build_payload_def]
  note cover = batch_cover[OF inv d(1), unfolded d(2)] batch_cover[OF inv d(3), unfolded d(4)]
  show ?thesis
    by (rule exI[of _ "batches_of m (diff_desired_minus_active order m)"],
        rule exI[of _ "batches_of m (diff_active_minus_desired order m)"])
       (use cover in \<open>simp only: build(1)[OF assms(3)] build(2)[OF assms(4)] set_append ball_Un simp_thms\<close>, blast)
qed

lemma sorted_order_ok: "order_ok sorted_list_of_set"
  by (simp add: order_ok_def)

theorem batches_cover_witness:
  "\<exists>sub. build_subscribe_batches silent_runtime sorted_list_of_set
        (sm_apply (Add_many [''A'', ''B'', ''C'']) (sm_new LTP 2 None))
      = mapE (\<lambda>b. dump_json silent_runtime (payload_json
          (sm_apply (Add_many [''A'', ''B'', ''C'']) (sm_new LTP 2 None)) b True)) sub
    \<and> set (concat sub) = {''A'', ''B'', ''C''} \<and> length sub = 2"
proof -
  let ?m = "sm_apply (Add_many [''A'', ''B'', ''C'']) (sm_new LTP 2 None)"
  have m: "desired ?m = {''A'', ''B'', ''C''}" "active ?m = {}" "batch_size ?m = 2"
    by (auto simp: sm_ops sm_new_def)
  have "?m = fold sm_apply [Add_many [''A'', ''B'', ''C'']] (sm_new LTP 2 None)" by simp
  from batches_cover[OF sorted_order_ok this, of silent_runtime, unfolded m]
  obtain sub where "build_subscribe_batches silent_runtime sorted_list_of_set ?m
      = mapE (\<lambda>b. dump_json silent_runtime (payload_json ?m b True)) sub"
    "set (concat sub) = {''A'', ''B'', ''C''} - {}"
    "length sub = (card ({''A'', ''B'', ''C''} - {}) + unat (2 :: u64) - 1) div unat (2 :: u64)"
    by auto
  then show ?thesis by (intro exI[of _ sub]) simp
qed

text \<open>What a sequence of acknowledgements names, and its effect.\<close>

fun acked_subs :: "sm_call \<Rightarrow> string set" where
  "acked_subs (Ack_subscribed ts) = set ts"
| "acked_subs _ = {}"

fun acked_unsubs :: "sm_call \<Rightarrow> string set" where
  "acked_unsubs (Ack_unsubscribed ts) = set ts"
| "acked_unsubs _ = {}"

fun is_ack :: "sm_call \<Rightarrow> bool" where
  "is_ack (Ack_subscribed ts) = True"
| "is_ack (Ack_unsubscribed ts) = True"
| "is_ack _ = False"

lemma acks_effect:
  assumes "list_all is_ack as" and "\<Union> (acked_subs ` set as) \<inter> \<Union> (acked_unsubs ` set as) = {}"
  shows "desired (fold sm_apply as m) = desired m
    \<and> active (fold sm_apply as m) = active m \<union> \<Union> (acked_subs ` set as) - \<Union> (acked_unsubs ` set as)"
  using assms
proof (induction as arbitrary: m)
  case (Cons a as)
  from Cons.prems have "list_all is_ack as" "\<Union> (acked_subs ` set as) \<inter> \<Union> (acked_unsubs ` set as) = {}"
    by auto
  note IH = Cons.IH[OF this, of "sm_apply a m"]
  show ?case
  proof (cases a)
    case (Ack_subscribed ts)
    with IH Cons.prems(2) show ?thesis by (auto simp: sm_ops)
  next
    case (Ack_unsubscribed ts)
    with IH Cons.prems(2) show ?thesis by (auto simp: sm_ops)
  qed (use Cons.prems(1) in simp_all)
qed simp

text \<open>
  C15. Convergence: let the server acknowledge the tokens of the pending subscribe and
  unsubscribe payloads, and no others, in any number of acknowledgements of either kind, with
  any grouping, order and repetition. Then the acknowledged set becomes the wanted one and no
  payload is left to send.
\<close>

theorem acks_converge:
  assumes "order_ok order" and "m = fold sm_apply cs (sm_new md n fmt)"
    and "list_all is_ack acks"
    and "\<Union> (acked_subs ` set acks) = set (diff_desired_minus_active order m)"
    and "\<Union> (acked_unsubs ` set acks) = set (diff_active_minus_desired order m)"
    and "m' = fold sm_apply acks m"
  shows "active m' = desired m \<and> desired m' = desired m
    \<and> build_subscribe_batches rt order m' = Inr [] \<and> build_unsubscribe_batches rt order m' = Inr []"
proof -
  have inv: "sm_inv m" unfolding assms(2) by (intro sm_calls_inv sm_new_inv)
  note d = diff_props[OF assms(1) inv]
  have s: "\<Union> (acked_subs ` set acks) = desired m - active m"
    "\<Union> (acked_unsubs ` set acks) = active m - desired m"
    using assms(4,5) d(2,4) by simp_all
  then have "\<Union> (acked_subs ` set acks) \<inter> \<Union> (acked_unsubs ` set acks) = {}" by blast
  from acks_effect[OF assms(3) this, of m] have a: "active m' = desired m" and e: "desired m' = desired m"
    unfolding assms(6) s by auto
  have i: "sm_inv m'" using inv by (simp add: assms(6) sm_calls_inv)
  note d' = diff_props[OF assms(1) i]
  have "diff_desired_minus_active order m' = []" "diff_active_minus_desired order m' = []"
    using d'(2,4) a e by auto
  then have "build_subscribe_batches rt order m' = Inr []" "build_unsubscribe_batches rt order m' = Inr []"
    by (simp_all add: build_subscribe_batches_def build_unsubscribe_batches_def make_batches_def)
  with a e show ?thesis by blast
qed

theorem acks_converge_witness:
  "active (fold sm_apply [Ack_subscribed [''A''], Ack_unsubscribed [''D''], Ack_subscribed [''B'', ''A'']]
     (fold sm_apply [Ack_subscribed [''D''], Add_many [''A'', ''B'']] (sm_new LTP 2 None))) = {''A'', ''B''}"
proof -
  let ?m = "fold sm_apply [Ack_subscribed [''D''], Add_many [''A'', ''B'']] (sm_new LTP 2 None)"
  let ?acks = "[Ack_subscribed [''A''], Ack_unsubscribed [''D''], Ack_subscribed [''B'', ''A'']]"
  have m: "desired ?m = {''A'', ''B''}" "active ?m = {''D''}" by (auto simp: sm_ops sm_new_def)
  have i: "sm_inv ?m" by (intro sm_calls_inv sm_new_inv)
  have "\<Union> (acked_subs ` set ?acks) = set (diff_desired_minus_active sorted_list_of_set ?m)"
    "\<Union> (acked_unsubs ` set ?acks) = set (diff_active_minus_desired sorted_list_of_set ?m)"
    by (simp_all only: diff_props[OF sorted_order_ok i] m) auto
  from acks_converge[OF sorted_order_ok refl _ this refl, of silent_runtime] m(1)
  show ?thesis by simp
qed

end
