(* ===== verification/Header_Fields.thy ===== *)
theory Header_Fields
  imports Ltp_Store "HOL-Library.List_Lexorder" "HOL-Library.Char_ord"
begin

text \<open>
  Header fields, as the HTTP and the WebSocket client both set them: from a \<open>std::map\<close> of strings,
  whose keys are compared exactly, into the fields of a request, whose names are compared without
  case. A \<open>std::map\<close> is the list of its entries in key order.
\<close>

subsection \<open>Maps of strings\<close>

type_synonym string_map = "(string \<times> string) list"

text \<open>\<open>m[k] = v\<close>, \<open>m.erase(k)\<close>, \<open>m.emplace(k, v)\<close> and \<open>map_get\<close>.\<close>

fun sm_set :: "string \<Rightarrow> string \<Rightarrow> string_map \<Rightarrow> string_map" where
  "sm_set k v [] = [(k, v)]"
| "sm_set k v ((k', v') # m) =
     (if k = k' then (k, v) # m
      else if k < k' then (k, v) # (k', v') # m
      else (k', v') # sm_set k v m)"

definition sm_erase :: "string \<Rightarrow> string_map \<Rightarrow> string_map" where
  "sm_erase k m = filter (\<lambda>(k', v). k' \<noteq> k) m"

definition sm_emplace :: "string \<Rightarrow> string \<Rightarrow> string_map \<Rightarrow> string_map" where
  "sm_emplace k v m = (if map_of m k = None then sm_set k v m else m)"

definition map_get :: "string_map \<Rightarrow> string \<Rightarrow> string \<Rightarrow> string" where
  "map_get m k d = (case map_of m k of None \<Rightarrow> d | Some v \<Rightarrow> v)"

lemma map_of_sm_set [simp]: "map_of (sm_set k v m) = (map_of m)(k \<mapsto> v)"
  by (induction m) (auto simp: fun_eq_iff)

lemma keys_sm_set: "fst ` set (sm_set k v m) = insert k (fst ` set m)"
  unfolding dom_map_of_conv_image_fst[symmetric] by simp

text \<open>The entries of a \<open>std::map\<close> are in strictly increasing key order.\<close>

definition sm_ok :: "string_map \<Rightarrow> bool" where
  "sm_ok m \<longleftrightarrow> sorted_wrt (<) (map fst m)"

lemma sm_ok_simps [simp]:
  "sm_ok []" "sm_ok (kv # m) \<longleftrightarrow> (\<forall>k \<in> fst ` set m. fst kv < k) \<and> sm_ok m"
  by (simp_all add: sm_ok_def)

lemma sm_set_ok: "sm_ok m \<Longrightarrow> sm_ok (sm_set k v m)"
proof (induction m)
  case (Cons kv m)
  then show ?case by (cases kv) (auto simp: keys_sm_set)
qed simp

subsection \<open>Fields\<close>

text \<open>
  \<open>req.set(k, v)\<close> of Boost.Beast: field names are compared without case, and every field of
  that name is replaced.
\<close>

definition lower :: "string \<Rightarrow> string" where
  "lower s = map to_lower s"

definition set_field :: "string \<times> string \<Rightarrow> (string \<times> string) list \<Rightarrow> (string \<times> string) list" where
  "set_field kv fs = filter (\<lambda>f. lower (fst f) \<noteq> lower (fst kv)) fs @ [kv]"

definition find_field :: "(string \<times> string) list \<Rightarrow> string \<Rightarrow> (string \<times> string) option" where
  "find_field fs n = find (\<lambda>f. lower (fst f) = n) fs"

text \<open>The field list meets the contract of a keyed store, with the lower-case name as key.\<close>

interpretation header_fields: kv_store set_field find_field "\<lambda>kv. lower (fst kv)"
proof unfold_locales
  fix kv :: "string \<times> string" and fs n
  have "find (\<lambda>f. lower (fst f) = n) (filter (\<lambda>f. lower (fst f) \<noteq> m) fs @ [kv]) =
      (if n = m then if lower (fst kv) = n then Some kv else None
       else case find (\<lambda>f. lower (fst f) = n) fs of
         None \<Rightarrow> if lower (fst kv) = n then Some kv else None | Some f \<Rightarrow> Some f)" for m
    by (induction fs) auto
  then show "find_field (set_field kv fs) n =
      (if n = lower (fst kv) then Some kv else find_field fs n)"
    by (auto simp: find_field_def set_field_def split: option.splits)
qed

text \<open>
  Setting the fields of a map in key order, on a list of fields: the last of several spellings
  of a name wins.
\<close>

lemma find_fields:
  "find_field (fold set_field m fs) n =
     (case find (\<lambda>kv. lower (fst kv) = n) (rev m) of Some kv \<Rightarrow> Some kv | None \<Rightarrow> find_field fs n)"
  by (simp add: header_fields.get_fold_put split: option.split)

lemma find_append: "find P (xs @ ys) = (case find P xs of None \<Rightarrow> find P ys | Some y \<Rightarrow> Some y)"
  by (induction xs) auto

lemma find_set_rev:
  assumes "sm_ok m" and "\<forall>k' \<in> fst ` set m. lower k' = lower k \<longrightarrow> k' = k"
  shows "find (\<lambda>kv. lower (fst kv) = lower k) (rev (sm_set k v m)) = Some (k, v)"
  using assms
proof (induction m)
  case (Cons kv m)
  obtain k' v' where kv: "kv = (k', v')" by (cases kv)
  have none: "find (\<lambda>kv. lower (fst kv) = lower k) (rev m) = None" if "k \<le> k'"
  proof -
    have "lower (fst x) \<noteq> lower k" if "x \<in> set m" for x
    proof -
      have "k < fst x" using that Cons.prems(1) \<open>k \<le> k'\<close> by (auto simp: kv)
      then show ?thesis using that Cons.prems(2) by auto
    qed
    then show ?thesis by (force simp: find_None_iff)
  qed
  consider "k = k'" | "k < k'" | "k' < k" by fastforce
  then show ?case
  proof cases
    case 1
    with none show ?thesis by (simp add: kv find_append)
  next
    case 2
    then have "lower k' \<noteq> lower k" "k \<noteq> k'" using Cons.prems(2) by (auto simp: kv)
    with 2 none show ?thesis by (simp add: kv find_append)
  next
    case 3
    have "find (\<lambda>kv. lower (fst kv) = lower k) (rev (sm_set k v m)) = Some (k, v)"
      using Cons.prems by (intro Cons.IH) simp_all
    moreover have "k \<noteq> k'" "\<not> k < k'" using 3 by auto
    ultimately show ?thesis by (simp add: kv find_append)
  qed
qed simp

end
