(* ===== verification/Transport.thy ===== *)
theory Transport
  imports Prelude
begin

text \<open>
  The calls to Boost.Asio, Boost.Beast and OpenSSL that open a TLS connection and use it, in the
  order \<open>WebSocketClient::Impl::connect_once\<close> and \<open>perform_request\<close> make them. What a call does
  is not modelled: the network answers each call, given all the calls before it, by succeeding
  or failing. What is modelled is which calls the program makes, with which arguments, in
  which order, and what it does when one fails.
\<close>

subsection \<open>Calls\<close>

text \<open>
  \<open>Request\<close> sends the request of the protocol: an HTTP request, or the handshake of a
  WebSocket, which also awaits the answer.
\<close>

datatype 'r net_call =
    Default_paths          \<comment> \<open>\<open>set_default_verify_paths\<close>\<close>
  | Load_ca string         \<comment> \<open>\<open>load_verify_file\<close>\<close>
  | Verify_mode bool       \<comment> \<open>\<open>set_verify_mode\<close>: \<open>verify_peer\<close> or \<open>verify_none\<close>\<close>
  | Resolve string string
  | New_stream
  | Deadline int           \<comment> \<open>\<open>expires_after\<close>\<close>
  | Tcp_connect
  | Set_sni string
  | Tls_handshake
  | Request 'r
  | Response
  | Tls_shutdown

type_synonym 'r network = "'r net_call list \<Rightarrow> 'r net_call \<Rightarrow> bool"

text \<open>The name of the server is set by a function that returns a flag, which the program tests.\<close>

fun failure :: "'r net_call \<Rightarrow> cpp_error" where
  "failure (Set_sni host) = Runtime_error ''SNI set failed''"
| "failure _ = System_error"

text \<open>Calls in a row: the first that fails throws. The result comes with the calls made.\<close>

fun run_calls :: "'r network \<Rightarrow> 'r net_call list \<Rightarrow> 'r net_call list \<Rightarrow> unit res \<times> 'r net_call list" where
  "run_calls nw tr [] = (Inr (), tr)"
| "run_calls nw tr (c # cs) =
     (if nw tr c then run_calls nw (tr @ [c]) cs else (Inl (failure c), tr @ [c]))"

text \<open>The calls both programs make to open a connection.\<close>

definition open_calls :: "bool \<Rightarrow> string \<Rightarrow> string \<Rightarrow> string \<Rightarrow> int \<Rightarrow> 'r net_call list" where
  "open_calls verify ca host port limit =
     [Default_paths] @ (if ca \<noteq> [] then [Load_ca ca] else []) @
     [Verify_mode verify, Resolve host port, New_stream, Deadline limit, Tcp_connect, Set_sni host,
      Tls_handshake]"

subsection \<open>What a run leaves behind\<close>

fun all_ok :: "'r network \<Rightarrow> 'r net_call list \<Rightarrow> 'r net_call list \<Rightarrow> bool" where
  "all_ok nw tr [] \<longleftrightarrow> True"
| "all_ok nw tr (c # cs) \<longleftrightarrow> nw tr c \<and> all_ok nw (tr @ [c]) cs"

lemma all_ok_append: "all_ok nw tr (cs @ ds) \<longleftrightarrow> all_ok nw tr cs \<and> all_ok nw (tr @ cs) ds"
  by (induction cs arbitrary: tr) auto

lemma run_calls_cases [consumes 1, case_names returned failed]:
  assumes "run_calls nw tr cs = (r, tr')"
  obtains
    "r = Inr ()" "tr' = tr @ cs" "all_ok nw tr cs"
  | a c b where "cs = a @ c # b" "r = Inl (failure c)" "tr' = tr @ a @ [c]" "all_ok nw tr a"
      "\<not> nw (tr @ a) c"
proof -
  have "(r = Inr () \<and> tr' = tr @ cs \<and> all_ok nw tr cs) \<or>
      (\<exists>a c b. cs = a @ c # b \<and> r = Inl (failure c) \<and> tr' = tr @ a @ [c] \<and> all_ok nw tr a
        \<and> \<not> nw (tr @ a) c)"
    using assms
  proof (induction cs arbitrary: tr)
    case (Cons d cs)
    show ?case
    proof (cases "nw tr d")
      case False
      then have "r = Inl (failure d)" "tr' = tr @ [d]" using Cons.prems by auto
      with False show ?thesis by (intro disjI2 exI[of _ "[]"] exI[of _ d] exI[of _ cs]) simp
    next
      case True
      then have "run_calls nw (tr @ [d]) cs = (r, tr')" using Cons.prems by simp
      from Cons.IH[OF this] show ?thesis
      proof
        assume "\<exists>a c b. cs = a @ c # b \<and> r = Inl (failure c) \<and> tr' = (tr @ [d]) @ a @ [c]
          \<and> all_ok nw (tr @ [d]) a \<and> \<not> nw ((tr @ [d]) @ a) c"
        then obtain a c b where "cs = a @ c # b" "r = Inl (failure c)" "tr' = (tr @ [d]) @ a @ [c]"
          "all_ok nw (tr @ [d]) a" "\<not> nw ((tr @ [d]) @ a) c" by blast
        with True show ?thesis
          by (intro disjI2 exI[of _ "d # a"] exI[of _ c] exI[of _ b]) simp
      qed (use True in simp)
    qed
  qed simp
  with that show ?thesis by blast
qed

text \<open>A network on which the first calls succeed, and then one fails or none does.\<close>

lemma run_calls_up_to: "run_calls (\<lambda>tr c. length tr < n) tr cs =
    (if length tr + length cs \<le> n then (Inr (), tr @ cs)
     else (Inl (failure (cs ! (n - length tr))), tr @ take (Suc (n - length tr)) cs))"
  if "length tr \<le> n"
  using that
proof (induction cs arbitrary: tr)
  case (Cons c cs)
  show ?case
  proof (cases "length tr < n")
    case True
    then have "n - length tr = Suc (n - Suc (length tr))" by simp
    with True Cons.IH[of "tr @ [c]"] show ?thesis by simp
  next
    case False
    with Cons.prems show ?thesis by simp
  qed
qed simp

lemma run_calls_set: "set (snd (run_calls nw tr cs)) \<subseteq> set tr \<union> set cs"
proof (induction cs arbitrary: tr)
  case (Cons c cs)
  from Cons[of "tr @ [c]"] show ?case by auto
qed simp

lemma open_calls_order:
  "subseq [Verify_mode v, Resolve host port, Tcp_connect, Set_sni host, Tls_handshake]
    (open_calls v ca host port limit)"
  by (simp add: open_calls_def)

end
