(* ===== verification/Websocket_Client.thy ===== *)
theory Websocket_Client
  imports Header_Fields Transport Transition
begin

text \<open>
  \<open>WebSocketClient\<close> (\<open>include/websocket_client.h\<close>, \<open>src/websocket_client.cpp\<close>): the thread that
  connects, reads frames and reconnects with a growing pause, and the calls other threads make.
  The network is the environment: each blocking call of the I/O thread takes one answer from
  it. The calls of \<open>run\<close>, \<open>read_loop\<close> and \<open>reconnect_loop\<close> are a program counter with the number
  of nested frames, so that the calls of the owning thread can come between any two steps.
\<close>

subsection \<open>The address\<close>

definition parse_wss :: "string \<Rightarrow> (string \<times> string \<times> string) res" where
  "parse_wss full =
     (if \<not> starts_with ''wss://'' full
      then Inl (Runtime_error ''WebSocketClient: only wss:// supported'')
      else
        let rest = drop (length ''wss://'') full;
            slash = find_char CHR ''/'' rest;
            hostport = (case slash of None \<Rightarrow> rest | Some i \<Rightarrow> take i rest);
            target = (case slash of None \<Rightarrow> ''/'' | Some i \<Rightarrow> drop i rest)
        in case find_char CHR '':'' hostport of
             None \<Rightarrow> Inr (hostport, ''443'', target)
           | Some c \<Rightarrow>
               let port = drop (c + 1) hostport in
               Inr (take c hostport, if port = [] then ''443'' else port, target))"

subsection \<open>State\<close>

text \<open>The options; durations are counts of their unit.\<close>

record ws_options =
  ping_interval :: int
  conn_timeout :: int
  verify_peer :: bool
  ca_file :: string
  headers :: string_map
  backoff_initial :: int
  backoff_max :: int

definition default_ws_options :: ws_options where
  "default_ws_options = \<lparr>ping_interval = 15, conn_timeout = 10, verify_peer = True, ca_file = [],
     headers = [], backoff_initial = 500, backoff_max = 5000\<rparr>"

text \<open>
  Where the I/O thread is. \<open>Connecting r\<close> is inside \<open>connect_once\<close>, called from \<open>run\<close> or
  (\<open>r\<close>) from \<open>reconnect_loop\<close>; \<open>Read_test\<close> and \<open>Reconnect_test\<close> are the loop conditions.
\<close>

datatype ws_pc =
    No_thread | Run_begin | Connecting bool | Resub_hook | Read_test | Reading
  | Reconnect_test | Sleeping | Thread_done

datatype ws_event =
    State string          \<comment> \<open>\<open>notify_state\<close>, which always writes a line to the log\<close>
  | Deliver string        \<comment> \<open>a frame read\<close>
  | Resubscribe           \<comment> \<open>\<open>on_resub_noarg\<close>\<close>
  | Sleep int

text \<open>
  \<open>outer_connected\<close> is the member of the class itself, beside the one of \<open>Impl\<close>. The
  resubscribe hook is represented by the texts it sends, in order, through \<open>send_text\<close>.
  Of the other two callbacks only whether they are set matters here. \<open>streams\<close> counts the stream
  objects that \<open>ws\<close> has held; each new one destroys the one before. Not program variables, but
  records of what was done, in order: \<open>events\<close>, the actions of the current I/O thread; \<open>sent\<close>,
  the texts written; \<open>delivered\<close> and \<open>told\<close>, the arguments the two callbacks were called with.
\<close>

record ws_client =
  url :: string
  opts :: ws_options
  on_resub :: "string list option"
  msg_cb :: bool
  state_cb :: bool
  running :: bool
  connected :: bool
  outer_connected :: bool
  has_ws :: bool
  streams :: nat
  joinable :: bool
  joining :: bool
  pc :: ws_pc
  depth :: nat
  backoff :: int
  events :: "ws_event list"
  sent :: "string list"
  delivered :: "string list"
  told :: "string list"

definition ws_new :: "string \<Rightarrow> ws_options \<Rightarrow> ws_client" where
  "ws_new u os = \<lparr>url = u, opts = os, on_resub = None, msg_cb = False, state_cb = False,
     running = False, connected = False, outer_connected = False, has_ws = False, streams = 0,
     joinable = False, joining = False, pc = No_thread, depth = 0, backoff = 0, events = [],
     sent = [], delivered = [], told = []\<rparr>"

definition is_connected :: "ws_client \<Rightarrow> bool" where
  "is_connected c = outer_connected c"

definition notify_state :: "string \<Rightarrow> ws_client \<Rightarrow> ws_client" where
  "notify_state s c = c\<lparr>told := (if state_cb c then told c @ [s] else told c),
     events := events c @ [State s]\<rparr>"

text \<open>
  \<open>write_ok\<close>: whether the write completes without an exception. The kind of frame, text or
  binary, is not recorded.
\<close>

definition send_text :: "bool \<Rightarrow> string \<Rightarrow> ws_client \<Rightarrow> bool \<times> ws_client" where
  "send_text write_ok payload c =
     (if \<not> has_ws c \<or> \<not> connected c then (False, c)
      else if write_ok then (True, c\<lparr>sent := sent c @ [payload]\<rparr>)
      else (False, c))"

definition send_binary :: "bool \<Rightarrow> string \<Rightarrow> ws_client \<Rightarrow> bool \<times> ws_client" where
  "send_binary write_ok data c =
     (if \<not> has_ws c \<or> \<not> connected c then (False, c)
      else if write_ok then (True, c\<lparr>sent := sent c @ [data]\<rparr>)
      else (False, c))"

text \<open>
  Setting a callback; an empty \<open>std::function\<close> unsets it. The resubscribe wrapper itself is
  never empty: around an empty function it runs and sends nothing.
\<close>

definition on_message :: "bool \<Rightarrow> ws_client \<Rightarrow> ws_client" where
  "on_message given c = c\<lparr>msg_cb := given\<rparr>"

definition on_state :: "bool \<Rightarrow> ws_client \<Rightarrow> ws_client" where
  "on_state given c = c\<lparr>state_cb := given\<rparr>"

definition on_resubscribe :: "string list \<Rightarrow> ws_client \<Rightarrow> ws_client" where
  "on_resubscribe texts c = c\<lparr>on_resub := Some texts\<rparr>"

fun send_all :: "(bool \<times> string) list \<Rightarrow> ws_client \<Rightarrow> ws_client" where
  "send_all [] c = c"
| "send_all ((ok, p) # ps) c = send_all ps (snd (send_text ok p c))"

subsection \<open>The I/O thread\<close>

text \<open>
  Answers of the environment. \<open>Connect_error b\<close>: an exception inside \<open>connect_once\<close>, before
  or (\<open>b\<close>) after the new stream was stored in \<open>ws\<close>. \<open>Hook\<close>: the outcome of each write of the
  hook. \<open>Go\<close>: a step that depends on no answer.
\<close>

datatype ws_env =
    Go | Connect_ok | Connect_error bool | Frame string | Read_closed | Read_failed | Hook "bool list"

definition connect_begin :: "bool \<Rightarrow> ws_client \<Rightarrow> ws_client" where
  "connect_begin again c = (notify_state ''connecting'' c)\<lparr>pc := Connecting again\<rparr>"

definition connect_failed :: "bool \<Rightarrow> ws_client \<Rightarrow> ws_client" where
  "connect_failed again c =
     (if again then c\<lparr>connected := False, pc := Sleeping\<rparr>
      else (notify_state ''reconnecting'' (c\<lparr>connected := False\<rparr>))
             \<lparr>backoff := backoff_initial (opts c), pc := Reconnect_test, depth := depth c + 1\<rparr>)"

definition connect_done :: "bool \<Rightarrow> ws_client \<Rightarrow> ws_client" where
  "connect_done again c =
     (notify_state ''connected'' (c\<lparr>has_ws := True, streams := streams c + 1, connected := True\<rparr>))
       \<lparr>pc := (if again then Resub_hook else Read_test), depth := depth c + 1\<rparr>"

fun io_step :: "ws_env \<Rightarrow> ws_client \<Rightarrow> ws_client option" where
  "io_step env c =
     (case (pc c, env) of
        (Run_begin, Go) \<Rightarrow> Some (connect_begin False (c\<lparr>running := True\<rparr>))
      | (Connecting again, Connect_error made) \<Rightarrow>
          (let made = (made \<and> \<not> isl (parse_wss (url c))) in
           Some (connect_failed again
             (c\<lparr>has_ws := has_ws c \<or> made, streams := streams c + of_bool made\<rparr>)))
      | (Connecting again, Connect_ok) \<Rightarrow>
          (case parse_wss (url c) of Inl e \<Rightarrow> None | Inr x \<Rightarrow> Some (connect_done again c))
      | (Resub_hook, Hook oks) \<Rightarrow>
          (case on_resub c of
             None \<Rightarrow> Some (c\<lparr>pc := Read_test\<rparr>)
           | Some ps \<Rightarrow>
               if length oks = length ps
               then Some ((send_all (zip oks ps) (c\<lparr>events := events c @ [Resubscribe]\<rparr>))
                            \<lparr>pc := Read_test\<rparr>)
               else None)
      | (Read_test, Go) \<Rightarrow> Some (c\<lparr>pc := (if running c then Reading else Thread_done)\<rparr>)
      | (Reading, Frame m) \<Rightarrow>
          Some (c\<lparr>events := events c @ [Deliver m], pc := Read_test,
                  delivered := (if msg_cb c then delivered c @ [m] else delivered c)\<rparr>)
      | (Reading, Read_closed) \<Rightarrow>
          (if \<not> running c then Some (c\<lparr>pc := Thread_done\<rparr>)
           else Some ((notify_state ''closed'' (c\<lparr>connected := False\<rparr>))\<lparr>pc := Thread_done\<rparr>))
      | (Reading, Read_failed) \<Rightarrow>
          (if \<not> running c then Some (c\<lparr>pc := Thread_done\<rparr>)
           else Some ((notify_state ''reconnecting'' (c\<lparr>connected := False\<rparr>))
                  \<lparr>backoff := backoff_initial (opts c), pc := Reconnect_test, depth := depth c + 1\<rparr>))
      | (Reconnect_test, Go) \<Rightarrow>
          (if running c \<and> \<not> connected c then Some (connect_begin True c)
           else Some (c\<lparr>pc := Thread_done\<rparr>))
      | (Sleeping, Go) \<Rightarrow>
          Some (c\<lparr>events := events c @ [Sleep (backoff c)],
                  backoff := min (backoff c * 2) (backoff_max (opts c)), pc := Reconnect_test\<rparr>)
      | _ \<Rightarrow> None)"

declare io_step.simps [simp del]

subsection \<open>The owning thread\<close>

text \<open>Assigning a new thread to \<open>io_thread\<close> while it is joinable is \<open>std::terminate\<close>.\<close>

definition ws_start :: "ws_client \<Rightarrow> ws_client res" where
  "ws_start c =
     (if running c then Inr c
      else if joinable c then Inl Terminated
      else Inr (c\<lparr>joinable := True, pc := Run_begin, depth := 0, events := []\<rparr>))"

text \<open>
  \<open>Impl::stop()\<close> (closing the stream is part of the environment: it makes the read return),
  \<open>stop()\<close> up to its \<open>join\<close>, and the \<open>join\<close> itself.
\<close>

definition impl_stop :: "ws_client \<Rightarrow> ws_client" where
  "impl_stop c = c\<lparr>running := False\<rparr>"

declare impl_stop_def [simp]

definition ws_stop_begin :: "ws_client \<Rightarrow> ws_client" where
  "ws_stop_begin c = (if \<not> running c then c else (impl_stop c)\<lparr>joining := joinable c\<rparr>)"

definition ws_join :: "ws_client \<Rightarrow> ws_client" where
  "ws_join c = c\<lparr>joining := False, joinable := False, pc := No_thread\<rparr>"

text \<open>The destructor after its \<open>stop()\<close>: destroying a joinable thread is \<open>std::terminate\<close>.\<close>

definition ws_destroy :: "ws_client \<Rightarrow> unit res" where
  "ws_destroy c = (if joinable c then Inl Terminated else Inr ())"

inductive ws_step :: "ws_client \<Rightarrow> ws_client \<Rightarrow> bool" where
  step_io: "io_step env c = Some c' \<Longrightarrow> ws_step c c'"
| step_start: "\<not> joining c \<Longrightarrow> ws_start c = Inr c' \<Longrightarrow> ws_step c c'"
| step_stop: "\<not> joining c \<Longrightarrow> ws_step c (ws_stop_begin c)"
| step_join: "joining c \<Longrightarrow> pc c = Thread_done \<Longrightarrow> ws_step c (ws_join c)"
| step_send: "\<not> joining c \<Longrightarrow> ws_step c (snd (send_text ok p c))"
| step_send_binary: "\<not> joining c \<Longrightarrow> ws_step c (snd (send_binary ok p c))"

inductive_cases ws_step_cases: "ws_step c c'"

text \<open>A new client with its callbacks set; they do not change afterwards.\<close>

abbreviation ws_wired ::
  "bool \<Rightarrow> bool \<Rightarrow> string \<Rightarrow> ws_options \<Rightarrow> string list option \<Rightarrow> ws_client" where
  "ws_wired m st u os hook \<equiv> (ws_new u os)\<lparr>on_resub := hook, msg_cb := m, state_cb := st\<rparr>"

definition ws_init :: "string \<Rightarrow> ws_options \<Rightarrow> string list option \<Rightarrow> ws_client \<Rightarrow> bool" where
  "ws_init u os hook c \<longleftrightarrow> (\<exists>m st. c = ws_wired m st u os hook)"

subsection \<open>Case analysis\<close>

lemma send_binary_text [simp]: "send_binary = send_text"
  by (intro ext) (simp add: send_binary_def send_text_def)

lemma send_text_fields [simp]:
  "url (snd (send_text ok p c)) = url c" "opts (snd (send_text ok p c)) = opts c"
  "on_resub (snd (send_text ok p c)) = on_resub c" "running (snd (send_text ok p c)) = running c"
  "connected (snd (send_text ok p c)) = connected c"
  "outer_connected (snd (send_text ok p c)) = outer_connected c"
  "has_ws (snd (send_text ok p c)) = has_ws c" "streams (snd (send_text ok p c)) = streams c"
  "joinable (snd (send_text ok p c)) = joinable c"
  "joining (snd (send_text ok p c)) = joining c" "pc (snd (send_text ok p c)) = pc c"
  "depth (snd (send_text ok p c)) = depth c" "backoff (snd (send_text ok p c)) = backoff c"
  "events (snd (send_text ok p c)) = events c" "msg_cb (snd (send_text ok p c)) = msg_cb c"
  "state_cb (snd (send_text ok p c)) = state_cb c"
  "delivered (snd (send_text ok p c)) = delivered c" "told (snd (send_text ok p c)) = told c"
  by (simp_all add: send_text_def)

lemma send_all_fields [simp]:
  "url (send_all ps c) = url c" "opts (send_all ps c) = opts c"
  "on_resub (send_all ps c) = on_resub c" "running (send_all ps c) = running c"
  "connected (send_all ps c) = connected c" "outer_connected (send_all ps c) = outer_connected c"
  "has_ws (send_all ps c) = has_ws c" "streams (send_all ps c) = streams c" "joinable (send_all ps c) = joinable c"
  "joining (send_all ps c) = joining c" "pc (send_all ps c) = pc c"
  "depth (send_all ps c) = depth c" "backoff (send_all ps c) = backoff c"
  "events (send_all ps c) = events c" "msg_cb (send_all ps c) = msg_cb c"
  "state_cb (send_all ps c) = state_cb c" "delivered (send_all ps c) = delivered c"
  "told (send_all ps c) = told c"
  by (induction ps c rule: send_all.induct) simp_all

lemma sent_send_all:
  "has_ws c \<Longrightarrow> connected c \<Longrightarrow> sent (send_all ps c) = sent c @ map snd (filter fst ps)"
  by (induction ps c rule: send_all.induct) (auto simp: send_text_def)

lemma send_all_unconnected: "\<not> connected c \<Longrightarrow> send_all ps c = c"
  by (induction ps c rule: send_all.induct) (auto simp: send_text_def)

text \<open>Every step of the I/O thread, by the place it starts from.\<close>

lemma io_step_cases [consumes 1, case_names run_begin failed ok hook no_hook read_go frame
    read_end lost recon sleep]:
  assumes "io_step env c = Some c'"
  obtains
    "pc c = Run_begin" "c' = connect_begin False (c\<lparr>running := True\<rparr>)"
  | again w n where "pc c = Connecting again"
      "c' = connect_failed again (c\<lparr>has_ws := w, streams := n\<rparr>)" "has_ws c \<longrightarrow> w"
  | again x where "pc c = Connecting again" "parse_wss (url c) = Inr x" "c' = connect_done again c"
  | ps oks where "pc c = Resub_hook" "on_resub c = Some ps" "length oks = length ps"
      "c' = (send_all (zip oks ps) (c\<lparr>events := events c @ [Resubscribe]\<rparr>))\<lparr>pc := Read_test\<rparr>"
  | "pc c = Resub_hook" "on_resub c = None" "c' = c\<lparr>pc := Read_test\<rparr>"
  | "pc c = Read_test" "c' = c\<lparr>pc := (if running c then Reading else Thread_done)\<rparr>"
  | m where "pc c = Reading" "c' = c\<lparr>events := events c @ [Deliver m], pc := Read_test,
      delivered := (if msg_cb c then delivered c @ [m] else delivered c)\<rparr>"
  | "pc c = Reading" "c' = (if \<not> running c then c\<lparr>pc := Thread_done\<rparr>
      else (notify_state ''closed'' (c\<lparr>connected := False\<rparr>))\<lparr>pc := Thread_done\<rparr>)"
  | "pc c = Reading" "running c" "c' = (notify_state ''reconnecting'' (c\<lparr>connected := False\<rparr>))
      \<lparr>backoff := backoff_initial (opts c), pc := Reconnect_test, depth := depth c + 1\<rparr>"
  | "pc c = Reconnect_test" "c' = (if running c \<and> \<not> connected c then connect_begin True c
      else c\<lparr>pc := Thread_done\<rparr>)"
  | "pc c = Sleeping" "c' = c\<lparr>events := events c @ [Sleep (backoff c)],
      backoff := min (backoff c * 2) (backoff_max (opts c)), pc := Reconnect_test\<rparr>"
proof (cases "pc c")
  case No_thread
  with assms show ?thesis by (simp add: io_step.simps split: ws_env.splits)
next
  case Run_begin
  with assms that(1) show ?thesis by (simp add: io_step.simps split: ws_env.splits)
next
  case (Connecting again)
  then show ?thesis
    using assms that(2)[OF Connecting] that(3)[OF Connecting]
    by (auto simp: io_step.simps Let_def split: ws_env.splits sum.splits)
next
  case Resub_hook
  with assms that(4,5) show ?thesis
    by (auto simp: io_step.simps split: ws_env.splits option.splits if_splits)
next
  case Read_test
  with assms that(6) show ?thesis by (simp add: io_step.simps split: ws_env.splits)
next
  case Reading
  consider (f) m where "env = Frame m" | (e) "env = Read_closed" | (l) "env = Read_failed"
    using assms Reading by (cases env) (simp_all add: io_step.simps)
  then show ?thesis
  proof cases
    case f
    then show ?thesis using assms Reading by (intro that(7)[of m]) (simp_all add: io_step.simps)
  next
    case e
    then show ?thesis using assms Reading by (intro that(8)) (auto simp: io_step.simps)
  next
    case l
    show ?thesis
    proof (cases "running c")
      case True
      then show ?thesis using assms Reading l by (intro that(9)) (simp_all add: io_step.simps)
    next
      case False
      then show ?thesis using assms Reading l by (intro that(8)) (simp_all add: io_step.simps)
    qed
  qed
next
  case Reconnect_test
  with assms that(10) show ?thesis by (auto simp: io_step.simps split: ws_env.splits if_splits)
next
  case Sleeping
  with assms that(11) show ?thesis by (simp add: io_step.simps split: ws_env.splits)
next
  case Thread_done
  with assms show ?thesis by (simp add: io_step.simps split: ws_env.splits)
qed

lemmas io_defs = connect_begin_def connect_failed_def connect_done_def notify_state_def
lemmas call_defs = ws_start_def ws_stop_begin_def ws_join_def

subsection \<open>Invariants\<close>

text \<open>What the code relies on at each place: no read on a missing stream, no second thread.\<close>

definition ws_inv :: "string \<Rightarrow> ws_options \<Rightarrow> string list option \<Rightarrow> ws_client \<Rightarrow> bool" where
  "ws_inv u os hook c \<longleftrightarrow>
     url c = u \<and> opts c = os \<and> on_resub c = hook \<and> \<not> outer_connected c
     \<and> (connected c \<longrightarrow> has_ws c)
     \<and> (pc c \<in> {Resub_hook, Read_test, Reading} \<longrightarrow> connected c)
     \<and> (pc c \<in> {Reconnect_test, Sleeping, Connecting True} \<longrightarrow> \<not> connected c)
     \<and> (joinable c \<longleftrightarrow> pc c \<noteq> No_thread)
     \<and> (running c \<longrightarrow> pc c \<notin> {No_thread, Run_begin})
     \<and> (joining c \<longrightarrow> \<not> running c \<and> joinable c \<and> pc c \<noteq> Run_begin)"

text \<open>The pauses stay between the two options.\<close>

definition backoff_ok :: "ws_options \<Rightarrow> int \<Rightarrow> bool" where
  "backoff_ok os d \<longleftrightarrow> (0 \<le> backoff_initial os \<and> backoff_initial os \<le> backoff_max os \<longrightarrow>
     backoff_initial os \<le> d \<and> d \<le> backoff_max os)"

definition pauses :: "ws_event list \<Rightarrow> int list" where
  "pauses es = concat (map (\<lambda>e. case e of Sleep d \<Rightarrow> [d] | _ \<Rightarrow> []) es)"

lemma pauses_simps [simp]:
  "pauses [] = []" "pauses (es @ [Sleep d]) = pauses es @ [d]"
  "pauses (es @ [State s]) = pauses es" "pauses (es @ [Deliver m]) = pauses es"
  "pauses (es @ [Resubscribe]) = pauses es"
  by (simp_all add: pauses_def)

lemma backoff_ok_simps [simp]:
  "backoff_ok os (backoff_initial os)" "backoff_ok os d \<Longrightarrow> backoff_ok os (min (d * 2) (backoff_max os))"
  by (auto simp: backoff_ok_def)

definition pause_inv :: "ws_client \<Rightarrow> bool" where
  "pause_inv c \<longleftrightarrow>
     (pc c \<in> {Reconnect_test, Sleeping, Connecting True} \<longrightarrow> backoff_ok (opts c) (backoff c))
     \<and> list_all (backoff_ok (opts c)) (pauses (events c))"

text \<open>The hook runs once for each connection, except for a first one that succeeds at once.\<close>

definition count_events :: "ws_event \<Rightarrow> ws_event list \<Rightarrow> nat" where
  "count_events e es = length (filter (\<lambda>x. x = e) es)"

definition first_attempt_ok :: "ws_event list \<Rightarrow> bool" where
  "first_attempt_ok es \<longleftrightarrow> take 2 es = [State ''connecting'', State ''connected'']"

lemma count_events_simps [simp]:
  "count_events e [] = 0" "count_events e (es @ [x]) = count_events e es + of_bool (x = e)"
  "count_events e [x] = of_bool (x = e)" "count_events e [x, y] = of_bool (x = e) + of_bool (y = e)"
  by (simp_all add: count_events_def)

lemma first_attempt_ok_snoc: "2 \<le> length es \<Longrightarrow> first_attempt_ok (es @ [x]) = first_attempt_ok es"
  by (simp add: first_attempt_ok_def)

lemma first_attempt_ok_simps [simp]:
  "\<not> first_attempt_ok []" "\<not> first_attempt_ok [x]"
  "first_attempt_ok [State ''connecting'', x] \<longleftrightarrow> x = State ''connected''"
  by (auto simp: first_attempt_ok_def)

definition hook_inv :: "ws_client \<Rightarrow> bool" where
  "hook_inv c \<longleftrightarrow>
     (pc c = Run_begin \<longrightarrow> events c = [])
     \<and> (pc c = Connecting False \<longrightarrow> events c = [State ''connecting''])
     \<and> (pc c \<notin> {No_thread, Run_begin, Connecting False} \<longrightarrow> 2 \<le> length (events c))
     \<and> (on_resub c \<noteq> None \<longrightarrow> count_events (State ''connected'') (events c) =
          count_events Resubscribe (events c) + of_bool (pc c = Resub_hook)
          + of_bool (first_attempt_ok (events c)))
     \<and> (pc c \<noteq> No_thread \<longrightarrow> depth c = count_events (State ''connected'') (events c)
          + count_events (State ''reconnecting'') (events c))"

definition ws_full_inv :: "string \<Rightarrow> ws_options \<Rightarrow> string list option \<Rightarrow> ws_client \<Rightarrow> bool" where
  "ws_full_inv u os hook c \<longleftrightarrow> ws_inv u os hook c \<and> pause_inv c \<and> hook_inv c"

lemma ws_inv_io: "io_step env c = Some c' \<Longrightarrow> ws_inv u os hook c \<Longrightarrow> ws_inv u os hook c'"
  by (induction rule: io_step_cases) (auto simp: ws_inv_def io_defs split: if_splits)

lemma pause_inv_io: "io_step env c = Some c' \<Longrightarrow> pause_inv c \<Longrightarrow> pause_inv c'"
  by (induction rule: io_step_cases)
     (simp_all add: pause_inv_def io_defs split: if_splits)

lemma hook_inv_io: "io_step env c = Some c' \<Longrightarrow> hook_inv c \<Longrightarrow> hook_inv c'"
  by (induction rule: io_step_cases)
     (simp_all add: hook_inv_def io_defs first_attempt_ok_snoc split: if_splits)

lemma ws_start_cases:
  "ws_start c = Inr c' \<Longrightarrow> c' = c \<or> (\<not> running c \<and> \<not> joinable c
    \<and> c' = c\<lparr>joinable := True, pc := Run_begin, depth := 0, events := []\<rparr>)"
  by (auto simp: ws_start_def split: if_splits)

lemma ws_inv_calls:
  "\<not> running c \<Longrightarrow> \<not> joinable c \<Longrightarrow> ws_inv u os hook c \<Longrightarrow>
    ws_inv u os hook (c\<lparr>joinable := True, pc := Run_begin, depth := 0, events := []\<rparr>)"
  "running c \<Longrightarrow> ws_inv u os hook c \<Longrightarrow> ws_inv u os hook (c\<lparr>running := False, joining := joinable c\<rparr>)"
  "joining c \<Longrightarrow> ws_inv u os hook c \<Longrightarrow> ws_inv u os hook (ws_join c)"
  "ws_inv u os hook c \<Longrightarrow> ws_inv u os hook (snd (send_text ok p c))"
  by (auto simp: ws_inv_def ws_join_def)

lemma pause_inv_calls:
  "pause_inv (c\<lparr>joinable := True, pc := Run_begin, depth := 0, events := []\<rparr>)"
  "pause_inv c \<Longrightarrow> pause_inv (c\<lparr>running := False, joining := joinable c\<rparr>)"
  "pause_inv c \<Longrightarrow> pause_inv (ws_join c)"
  "pause_inv c \<Longrightarrow> pause_inv (snd (send_text ok p c))"
  by (simp_all add: pause_inv_def ws_join_def)

lemma hook_inv_calls:
  "hook_inv (c\<lparr>joinable := True, pc := Run_begin, depth := 0, events := []\<rparr>)"
  "hook_inv c \<Longrightarrow> hook_inv (c\<lparr>running := False, joining := joinable c\<rparr>)"
  "pc c = Thread_done \<Longrightarrow> hook_inv c \<Longrightarrow> hook_inv (ws_join c)"
  "hook_inv c \<Longrightarrow> hook_inv (snd (send_text ok p c))"
  by (simp_all add: hook_inv_def ws_join_def)

lemma ws_full_inv_calls:
  "ws_start c = Inr c' \<Longrightarrow> ws_full_inv u os hook c \<Longrightarrow> ws_full_inv u os hook c'"
  "ws_full_inv u os hook c \<Longrightarrow> ws_full_inv u os hook (ws_stop_begin c)"
  "joining c \<Longrightarrow> pc c = Thread_done \<Longrightarrow> ws_full_inv u os hook c \<Longrightarrow> ws_full_inv u os hook (ws_join c)"
  "ws_full_inv u os hook c \<Longrightarrow> ws_full_inv u os hook (snd (send_text ok p c))"
  unfolding ws_full_inv_def ws_stop_begin_def
  using ws_start_cases[of c c'] ws_inv_calls[where c = c] pause_inv_calls[where c = c]
    hook_inv_calls[where c = c]
  by (auto split: if_splits)

interpretation ws: inductive_invariant "ws_init u os hook" ws_step "ws_full_inv u os hook"
  for u os hook
proof
  fix c assume "ws_init u os hook c"
  then show "ws_full_inv u os hook c"
    by (auto simp: ws_init_def ws_new_def ws_full_inv_def ws_inv_def pause_inv_def hook_inv_def)
next
  fix c c' assume "ws_step c c'" "ws_full_inv u os hook c"
  then show "ws_full_inv u os hook c'"
  proof (cases rule: ws_step.cases)
    case (step_io env)
    with \<open>ws_full_inv u os hook c\<close> ws_inv_io pause_inv_io hook_inv_io show ?thesis
      unfolding ws_full_inv_def by blast
  next
    case (step_send_binary ok p)
    with \<open>ws_full_inv u os hook c\<close> ws_full_inv_calls(4) show ?thesis by simp
  qed (use ws_full_inv_calls in blast)+
qed

subsection \<open>Stopping\<close>

text \<open>Steps the I/O thread still takes once \<open>running_\<close> is false.\<close>

fun steps_left :: "ws_pc \<Rightarrow> nat" where
  "steps_left (Connecting _) = 5"
| "steps_left Resub_hook = 3"
| "steps_left Sleeping = 2"
| "steps_left Reading = 3"
| "steps_left Read_test = 1"
| "steps_left Reconnect_test = 1"
| "steps_left _ = 0"

inductive io_run :: "nat \<Rightarrow> ws_client \<Rightarrow> ws_client \<Rightarrow> bool" where
  io_refl: "io_run 0 c c"
| io_more: "io_step env c = Some d \<Longrightarrow> io_run n d e \<Longrightarrow> io_run (Suc n) c e"

lemma stopped_step:
  assumes "io_step env c = Some d" and "\<not> running c" and "pc c \<noteq> Run_begin"
  shows "\<not> running d" and "pc d \<noteq> Run_begin" and "steps_left (pc d) < steps_left (pc c)"
  using assms by (induction rule: io_step_cases) (auto simp: io_defs split: if_splits)

lemma stopped_run:
  assumes "io_run n c d" and "\<not> running c" and "pc c \<noteq> Run_begin"
  shows "n + steps_left (pc d) \<le> steps_left (pc c) \<and> \<not> running d \<and> pc d \<noteq> Run_begin"
  using assms
proof (induction rule: io_run.induct)
  case (io_more env c d n e)
  note s = stopped_step[OF io_more(1) io_more.prems]
  from io_more.IH[OF s(1,2)] s(3) show ?case by simp
qed simp

text \<open>The thread is never stuck: the environment has an answer at every place but the end.\<close>

lemma io_not_stuck:
  assumes "pc c \<notin> {No_thread, Thread_done}"
  shows "\<exists>env d. io_step env c = Some d"
proof (cases "pc c")
  case Resub_hook
  show ?thesis
  proof (cases "on_resub c")
    case (Some ps)
    with Resub_hook show ?thesis
      by (intro exI[of _ "Hook (replicate (length ps) True)"]) (simp add: io_step.simps)
  qed (use Resub_hook in \<open>auto simp: io_step.simps intro: exI[of _ "Hook []"]\<close>)
next
  case (Connecting again)
  then show ?thesis by (auto simp: io_step.simps intro: exI[of _ "Connect_error False"])
next
  case Reading
  then show ?thesis by (auto simp: io_step.simps intro: exI[of _ "Frame []"])
qed (use assms in \<open>auto simp: io_step.simps intro!: exI[of _ Go]\<close>)

subsection \<open>Executions\<close>

fun io_exec :: "ws_env list \<Rightarrow> ws_client \<Rightarrow> ws_client option" where
  "io_exec [] c = Some c"
| "io_exec (e # es) c = (case io_step e c of None \<Rightarrow> None | Some d \<Rightarrow> io_exec es d)"

lemma io_exec_append:
  "io_exec (es @ fs) c = (case io_exec es c of None \<Rightarrow> None | Some d \<Rightarrow> io_exec fs d)"
  by (induction es arbitrary: c) (auto split: option.split)

lemma io_exec_runs: "io_exec es c = Some d \<Longrightarrow> runs_to ws_step c d"
  by (induction es arbitrary: c)
     (auto split: option.splits intro: runs_refl runs_step step_io)

lemma started_reachable:
  assumes "io_exec es ((ws_wired m st u os hook)\<lparr>joinable := True, pc := Run_begin\<rparr>) = Some d"
  shows "reachable (ws_init u os hook) ws_step d"
proof -
  have "reachable (ws_init u os hook) ws_step (ws_wired m st u os hook)"
    by (rule reach_init) (auto simp: ws_init_def)
  moreover have "ws_step (ws_wired m st u os hook)
      ((ws_wired m st u os hook)\<lparr>joinable := True, pc := Run_begin\<rparr>)"
    by (rule step_start) (simp_all add: ws_start_def ws_new_def)
  ultimately show ?thesis using assms io_exec_runs reachable_runs_to reach_step by metis
qed

subsection \<open>Properties\<close>

text \<open>
  The address: \<open>parse_wss\<close> rejects exactly what does not start with \<open>wss://\<close>, and reads
  back host, port and target of an address, with port 443 and target \<open>/\<close> when they are absent.
\<close>

lemma parse_wss_reads:
  assumes "CHR ''/'' \<notin> set host" and "CHR '':'' \<notin> set host"
    and "CHR ''/'' \<notin> set port" and "port \<noteq> []"
  shows "parse_wss (''wss://'' @ host) = Inr (host, ''443'', ''/'')
    \<and> parse_wss (''wss://'' @ host @ CHR ''/'' # t) = Inr (host, ''443'', CHR ''/'' # t)
    \<and> parse_wss (''wss://'' @ host @ CHR '':'' # port) = Inr (host, port, ''/'')
    \<and> parse_wss (''wss://'' @ host @ CHR '':'' # port @ CHR ''/'' # t) = Inr (host, port, CHR ''/'' # t)
    \<and> (isl (parse_wss s) \<longleftrightarrow> \<not> starts_with ''wss://'' s)"
proof -
  have parts: "CHR ''/'' \<notin> set (host @ CHR '':'' # port)" using assms by auto
  have pre: "parse_wss (''wss://'' @ rest) =
      (let slash = find_char CHR ''/'' rest;
           hostport = (case slash of None \<Rightarrow> rest | Some i \<Rightarrow> take i rest);
           target = (case slash of None \<Rightarrow> ''/'' | Some i \<Rightarrow> drop i rest)
       in case find_char CHR '':'' hostport of
            None \<Rightarrow> Inr (hostport, ''443'', target)
          | Some c \<Rightarrow>
              let port = drop (c + 1) hostport in
              Inr (take c hostport, if port = [] then ''443'' else port, target))" for rest
    by (simp add: parse_wss_def starts_with_def)
  have slash: "find_char CHR ''/'' (host @ CHR ''/'' # t) = Some (length host)"
    "find_char CHR ''/'' host = None" "find_char CHR ''/'' (host @ CHR '':'' # port) = None"
    "find_char CHR ''/'' ((host @ CHR '':'' # port) @ CHR ''/'' # t) = Some (length (host @ CHR '':'' # port))"
    by (rule find_char_append find_char_notin, rule assms(1) parts)+
  have colon: "find_char CHR '':'' (host @ CHR '':'' # port) = Some (length host)"
    "find_char CHR '':'' host = None"
    using assms(2) by simp_all
  have "parse_wss (''wss://'' @ host) = Inr (host, ''443'', ''/'')"
    unfolding pre by (simp add: slash colon)
  moreover have "parse_wss (''wss://'' @ host @ CHR ''/'' # t) = Inr (host, ''443'', CHR ''/'' # t)"
    unfolding pre by (simp add: slash colon)
  moreover have "parse_wss (''wss://'' @ host @ CHR '':'' # port) = Inr (host, port, ''/'')"
    unfolding pre by (simp add: slash colon assms(4))
  moreover have "parse_wss (''wss://'' @ (host @ CHR '':'' # port) @ CHR ''/'' # t) = Inr (host, port, CHR ''/'' # t)"
    unfolding pre Let_def slash(4) by (simp add: colon assms(4))
  moreover have "isl (parse_wss s) \<longleftrightarrow> \<not> starts_with ''wss://'' s"
    by (auto simp: parse_wss_def Let_def split: option.splits)
  ultimately show ?thesis by (simp only: append_assoc append_Cons simp_thms)
qed

lemma parse_wss_reads_witness:
  "parse_wss ''wss://feed.example:8443/ws'' = Inr (''feed.example'', ''8443'', ''/ws'')"
  using parse_wss_reads[of "''feed.example''" "''8443''" "''ws''" "[]"] by simp

text \<open>
  C17. In every state reachable by any interleaving of the I/O thread with \<open>start\<close>, \<open>stop\<close> and
  sends: the thread reads only a stream that exists and is connected, a send writes only to an
  existing stream, the thread that is running can be joined, the stop that waits for the thread
  has cleared \<open>running_\<close>, every pause is between the two options, and \<open>is_connected()\<close> is false,
  even while connected.
\<close>

theorem ws_safe:
  assumes "reachable (ws_init u os hook) ws_step c"
    and "0 \<le> backoff_initial os" and "backoff_initial os \<le> backoff_max os"
  shows "(pc c \<in> {Read_test, Reading, Resub_hook} \<longrightarrow> has_ws c \<and> connected c)
    \<and> (connected c \<longrightarrow> has_ws c) \<and> (running c \<longrightarrow> joinable c) \<and> (joining c \<longrightarrow> \<not> running c)
    \<and> (\<forall>d \<in> set (pauses (events c)). backoff_initial os \<le> d \<and> d \<le> backoff_max os)
    \<and> \<not> is_connected c"
proof -
  have inv: "ws_inv u os hook c" "pause_inv c"
    using ws.always[OF assms(1)] by (simp_all add: ws_full_inv_def)
  then have "list_all (backoff_ok os) (pauses (events c))" by (simp add: pause_inv_def ws_inv_def)
  then have "\<forall>d \<in> set (pauses (events c)). backoff_initial os \<le> d \<and> d \<le> backoff_max os"
    using assms(2,3) by (auto simp: list_all_iff backoff_ok_def)
  with inv(1) show ?thesis by (auto simp: ws_inv_def is_connected_def)
qed

lemmas ws_eval = io_step.simps io_defs ws_new_def parse_wss_def starts_with_def Let_def
  default_ws_options_def send_text_def

definition connected_sample :: ws_client where
  "connected_sample = \<lparr>url = ''wss://h'', opts = default_ws_options, on_resub = Some [''S''],
     msg_cb = True, state_cb = True, running = True, connected = True, outer_connected = False,
     has_ws = True, streams = 1, joinable = True,
     joining = False, pc = Read_test, depth = 1, backoff = 0,
     events = [State ''connecting'', State ''connected''], sent = [], delivered = [],
     told = [''connecting'', ''connected'']\<rparr>"

lemma connected_sample_reachable:
  "reachable (ws_init ''wss://h'' default_ws_options (Some [''S''])) ws_step connected_sample"
  by (rule started_reachable[of "[Go, Connect_ok]" True True])
     (simp add: ws_eval connected_sample_def)

theorem ws_safe_witness:
  "pc connected_sample = Read_test \<and> has_ws connected_sample \<and> connected connected_sample
    \<and> \<not> is_connected connected_sample"
  using ws_safe[OF connected_sample_reachable]
  by (simp add: default_ws_options_def) (simp add: connected_sample_def)

text \<open>
  C19. Resubscription: in every reachable state outside the hook, the hook has run once for
  each connection made, except for one made by the first attempt of the thread, which it skips;
  and the nested calls are one per connection and one per loss, so the stack only grows.
\<close>

theorem ws_resubscribes:
  assumes "reachable (ws_init u os (Some ps)) ws_step c" and "pc c \<notin> {No_thread, Resub_hook}"
  shows "count_events (State ''connected'') (events c) =
      count_events Resubscribe (events c) + of_bool (first_attempt_ok (events c))
    \<and> depth c = count_events (State ''connected'') (events c)
        + count_events (State ''reconnecting'') (events c)"
  using ws.always[OF assms(1)] assms(2) by (simp add: ws_full_inv_def hook_inv_def ws_inv_def)

theorem ws_resubscribes_witness:
  "count_events (State ''connected'') (events connected_sample) = 1
    \<and> count_events Resubscribe (events connected_sample) = 0"
  using ws_resubscribes[OF connected_sample_reachable] by (simp add: connected_sample_def)

text \<open>
  \<open>stop()\<close> returns: once it has cleared \<open>running_\<close> of a running client, the I/O thread takes at
  most five more steps, whatever the network answers, and until its end it is never stuck.
\<close>

lemma ws_stop_returns:
  assumes "reachable (ws_init u os hook) ws_step c" and "running c"
    and "io_run n (ws_stop_begin c) d"
  shows "n \<le> 5 \<and> \<not> running d \<and> (pc d = Thread_done \<or> (\<exists>env e. io_step env d = Some e))"
proof -
  have inv: "ws_inv u os hook c" using ws.always[OF assms(1)] by (simp add: ws_full_inv_def)
  then have b: "\<not> running (ws_stop_begin c)" "pc (ws_stop_begin c) \<noteq> Run_begin"
    "pc (ws_stop_begin c) \<noteq> No_thread"
    using assms(2) by (auto simp: ws_inv_def ws_stop_begin_def)
  have live: "pc d \<noteq> No_thread"
    using assms(3) b(3)
  proof (induction rule: io_run.induct)
    case (io_more env c d n e)
    from io_more(1) have "pc d \<noteq> No_thread"
      by (induction rule: io_step_cases) (auto simp: io_defs)
    with io_more.IH show ?case by simp
  qed
  have "steps_left p \<le> 5" for p by (cases p) simp_all
  then have "steps_left (pc (ws_stop_begin c)) \<le> 5" .
  with stopped_run[OF assms(3) b(1,2)] have "n \<le> 5" "\<not> running d" by simp_all
  moreover have "pc d = Thread_done \<or> (\<exists>env e. io_step env d = Some e)"
    using io_not_stuck[of d] live by auto
  ultimately show ?thesis by blast
qed

lemma ws_stop_returns_witness:
  "\<not> running (ws_stop_begin connected_sample)
    \<and> (\<exists>env e. io_step env (ws_stop_begin connected_sample) = Some e)"
  using ws_stop_returns[OF connected_sample_reachable _ io_refl]
  by (simp add: connected_sample_def ws_stop_begin_def)

definition reconnect_pause :: "ws_options \<Rightarrow> nat \<Rightarrow> int" where
  "reconnect_pause os i =
     (if i = 0 then backoff_initial os else min (backoff_initial os * 2 ^ i) (backoff_max os))"

lemma reconnect_pause_Suc:
  "0 \<le> backoff_initial os \<Longrightarrow> 0 \<le> backoff_max os \<Longrightarrow>
    reconnect_pause os (Suc i) = min (reconnect_pause os i * 2) (backoff_max os)"
  by (auto simp: reconnect_pause_def min_def)

lemma reconnect_round:
  assumes "pc c = Reconnect_test" and "running c" and "\<not> connected c"
  shows "\<exists>d. io_exec [Go, Connect_error False, Go] c = Some d \<and> pc d = Reconnect_test
    \<and> running d \<and> \<not> connected d \<and> opts d = opts c
    \<and> backoff d = min (backoff c * 2) (backoff_max (opts c))
    \<and> pauses (events d) = pauses (events c) @ [backoff c]"
  using assms by (simp add: io_step.simps io_defs pauses_def)

text \<open>
  The pauses of a reconnection double: after \<open>k\<close> failed attempts the pauses taken are
  \<open>backoff_initial\<close> and then \<open>backoff_initial * 2 ^ i\<close> capped at \<open>backoff_max\<close>, for
  \<open>i = 1, \<dots>, k - 1\<close>.
\<close>

lemma ws_backoff_doubles:
  assumes "0 \<le> backoff_initial (opts c)" and "0 \<le> backoff_max (opts c)"
    and "pc c = Reconnect_test" and "running c" and "\<not> connected c"
    and "backoff c = backoff_initial (opts c)"
  shows "\<exists>d. io_exec (concat (replicate k [Go, Connect_error False, Go])) c = Some d
    \<and> pc d = Reconnect_test \<and> pauses (events d) = pauses (events c) @ map (reconnect_pause (opts c)) [0..<k]"
proof -
  have "\<exists>d. io_exec (concat (replicate k [Go, Connect_error False, Go])) c = Some d
    \<and> pc d = Reconnect_test \<and> running d \<and> \<not> connected d \<and> opts d = opts c
    \<and> backoff d = reconnect_pause (opts c) k
    \<and> pauses (events d) = pauses (events c) @ map (reconnect_pause (opts c)) [0..<k]"
  proof (induction k)
    case 0
    then show ?case using assms by (simp add: reconnect_pause_def)
  next
    case (Suc k)
    then obtain d where d: "io_exec (concat (replicate k [Go, Connect_error False, Go])) c = Some d"
      "pc d = Reconnect_test" "running d" "\<not> connected d" "opts d = opts c"
      "backoff d = reconnect_pause (opts c) k"
      "pauses (events d) = pauses (events c) @ map (reconnect_pause (opts c)) [0..<k]" by blast
    obtain e where "io_exec [Go, Connect_error False, Go] d = Some e" "pc e = Reconnect_test"
      "running e" "\<not> connected e" "opts e = opts c" "backoff e = reconnect_pause (opts c) (Suc k)"
      "pauses (events e) = pauses (events c) @ map (reconnect_pause (opts c)) [0..<Suc k]"
      using reconnect_round[OF d(2-4)] d(5-7) reconnect_pause_Suc[OF assms(1,2), of k] by auto
    moreover have "concat (replicate (Suc k) [Go, Connect_error False, Go]) =
        concat (replicate k [Go, Connect_error False, Go]) @ [Go, Connect_error False, Go]"
      by (simp only: replicate_Suc replicate_append_same[symmetric] concat_append concat.simps append_Nil2)
    ultimately show ?case using d(1) by (simp only: io_exec_append option.case) blast
  qed
  then show ?thesis by blast
qed

definition lost_sample :: ws_client where
  "lost_sample = connected_sample\<lparr>connected := False, pc := Reconnect_test, backoff := 500\<rparr>"

lemma ws_backoff_doubles_witness:
  "\<exists>d. io_exec (concat (replicate 6 [Go, Connect_error False, Go])) lost_sample = Some d
    \<and> pauses (events d) = [500, 1000, 2000, 4000, 5000, 5000]"
proof -
  have "pauses (events lost_sample) = []" "opts lost_sample = default_ws_options"
    by (simp_all add: lost_sample_def connected_sample_def pauses_def)
  moreover have "map (reconnect_pause default_ws_options) [0..<6] = [500, 1000, 2000, 4000, 5000, 5000]"
    by (simp add: upt_rec reconnect_pause_def default_ws_options_def)
  ultimately show ?thesis
    using ws_backoff_doubles[of lost_sample 6]
    by (auto simp: lost_sample_def connected_sample_def default_ws_options_def)
qed

text \<open>
  C20. Three reachable hazards of the life cycle: a second \<open>start()\<close> before the thread has set
  \<open>running_\<close> ends the program; a \<open>stop()\<close> then does nothing, and the destructor ends the program;
  and after the server has closed the connection the thread is gone while \<open>running_\<close> is still
  true, so that \<open>start()\<close> returns without starting anything.
\<close>

theorem ws_lifecycle_hazards:
  "\<exists>c d. reachable (ws_init ''wss://h'' os hook) ws_step c \<and> \<not> joining c
    \<and> ws_start c = Inl Terminated \<and> ws_stop_begin c = c \<and> ws_destroy c = Inl Terminated
    \<and> reachable (ws_init ''wss://h'' os hook) ws_step d \<and> \<not> joining d
    \<and> pc d = Thread_done \<and> \<not> connected d \<and> ws_start d = Inr d"
proof -
  let ?c = "(ws_wired True True ''wss://h'' os hook)\<lparr>joinable := True, pc := Run_begin\<rparr>"
  have c: "reachable (ws_init ''wss://h'' os hook) ws_step ?c"
    by (rule started_reachable[of "[]" True True]) simp
  have "\<exists>d. io_exec [Go, Connect_ok, Go, Read_closed] ?c = Some d
      \<and> pc d = Thread_done \<and> running d \<and> \<not> connected d \<and> \<not> joining d"
    by (simp add: ws_eval)
  then obtain d where d: "io_exec [Go, Connect_ok, Go, Read_closed] ?c = Some d"
    "pc d = Thread_done" "running d" "\<not> connected d" "\<not> joining d" by blast
  have "ws_start ?c = Inl Terminated" "ws_stop_begin ?c = ?c" "ws_destroy ?c = Inl Terminated"
    "\<not> joining ?c" by (simp_all add: ws_start_def ws_stop_begin_def ws_destroy_def ws_new_def)
  moreover have "ws_start d = Inr d" using d(3) by (simp add: ws_start_def)
  ultimately show ?thesis using c started_reachable[OF d(1)] d(2,4,5) by blast
qed

end
