(* ===== verification/Ws_Connect.thy ===== *)
theory Ws_Connect
  imports Websocket_Client
begin

text \<open>
  Two refinements of the client's step relation. \<open>connect_once\<close> (\<open>src/websocket_client.cpp\<close>) call
  by call over a network, which shows that the answers \<open>Connect_ok\<close> and \<open>Connect_error\<close> of the
  environment are exactly what it can do. And \<open>send_text\<close> as a thread other than the I/O thread
  runs it, cut between its test and its use of the stream.
\<close>

subsection \<open>One connection attempt\<close>

text \<open>
  The handshake carries host and target, and the decorator: the function that sets the configured
  headers, in key order, in the fields of the request the library has made.
\<close>

type_synonym handshake =
  "string \<times> string \<times> ((string \<times> string) list \<Rightarrow> (string \<times> string) list)"

definition decorator :: "string_map \<Rightarrow> (string \<times> string) list \<Rightarrow> (string \<times> string) list" where
  "decorator hs fs = fold set_field hs fs"

definition connect_calls :: "ws_client \<Rightarrow> string \<times> string \<times> string \<Rightarrow> handshake net_call list" where
  "connect_calls c = (\<lambda>(host, port, target).
     open_calls (verify_peer (opts c)) (ca_file (opts c)) host port (conn_timeout (opts c))
     @ [Request (host, target, decorator (headers (opts c)))])"

definition connect_attempt :: "handshake network \<Rightarrow> ws_client \<Rightarrow> unit res \<times> handshake net_call list" where
  "connect_attempt nw c = (case parse_wss (url c) of
     Inl e \<Rightarrow> (Inl e, [])
   | Inr addr \<Rightarrow> run_calls nw [] (connect_calls c addr))"

text \<open>
  Every exception is caught. The stream is stored in \<open>ws\<close> as soon as it is made, so a later
  failure leaves it there.
\<close>

definition connect_once :: "handshake network \<Rightarrow> ws_client \<Rightarrow> bool \<times> ws_client" where
  "connect_once nw c =
     (let c = notify_state ''connecting'' c in
      case connect_attempt nw c of
        (Inl e, tr) \<Rightarrow>
          let made = (New_stream \<in> set (butlast tr)) in
          (False, c\<lparr>has_ws := has_ws c \<or> made, streams := streams c + of_bool made,
                    connected := False\<rparr>)
      | (Inr u, tr) \<Rightarrow>
          (True, notify_state ''connected''
                   (c\<lparr>has_ws := True, streams := streams c + 1, connected := True\<rparr>)))"

text \<open>
  What the caller does next: \<open>run\<close> after the first attempt, or (\<open>again\<close>) \<open>reconnect_loop\<close>, which
  goes to sleep after a failure and calls the hook after a success.
\<close>

definition after_connect :: "bool \<Rightarrow> bool \<times> ws_client \<Rightarrow> ws_client" where
  "after_connect again = (\<lambda>(ok, c).
     if ok then c\<lparr>pc := (if again then Resub_hook else Read_test), depth := depth c + 1\<rparr>
     else if again then c\<lparr>pc := Sleeping\<rparr>
     else (notify_state ''reconnecting'' c)
            \<lparr>backoff := backoff_initial (opts c), pc := Reconnect_test, depth := depth c + 1\<rparr>)"

lemma connect_step_ok:
  "parse_wss (url c) = Inr addr \<Longrightarrow>
    io_step Connect_ok (connect_begin again c) = Some (after_connect again
      (True, notify_state ''connected'' ((notify_state ''connecting'' c)
        \<lparr>has_ws := True, streams := streams c + 1, connected := True\<rparr>)))"
  by (simp add: io_step.simps io_defs after_connect_def)

lemma connect_step_error:
  "io_step (Connect_error b) (connect_begin again c) =
     (let made = (b \<and> \<not> isl (parse_wss (url c))) in Some (after_connect again
       (False, (notify_state ''connecting'' c)
         \<lparr>has_ws := has_ws c \<or> made, streams := streams c + of_bool made, connected := False\<rparr>)))"
  by (simp add: io_step.simps io_defs after_connect_def Let_def)

text \<open>Where an attempt can fail: with or without a stream left behind.\<close>

lemma connect_calls_split:
  "\<exists>a b. connect_calls c addr = a @ New_stream # b \<and> New_stream \<notin> set a \<and> b \<noteq> []"
proof -
  obtain h p t where "addr = (h, p, t)" by (cases addr)
  then have "connect_calls c addr = ([Default_paths] @ (if ca_file (opts c) \<noteq> [] then [Load_ca (ca_file (opts c))] else [])
      @ [Verify_mode (verify_peer (opts c)), Resolve h p]) @ New_stream # [Deadline (conn_timeout (opts c)),
      Tcp_connect, Set_sni h, Tls_handshake, Request (h, t, decorator (headers (opts c)))]"
    by (simp add: connect_calls_def open_calls_def)
  then show ?thesis by (intro exI conjI) (assumption, auto)
qed

lemma connect_once_error:
  assumes "parse_wss (url c) = Inr addr"
  shows "\<exists>nw. connect_once nw c = (False, (notify_state ''connecting'' c)
    \<lparr>has_ws := has_ws c \<or> made, streams := streams c + of_bool made, connected := False\<rparr>)"
proof -
  obtain a b where ab: "connect_calls (notify_state ''connecting'' c) addr = a @ New_stream # b"
    "New_stream \<notin> set a" "b \<noteq> []" using connect_calls_split by blast
  obtain d ds where d: "b = d # ds" using ab(3) by (cases b) auto
  let ?n = "if made then Suc (length a) else length a"
  let ?nw = "\<lambda>(tr :: handshake net_call list) (c :: handshake net_call). length tr < ?n"
  have "\<exists>e tr. run_calls ?nw [] (a @ New_stream # b) = (Inl e, tr)
      \<and> (New_stream \<in> set (butlast tr)) = made"
    using ab(2) by (auto simp: run_calls_up_to d butlast_append nth_append)
  then obtain e tr where tr: "run_calls ?nw [] (a @ New_stream # b) = (Inl e, tr)"
    "(New_stream \<in> set (butlast tr)) = made" by blast
  have "url (notify_state ''connecting'' c) = url c" by (simp add: notify_state_def)
  then have "connect_once ?nw c = (False, (notify_state ''connecting'' c)
    \<lparr>has_ws := has_ws c \<or> made, streams := streams c + of_bool made, connected := False\<rparr>)"
    using assms tr by (simp add: connect_once_def connect_attempt_def ab(1) Let_def) (simp add: notify_state_def)
  then show ?thesis by blast
qed

lemma connect_once_sound: "\<exists>env. io_step env (connect_begin again c) = Some (after_connect again (connect_once nw c))"
proof -
  have u: "url (notify_state ''connecting'' c) = url c" by (simp add: notify_state_def)
  show ?thesis
  proof (cases "parse_wss (url c)")
    case (Inl e)
    then have "io_step (Connect_error False) (connect_begin again c) = Some (after_connect again (connect_once nw c))"
      by (simp add: connect_step_error connect_once_def connect_attempt_def u Let_def) (simp add: notify_state_def)
    then show ?thesis by blast
  next
    case (Inr addr)
    obtain r tr where r: "run_calls nw [] (connect_calls (notify_state ''connecting'' c) addr) = (r, tr)"
      by (cases "run_calls nw [] (connect_calls (notify_state ''connecting'' c) addr)")
    let ?env = "if isl r then Connect_error (New_stream \<in> set (butlast tr)) else Connect_ok"
    have "io_step ?env (connect_begin again c) = Some (after_connect again (connect_once nw c))"
      using r Inr
      by (cases r) (simp_all add: connect_step_error connect_step_ok connect_once_def connect_attempt_def u Let_def,
          simp_all add: notify_state_def)
    then show ?thesis by blast
  qed
qed

lemma connect_once_complete:
  assumes "io_step env (connect_begin again c) = Some d"
  shows "\<exists>nw. after_connect again (connect_once nw c) = d"
proof -
  have p: "pc (connect_begin again c) = Connecting again" by (simp add: connect_begin_def)
  have u: "url (notify_state ''connecting'' c) = url c" "url (connect_begin again c) = url c"
    by (simp_all add: notify_state_def connect_begin_def)
  consider "env = Connect_ok" | b where "env = Connect_error b"
    using assms p by (cases env) (auto simp: io_step.simps)
  then show ?thesis
  proof cases
    case 1
    with assms p u obtain addr where a: "parse_wss (url c) = Inr addr"
      by (auto simp: io_step.simps split: sum.splits)
    have "run_calls (\<lambda>tr c. True) tr cs = (Inr (), tr @ cs)" for tr and cs :: "handshake net_call list"
      by (induction cs arbitrary: tr) simp_all
    with 1 assms a have "after_connect again (connect_once (\<lambda>tr c. True) c) = d"
      by (simp add: connect_step_ok connect_once_def connect_attempt_def u Let_def) (simp add: notify_state_def)
    then show ?thesis by blast
  next
    case 2
    show ?thesis
    proof (cases "parse_wss (url c)")
      case (Inl x)
      with 2 assms have "d = after_connect again (connect_once (\<lambda>tr c. True) c)"
        by (simp add: connect_step_error connect_once_def connect_attempt_def u Let_def) (simp add: notify_state_def)
      then show ?thesis by blast
    next
      case (Inr addr)
      from connect_once_error[OF this, of b] obtain nw where "connect_once nw c =
          (False, (notify_state ''connecting'' c)
            \<lparr>has_ws := has_ws c \<or> b, streams := streams c + of_bool b, connected := False\<rparr>)" by blast
      with 2 assms Inr have "after_connect again (connect_once nw c) = d"
        by (simp add: connect_step_error Let_def)
      then show ?thesis by blast
    qed
  qed
qed

text \<open>
  What the handshake carries. Names are compared without case there but not in the map of the
  options, so of two spellings of a name the last in key order wins.
\<close>

lemma attempt_decorator:
  assumes "Request (host, tgt, dec) \<in> set (snd (connect_attempt nw c))"
  shows "dec = decorator (headers (opts c))"
proof -
  obtain addr where "Request (host, tgt, dec) \<in> set (snd (run_calls nw [] (connect_calls c addr)))"
    using assms by (auto simp: connect_attempt_def split: sum.splits)
  then have "Request (host, tgt, dec) \<in> set (connect_calls c addr)"
    using run_calls_set[of nw "[]" "connect_calls c addr"] by auto
  then show ?thesis by (cases addr) (auto simp: connect_calls_def open_calls_def split: if_splits)
qed

lemma respelled_header_wins:
  "find_field (decorator (sm_set ''Authorization'' ''Bearer jwt'' [(''authorization'', ''other'')]) fs)
     ''authorization'' = Some (''authorization'', ''other'')"
proof -
  have "sm_set ''Authorization'' ''Bearer jwt'' [(''authorization'', ''other'')]
      = [(''Authorization'', ''Bearer jwt''), (''authorization'', ''other'')]"
    by (simp add: less_char_def)
  moreover have "lower ''authorization'' = ''authorization''"
    by (simp add: lower_def to_lower_def is_upper_def)
  ultimately show ?thesis by (simp add: decorator_def header_fields.get_put)
qed

subsection \<open>Sending from another thread\<close>

text \<open>
  \<open>send_text\<close> reads \<open>ws\<close> and \<open>connected\<close>, then reads the pointer \<open>ws\<close> again for the write. The
  writer holds the number of the stream it writes to.
\<close>

datatype sender_pc = Idle | Tested | Writing nat

record sending =
  client :: ws_client
  sender :: sender_pc

inductive send_step :: "sending \<Rightarrow> sending \<Rightarrow> bool" where
  send_io: "io_step env (client s) = Some c \<Longrightarrow> send_step s (s\<lparr>client := c\<rparr>)"
| send_test: "sender s = Idle \<Longrightarrow> has_ws (client s) \<Longrightarrow> connected (client s) \<Longrightarrow>
    send_step s (s\<lparr>sender := Tested\<rparr>)"
| send_write: "sender s = Tested \<Longrightarrow> send_step s (s\<lparr>sender := Writing (streams (client s))\<rparr>)"
| send_done: "sender s = Writing n \<Longrightarrow> send_step s (s\<lparr>sender := Idle\<rparr>)"

lemma io_exec_send:
  "io_exec es (client s) = Some c \<Longrightarrow> runs_to send_step s (s\<lparr>client := c\<rparr>)"
proof (induction es arbitrary: s)
  case (Cons e es)
  then obtain d where d: "io_step e (client s) = Some d" "io_exec es d = Some c"
    by (auto split: option.splits)
  have "runs_to send_step (s\<lparr>client := d\<rparr>) (s\<lparr>client := d, client := c\<rparr>)"
    by (rule Cons.IH) (simp add: d(2))
  with d(1) show ?case by (auto intro: runs_step send_io)
qed (auto simp: runs_refl)

subsection \<open>Properties\<close>

text \<open>
  C18. The attempts of the model are those of the code: from any state, what the client can be
  after \<open>connect_once\<close> and the next action of its caller, over all networks, is exactly what the
  step relation allows between the start of an attempt and its end.
\<close>

theorem connect_once_refines:
  "range (\<lambda>nw. after_connect again (connect_once nw c)) =
    {d. \<exists>env. io_step env (connect_begin again c) = Some d}"
  using connect_once_sound[of again c] connect_once_complete[of _ again c] by force

definition sending_init :: "string \<Rightarrow> ws_options \<Rightarrow> string list option \<Rightarrow> sending \<Rightarrow> bool" where
  "sending_init u os hook s \<longleftrightarrow>
     s = \<lparr>client = (ws_wired True True u os hook)\<lparr>joinable := True, pc := Run_begin\<rparr>, sender = Idle\<rparr>"

text \<open>
  C21. A send races with the I/O thread: there is a run in which a thread is writing to a stream
  that the I/O thread has since destroyed and replaced, one in which a thread that found the
  client connected writes to a stream whose handshake has not been completed, and one in which
  a thread writes to the very stream, and TLS session, that the I/O thread is reading.
\<close>

theorem send_races_with_reconnect:
  "(\<exists>s n. reachable (sending_init ''wss://h'' os hook) send_step s
      \<and> sender s = Writing n \<and> n < streams (client s))
    \<and> (\<exists>s n. reachable (sending_init ''wss://h'' os hook) send_step s
      \<and> sender s = Writing n \<and> n = streams (client s) \<and> \<not> connected (client s))
    \<and> (\<exists>s n. reachable (sending_init ''wss://h'' os hook) send_step s
      \<and> sender s = Writing n \<and> n = streams (client s) \<and> pc (client s) = Reading)"
proof -
  let ?c = "(ws_wired True True ''wss://h'' os hook)\<lparr>joinable := True, pc := Run_begin\<rparr>"
  let ?R = "reachable (sending_init ''wss://h'' os hook) send_step"
  have up: "\<exists>d. io_exec [Go, Connect_ok, Go] ?c = Some d \<and> connected d \<and> has_ws d \<and> streams d = 1
      \<and> pc d = Reading \<and> (\<exists>e. io_exec [Read_failed, Go, Connect_error True] d = Some e \<and> \<not> connected e \<and> streams e = 2)"
    by (simp add: ws_eval)
  then obtain d e where d: "io_exec [Go, Connect_ok, Go] ?c = Some d" "connected d" "has_ws d" "streams d = 1" "pc d = Reading"
    and e: "io_exec [Read_failed, Go, Connect_error True] d = Some e" "\<not> connected e" "streams e = 2"
    by blast
  have "?R \<lparr>client = ?c, sender = Idle\<rparr>" by (rule reach_init) (simp add: sending_init_def)
  from reachable_runs_to[OF io_exec_send this, of "[Go, Connect_ok, Go]" d] d(1)
  have "?R \<lparr>client = d, sender = Idle\<rparr>" by (simp del: io_exec.simps)
  from reach_step[OF this, OF send_test] d(2,3) have t: "?R \<lparr>client = d, sender = Tested\<rparr>" by simp
  from reach_step[OF t, OF send_write] d(4) have three: "?R \<lparr>client = d, sender = Writing 1\<rparr>" by simp
  from reachable_runs_to[OF io_exec_send this, of "[Read_failed, Go, Connect_error True]" e] e(1)
  have one: "?R \<lparr>client = e, sender = Writing 1\<rparr>" by (simp del: io_exec.simps)
  from reachable_runs_to[OF io_exec_send t, of "[Read_failed, Go, Connect_error True]" e] e(1)
  have "?R \<lparr>client = e, sender = Tested\<rparr>" by (simp del: io_exec.simps)
  from reach_step[OF this, OF send_write] e(3) have two: "?R \<lparr>client = e, sender = Writing 2\<rparr>" by simp
  have "\<exists>s n. ?R s \<and> sender s = Writing n \<and> n < streams (client s)"
    using one e(3) by (intro exI[of _ "\<lparr>client = e, sender = Writing 1\<rparr>"] exI[of _ 1]) simp
  moreover have "\<exists>s n. ?R s \<and> sender s = Writing n \<and> n = streams (client s) \<and> \<not> connected (client s)"
    using two e(2,3) by (intro exI[of _ "\<lparr>client = e, sender = Writing 2\<rparr>"] exI[of _ 2]) simp
  moreover have "\<exists>s n. ?R s \<and> sender s = Writing n \<and> n = streams (client s) \<and> pc (client s) = Reading"
    using three d(4,5) by (intro exI[of _ "\<lparr>client = d, sender = Writing 1\<rparr>"] exI[of _ 1]) simp
  ultimately show ?thesis by blast
qed

end
