(* ===== verification/Sharder.thy ===== *)
theory Sharder
  imports Consumer Subscription_Manager Websocket_Client
begin

text \<open>
  \<open>Sharder\<close> (\<open>include/sharder.h\<close>, \<open>src/sharder.cpp\<close>): the token list cut into shards and one
  stack of client, subscription manager, queue and consumer for each. Every public operation
  but the two readers of flags holds the mutex throughout. What the I/O threads do while
  \<open>start()\<close> runs is an argument of it.
\<close>

subsection \<open>State\<close>

record sharder_options =
  wss_url :: string
  max_tokens_per_conn :: u64
  subscribe_batch_size :: u64
  peer_verified :: bool
  ca_path :: string
  token_prefix :: string
  extra_headers :: string_map

record worker =
  w_ws :: ws_client
  w_sub :: sub_manager
  w_q :: ingest_queue
  w_cons :: consumer_life
  w_hand :: "string option"   \<comment> \<open>the frame the consumer has popped and not yet written\<close>
  w_tokens :: "string list"

record sharder =
  sh_opts :: sharder_options
  auth_header_value :: string
  common_headers :: string_map
  desired_tokens :: "string list"
  workers :: "worker list"
  sh_running :: bool

definition default_sharder_options :: sharder_options where
  "default_sharder_options = \<lparr>wss_url = [], max_tokens_per_conn = 800, subscribe_batch_size = 100,
     peer_verified = True, ca_path = [], token_prefix = ''nse_cm|'', extra_headers = []\<rparr>"

definition sharder_new :: "sharder_options \<Rightarrow> sharder" where
  "sharder_new o1 = \<lparr>sh_opts = o1, auth_header_value = [], common_headers = [],
     desired_tokens = [], workers = [], sh_running = False\<rparr>"

subsection \<open>Building the workers\<close>

definition shard :: "u64 \<Rightarrow> string list \<Rightarrow> string list list res" where
  "shard max_per_conn tokens =
     (if tokens = [] then Inr []
      else slice_loop (Suc (length tokens)) tokens (if max_per_conn = 0 then 800 else max_per_conn) 0)"

definition effective_headers :: "sharder \<Rightarrow> string_map" where
  "effective_headers s =
     (if auth_header_value s \<noteq> [] then sm_set ''Authorization'' (auth_header_value s) (common_headers s)
      else common_headers s)"

definition token_fmt :: "string \<Rightarrow> string \<Rightarrow> string" where
  "token_fmt pref t = (if pref = [] then t else pref @ t)"

text \<open>
  The texts the resubscribe hook sends: the payloads of the worker's manager, which nothing
  changes while the worker lives. (A payload that cannot be written as JSON is reported by the
  initial subscription of \<open>start()\<close>, which builds the same ones.)
\<close>

definition hook_texts :: "'d runtime \<Rightarrow> set_order \<Rightarrow> sub_manager \<Rightarrow> string list" where
  "hook_texts rt order m = (case build_subscribe_batches rt order m of Inl e \<Rightarrow> [] | Inr ps \<Rightarrow> ps)"

definition make_worker :: "'d runtime \<Rightarrow> set_order \<Rightarrow> sharder \<Rightarrow> string list \<Rightarrow> worker res" where
  "make_worker rt order s shard_tokens =
     (let o1 = sh_opts s;
          sub0 = sm_new LTP (subscribe_batch_size o1) (Some (token_fmt (token_prefix o1)));
          sub = (if shard_tokens \<noteq> [] then add_many shard_tokens sub0 else sub0);
          wopts = default_ws_options\<lparr>verify_peer := peer_verified o1, ca_file := ca_path o1,
            headers := effective_headers s, ping_interval := 15, conn_timeout := 10\<rparr>
      in bindE (mk_queue (1024 * 8)) (\<lambda>q.
           Inr \<lparr>w_ws = on_resubscribe (hook_texts rt order sub)
                  (on_message True (on_state True (ws_new (wss_url o1) wopts))),
                w_sub = sub, w_q = q, w_cons = consumer_new, w_hand = None,
                w_tokens = shard_tokens\<rparr>))"

text \<open>
  \<open>stop()\<close> of a client until it returns, and the destruction of a worker, member by member in
  reverse order; both destructors call \<open>stop()\<close>. A client whose thread has not yet set
  \<open>running\<close> is not stopped.
\<close>

definition ws_stopped :: "ws_client \<Rightarrow> ws_client" where
  "ws_stopped c = (if running c then ws_join (ws_stop_begin c) else c)"

definition drop_worker :: "worker \<Rightarrow> unit res" where
  "drop_worker w =
     bindE (consumer_destroy (w_cons w)) (\<lambda>_. ws_destroy (ws_stopped (w_ws w)))"

definition build_workers :: "'d runtime \<Rightarrow> set_order \<Rightarrow> sharder \<Rightarrow> sharder res" where
  "build_workers rt order s =
     bindE (mapE drop_worker (workers s)) (\<lambda>_.
       bindE (shard (max_tokens_per_conn (sh_opts s)) (desired_tokens s)) (\<lambda>shards.
         bindE (mapE (make_worker rt order s) (if shards = [] then [[]] else shards)) (\<lambda>ws.
           Inr (s\<lparr>workers := ws\<rparr>))))"

subsection \<open>The threads of a worker\<close>

text \<open>
  The callback \<open>on_message\<close> pushes a frame or drops it. A step of the I/O thread hands what it
  delivers to the callback. The consumer pops a frame, and later parses it and writes the
  record; the store is shared by the workers and not part of this state (see \<open>Market_Feed\<close>).
\<close>

definition deliver :: "string \<Rightarrow> worker \<Rightarrow> worker" where
  "deliver m w = w\<lparr>w_q := snd (try_push m (w_q w))\<rparr>"

datatype worker_op = Net ws_env | Pop string | Write

fun worker_step :: "worker_op \<Rightarrow> worker \<Rightarrow> worker option" where
  "worker_step (Net env) w =
     (case io_step env (w_ws w) of
        None \<Rightarrow> None
      | Some c \<Rightarrow> Some (fold deliver (drop (length (delivered (w_ws w))) (delivered c)) (w\<lparr>w_ws := c\<rparr>)))"
| "worker_step (Pop junk) w =
     (if c_running (w_cons w) \<and> w_hand w = None
      then (case try_pop junk (w_q w) of (r, q) \<Rightarrow> Some (w\<lparr>w_q := q, w_hand := r\<rparr>))
      else None)"
| "worker_step Write w = (if w_hand w = None then None else Some (w\<lparr>w_hand := None\<rparr>))"

fun worker_exec :: "worker_op list \<Rightarrow> worker \<Rightarrow> worker option" where
  "worker_exec [] w = Some w"
| "worker_exec (a # as) w = (case worker_step a w of None \<Rightarrow> None | Some v \<Rightarrow> worker_exec as v)"

subsection \<open>Starting and stopping\<close>

definition start_consumer :: "worker \<Rightarrow> worker res" where
  "start_consumer w = bindE (consumer_start (w_cons w)) (\<lambda>c. Inr (w\<lparr>w_cons := c\<rparr>))"

definition start_ws :: "worker \<Rightarrow> worker res" where
  "start_ws w = bindE (ws_start (w_ws w)) (\<lambda>c. Inr (w\<lparr>w_ws := c\<rparr>))"

text \<open>
  The initial payloads of a worker. \<open>io n\<close> is what the worker's two threads do while \<open>n\<close> payloads
  are left to send, and \<open>write_ok\<close> whether the write of a payload completes. The results of
  \<open>send_text\<close> are ignored.
\<close>

fun send_payloads ::
  "(nat \<Rightarrow> worker \<Rightarrow> worker) \<Rightarrow> (string \<Rightarrow> bool) \<Rightarrow> string list \<Rightarrow> worker \<Rightarrow> worker" where
  "send_payloads io write_ok [] w = io 0 w"
| "send_payloads io write_ok (p # ps) w =
     (let w = io (Suc (length ps)) w in
      send_payloads io write_ok ps (w\<lparr>w_ws := snd (send_text (write_ok p) p (w_ws w))\<rparr>))"

definition initial_subscribe ::
  "'d runtime \<Rightarrow> set_order \<Rightarrow> (nat \<Rightarrow> worker \<Rightarrow> worker) \<Rightarrow> (string \<Rightarrow> bool) \<Rightarrow> worker \<Rightarrow> worker res" where
  "initial_subscribe rt order io write_ok w =
     bindE (build_subscribe_batches rt order (w_sub w)) (\<lambda>ps. Inr (send_payloads io write_ok ps w))"

definition sharder_start ::
  "'d runtime \<Rightarrow> set_order \<Rightarrow> (nat \<Rightarrow> worker \<Rightarrow> worker) \<Rightarrow> (string \<Rightarrow> bool) \<Rightarrow> sharder
     \<Rightarrow> (bool \<times> sharder) res" where
  "sharder_start rt order io write_ok s =
     (if sh_running s then Inr (True, s)
      else
        bindE (build_workers rt order s) (\<lambda>s.
        bindE (mapE start_consumer (workers s)) (\<lambda>ws.
        bindE (mapE start_ws ws) (\<lambda>ws.
        bindE (mapE (initial_subscribe rt order io write_ok) ws) (\<lambda>ws.
          Inr (True, s\<lparr>workers := ws, sh_running := True\<rparr>))))))"

text \<open>\<open>stop()\<close> stops every client, then every consumer, and then destroys the workers.\<close>

definition sharder_stop :: "sharder \<Rightarrow> sharder res" where
  "sharder_stop s =
     (if \<not> sh_running s then Inr s
      else
        let ws = map (\<lambda>w. w\<lparr>w_ws := ws_stopped (w_ws w)\<rparr>) (workers s);
            ws = map (\<lambda>w. w\<lparr>w_cons := consumer_stop (w_cons w)\<rparr>) ws
        in bindE (mapE drop_worker ws) (\<lambda>_. Inr (s\<lparr>workers := [], sh_running := False\<rparr>)))"

text \<open>The destructor stops the sharder and destroys what workers are left.\<close>

definition sharder_destroy :: "sharder \<Rightarrow> unit res" where
  "sharder_destroy s =
     bindE (sharder_stop s) (\<lambda>s. bindE (mapE drop_worker (workers s)) (\<lambda>_. Inr ()))"

subsection \<open>The other operations\<close>

definition set_access_token :: "string \<Rightarrow> sharder \<Rightarrow> sharder" where
  "set_access_token v s = s\<lparr>auth_header_value := v\<rparr>"

definition set_common_headers :: "string_map \<Rightarrow> sharder \<Rightarrow> sharder" where
  "set_common_headers h s = s\<lparr>common_headers := h\<rparr>"

definition set_tokens :: "string list \<Rightarrow> sharder \<Rightarrow> sharder" where
  "set_tokens tokens s = s\<lparr>desired_tokens := tokens\<rparr>"

definition num_workers :: "sharder \<Rightarrow> nat" where
  "num_workers s = length (workers s)"

definition desired_tokens_snapshot :: "sharder \<Rightarrow> string list" where
  "desired_tokens_snapshot s = desired_tokens s"

fun broadcast :: "(string \<Rightarrow> bool) \<Rightarrow> string \<Rightarrow> bool \<Rightarrow> worker list \<Rightarrow> bool \<times> worker list" where
  "broadcast write_ok payload any [] = (any, [])"
| "broadcast write_ok payload any (w # ws) =
     (case send_text (write_ok payload) payload (w_ws w) of (b, c) \<Rightarrow>
      case broadcast write_ok payload (b \<or> any) ws of (r, ws') \<Rightarrow> (r, w\<lparr>w_ws := c\<rparr> # ws'))"

definition debug_broadcast_text :: "(string \<Rightarrow> bool) \<Rightarrow> string \<Rightarrow> sharder \<Rightarrow> bool \<times> sharder" where
  "debug_broadcast_text write_ok payload s =
     (if \<not> sh_running s then (False, s)
      else case broadcast write_ok payload False (workers s) of (r, ws) \<Rightarrow> (r, s\<lparr>workers := ws\<rparr>))"

subsection \<open>Between calls\<close>

text \<open>A sharder that is not running has no workers, whatever calls came before.\<close>

definition stopped :: "sharder \<Rightarrow> bool" where
  "stopped s \<longleftrightarrow> \<not> sh_running s \<and> workers s = []"

definition sharder_inv :: "sharder \<Rightarrow> bool" where
  "sharder_inv s \<longleftrightarrow> sh_running s \<or> workers s = []"

lemma sharder_inv_new: "sharder_inv (sharder_new o1)" "stopped (sharder_new o1)"
  by (simp_all add: sharder_inv_def sharder_new_def stopped_def)

lemma sharder_inv_stopped: "sharder_inv s \<Longrightarrow> stopped s \<longleftrightarrow> \<not> sh_running s"
  by (auto simp: sharder_inv_def stopped_def)

lemma sharder_inv_calls:
  "sharder_inv s \<Longrightarrow> sharder_start rt order io write_ok s = Inr (b, s') \<Longrightarrow> sharder_inv s' \<and> sh_running s'"
  "sharder_inv s \<Longrightarrow> sharder_stop s = Inr s' \<Longrightarrow> sharder_inv s' \<and> stopped s'"
  "sharder_inv s \<Longrightarrow> sharder_inv (set_tokens tokens s)"
  "sharder_inv s \<Longrightarrow> sharder_inv (set_access_token v s)"
  "sharder_inv s \<Longrightarrow> sharder_inv (set_common_headers h s)"
  "sharder_inv s \<Longrightarrow> sharder_inv (snd (debug_broadcast_text ok p s))"
  by (auto simp: sharder_inv_def stopped_def sharder_start_def sharder_stop_def Let_def bindE_Inr_iff
      set_tokens_def set_access_token_def set_common_headers_def debug_broadcast_text_def
      split: if_splits prod.splits)

subsection \<open>What \<open>start()\<close> builds\<close>

definition shard_width :: "u64 \<Rightarrow> nat" where
  "shard_width n = (if n = 0 then 800 else unat n)"

interpretation shards: slicer shard shard_width
proof unfold_locales
  fix xs :: "string list" and n :: u64
  assume "length xs \<le> 2 ^ 63"
  then show "shard n xs = Inr (chunks (shard_width n) xs)"
    using slice_loop_chunks[of xs n] slice_loop_chunks[of xs 800]
    by (simp add: shard_def shard_width_def)
qed (simp add: shard_width_def unat_gt_0)

definition shard_list :: "sharder \<Rightarrow> string list list" where
  "shard_list s = (let cs = chunks (shard_width (max_tokens_per_conn (sh_opts s))) (desired_tokens s)
     in if cs = [] then [[]] else cs)"

lemma shard_list_props:
  "concat (shard_list s) = desired_tokens s"
  "sh \<in> set (shard_list s) \<Longrightarrow> length sh \<le> shard_width (max_tokens_per_conn (sh_opts s))"
  "length (shard_list s) = max 1 ((length (desired_tokens s)
     + shard_width (max_tokens_per_conn (sh_opts s)) - 1) div shard_width (max_tokens_per_conn (sh_opts s)))"
proof -
  let ?n = "shard_width (max_tokens_per_conn (sh_opts s))"
  have pos: "0 < ?n" by (rule shards.width_pos)
  show "concat (shard_list s) = desired_tokens s"
    using concat_chunks[OF pos, of "desired_tokens s"] pos by (auto simp: shard_list_def Let_def)
  show "sh \<in> set (shard_list s) \<Longrightarrow> length sh \<le> ?n"
    using chunks_sizes by (auto simp: shard_list_def Let_def split: if_splits)
  have l: "length (chunks ?n (desired_tokens s)) = (length (desired_tokens s) + ?n - 1) div ?n"
    by (rule length_chunks[OF pos])
  then show "length (shard_list s) = max 1 ((length (desired_tokens s) + ?n - 1) div ?n)"
  proof (cases "desired_tokens s = []")
    case False
    then have "0 < length (chunks ?n (desired_tokens s))" using pos by simp
    with l show ?thesis using False pos by (simp add: shard_list_def Let_def max_def)
  qed (use pos in \<open>simp add: shard_list_def\<close>)
qed

definition sub_of :: "sharder \<Rightarrow> string list \<Rightarrow> sub_manager" where
  "sub_of s sh = add_many sh
     (sm_new LTP (subscribe_batch_size (sh_opts s)) (Some (token_fmt (token_prefix (sh_opts s)))))"

definition ws_options_of :: "sharder \<Rightarrow> ws_options" where
  "ws_options_of s = default_ws_options\<lparr>verify_peer := peer_verified (sh_opts s),
     ca_file := ca_path (sh_opts s), headers := effective_headers s, ping_interval := 15,
     conn_timeout := 10\<rparr>"

definition ws_of :: "'d runtime \<Rightarrow> set_order \<Rightarrow> sharder \<Rightarrow> string list \<Rightarrow> ws_client" where
  "ws_of rt order s sh =
     ws_wired True True (wss_url (sh_opts s)) (ws_options_of s) (Some (hook_texts rt order (sub_of s sh)))"

definition big_queue :: ingest_queue where
  "big_queue = \<lparr>qbuf = replicate 8192 [], qmask = 8191, qhead = 0, qtail = 0\<rparr>"

lemma mk_big_queue: "mk_queue (1024 * 8) = Inr big_queue"
  by (simp add: mk_queue_def next_pow2_def is_power_of_two_def big_queue_def)

lemma make_worker_eq: "make_worker rt order s sh = Inr \<lparr>w_ws = ws_of rt order s sh,
    w_sub = sub_of s sh, w_q = big_queue, w_cons = consumer_new, w_hand = None, w_tokens = sh\<rparr>"
  by (simp add: make_worker_def mk_big_queue[simplified] ws_of_def sub_of_def ws_options_of_def
      on_resubscribe_def on_message_def on_state_def Let_def add_many_def sm_new_def)

lemma make_worker_fun: "make_worker rt order s = (\<lambda>sh. Inr \<lparr>w_ws = ws_of rt order s sh,
    w_sub = sub_of s sh, w_q = big_queue, w_cons = consumer_new, w_hand = None, w_tokens = sh\<rparr>)"
  by (rule ext) (rule make_worker_eq)

definition started_worker :: "'d runtime \<Rightarrow> set_order \<Rightarrow> sharder \<Rightarrow> string list \<Rightarrow> worker" where
  "started_worker rt order s sh =
     \<lparr>w_ws = (ws_of rt order s sh)\<lparr>joinable := True, pc := Run_begin\<rparr>,
      w_sub = sub_of s sh, w_q = big_queue,
      w_cons = \<lparr>c_running = True, c_joinable = True, c_sink = False\<rparr>, w_hand = None,
      w_tokens = sh\<rparr>"

lemma start_threads:
  assumes "length (desired_tokens s) \<le> 2 ^ 63" and "stopped s"
  shows "sharder_start rt order io write_ok s =
    bindE (mapE (\<lambda>sh. initial_subscribe rt order io write_ok (started_worker rt order s sh)) (shard_list s))
      (\<lambda>ws. Inr (True, s\<lparr>workers := ws, sh_running := True\<rparr>))"
  using assms
  by (simp add: stopped_def sharder_start_def build_workers_def shards.slice_chunks make_worker_fun
      start_consumer_def consumer_start_def consumer_new_def start_ws_def ws_start_def ws_of_def
      ws_new_def mapE_map started_worker_def comp_def shard_list_def Let_def)

lemma started_worker_sub: "w_sub (started_worker rt order s sh) = sub_of s sh"
  by (simp add: started_worker_def)

lemma sub_of_props:
  "sm_inv (sub_of s sh)" "desired (sub_of s sh) = set sh" "active (sub_of s sh) = {}"
  by (auto simp: sub_of_def sm_inv_def sm_new_def add_many_def fold_insert_set)

text \<open>The payloads of a shard: batches of exactly its tokens.\<close>

definition shard_batches :: "set_order \<Rightarrow> sub_manager \<Rightarrow> string list list" where
  "shard_batches order m = batches_of m (diff_desired_minus_active order m)"

lemma shard_payloads:
  assumes "order_ok order" and "length sh \<le> 2 ^ 63"
  shows "build_subscribe_batches rt order (sub_of s sh) =
      mapE (\<lambda>b. build_payload rt (sub_of s sh) b True) (shard_batches order (sub_of s sh))"
    and "distinct (concat (shard_batches order (sub_of s sh)))"
    and "set (concat (shard_batches order (sub_of s sh))) = set sh"
proof -
  have "card (set sh) \<le> 2 ^ 63" using card_length[of sh] assms(2) by linarith
  then show "build_subscribe_batches rt order (sub_of s sh) =
      mapE (\<lambda>b. build_payload rt (sub_of s sh) b True) (shard_batches order (sub_of s sh))"
    using build_batches(1)[OF assms(1) sub_of_props(1), of s sh rt] sub_of_props(2,3)[of s sh]
    by (simp add: shard_batches_def)
  show "distinct (concat (shard_batches order (sub_of s sh)))"
    "set (concat (shard_batches order (sub_of s sh))) = set sh"
    using diff_props(1,2)[OF assms(1) sub_of_props(1), of s sh] sub_of_props(2,3)[of s sh]
      batches_of_props(1)[OF sub_of_props(1), of s sh]
    by (simp_all add: shard_batches_def)
qed

definition final_worker ::
  "'d runtime \<Rightarrow> set_order \<Rightarrow> (nat \<Rightarrow> worker \<Rightarrow> worker) \<Rightarrow> (string \<Rightarrow> bool) \<Rightarrow> sharder \<Rightarrow> string list \<Rightarrow> worker" where
  "final_worker rt order io write_ok s sh =
     send_payloads io write_ok (hook_texts rt order (sub_of s sh)) (started_worker rt order s sh)"

text \<open>Threads that do nothing while the payloads are sent.\<close>

lemma send_payloads_unconnected:
  "\<not> connected (w_ws w) \<Longrightarrow> send_payloads (\<lambda>n w. w) write_ok ps w = w"
  by (induction ps arbitrary: w) (simp_all add: send_text_def)

lemma final_worker_id:
  "final_worker rt order (\<lambda>n w. w) write_ok s sh = started_worker rt order s sh"
  by (simp add: final_worker_def send_payloads_unconnected started_worker_def ws_of_def ws_new_def)

lemma initial_subscribe_eq:
  "initial_subscribe rt order io write_ok (started_worker rt order s sh) =
     bindE (build_subscribe_batches rt order (sub_of s sh))
       (\<lambda>_. Inr (final_worker rt order io write_ok s sh))"
  by (cases "build_subscribe_batches rt order (sub_of s sh)")
     (simp_all add: initial_subscribe_def started_worker_sub final_worker_def hook_texts_def)

lemma start_workers:
  assumes "length (desired_tokens s) \<le> 2 ^ 63" and "stopped s"
    and "sharder_start rt order io write_ok s = Inr (b, s')"
  shows "b" and "s' = s\<lparr>workers := map (final_worker rt order io write_ok s) (shard_list s), sh_running := True\<rparr>"
    and "sh \<in> set (shard_list s) \<Longrightarrow>
      build_subscribe_batches rt order (sub_of s sh) = Inr (hook_texts rt order (sub_of s sh))"
proof -
  let ?f = "\<lambda>sh. initial_subscribe rt order io write_ok (started_worker rt order s sh)"
  obtain ws where ws: "mapE ?f (shard_list s) = Inr ws"
    and s': "b" "s' = s\<lparr>workers := ws, sh_running := True\<rparr>"
    using assms(3) unfolding start_threads[OF assms(1,2)] by (auto simp: bindE_Inr_iff)
  have "ws = map (final_worker rt order io write_ok s) (shard_list s)"
    by (rule mapE_eq_map[OF ws]) (auto simp: initial_subscribe_eq bindE_Inr_iff)
  with s' show "b" "s' = s\<lparr>workers := map (final_worker rt order io write_ok s) (shard_list s), sh_running := True\<rparr>"
    by simp_all
  show "build_subscribe_batches rt order (sub_of s sh) = Inr (hook_texts rt order (sub_of s sh))"
    if sh: "sh \<in> set (shard_list s)"
  proof -
    obtain w where "?f sh = Inr w" using mapE_element[OF ws sh] by blast
    then obtain ps where "build_subscribe_batches rt order (sub_of s sh) = Inr ps"
      unfolding initial_subscribe_eq bindE_Inr_iff by blast
    then show ?thesis by (simp add: hook_texts_def)
  qed
qed

lemma start_returns:
  assumes "length (desired_tokens s) \<le> 2 ^ 63" and "stopped s" and "order_ok order"
    and "\<And>v. \<exists>t. dump_json rt v = Inr t"
  shows "\<exists>s'. sharder_start rt order io write_ok s = Inr (True, s')"
proof -
  have one: "\<exists>w. initial_subscribe rt order io write_ok (started_worker rt order s sh) = Inr w"
    if "sh \<in> set (shard_list s)" for sh
  proof -
    have "length sh \<le> length (concat (shard_list s))"
      using that by (auto simp: length_concat member_le_sum_list)
    then have "length sh \<le> 2 ^ 63" using assms(1) by (simp add: shard_list_props(1))
    note build = shard_payloads(1)[OF assms(3) this, of rt s]
    have "\<exists>ps. mapE (\<lambda>b. build_payload rt (sub_of s sh) b True) bs = Inr ps" for bs
      using assms(4) by (intro mapE_returns) (simp add: build_payload_def)
    then obtain ps where "build_subscribe_batches rt order (sub_of s sh) = Inr ps"
      unfolding build by blast
    then show ?thesis by (simp add: initial_subscribe_eq)
  qed
  have "\<exists>ws. mapE (\<lambda>sh. initial_subscribe rt order io write_ok
      (started_worker rt order s sh)) (shard_list s) = Inr ws"
    by (rule mapE_returns) (rule one)
  then show ?thesis unfolding start_threads[OF assms(1,2)] by auto
qed

subsection \<open>The clients' threads\<close>

lemma io_step_const: "io_step env c = Some d \<Longrightarrow> joinable d = joinable c \<and> joining d = joining c"
  by (induction rule: io_step_cases) (auto simp: io_defs)

lemma io_exec_const: "io_exec es c = Some d \<Longrightarrow> joinable d = joinable c \<and> joining d = joining c"
  by (induction es arbitrary: c) (auto split: option.splits dest: io_step_const)

lemma send_all_runs: "\<not> joining c \<Longrightarrow> runs_to ws_step c (send_all ps c)"
proof (induction ps c rule: send_all.induct)
  case (2 ok p ps c)
  then have "runs_to ws_step (snd (send_text ok p c)) (send_all ps (snd (send_text ok p c)))" by simp
  moreover have "ws_step c (snd (send_text ok p c))" using 2(2) by (rule step_send)
  ultimately show ?case by (simp add: runs_step)
qed (simp add: runs_refl)

lemma fold_deliver_fields [simp]:
  "w_ws (fold deliver ms w) = w_ws w" "w_sub (fold deliver ms w) = w_sub w"
  "w_cons (fold deliver ms w) = w_cons w" "w_hand (fold deliver ms w) = w_hand w"
  "w_tokens (fold deliver ms w) = w_tokens w"
  by (induction ms arbitrary: w) (simp_all add: deliver_def)

text \<open>What the threads of a worker do not change, and what their steps mean for the client.\<close>

definition client_ops :: "worker_op list \<Rightarrow> ws_env list" where
  "client_ops ops = concat (map (\<lambda>a. case a of Net e \<Rightarrow> [e] | _ \<Rightarrow> []) ops)"

lemma client_ops_simps [simp]:
  "client_ops [] = []" "client_ops (Net e # ops) = e # client_ops ops"
  "client_ops (Pop j # ops) = client_ops ops" "client_ops (Write # ops) = client_ops ops"
  by (simp_all add: client_ops_def)

lemma worker_step_frame:
  "worker_step a w = Some v \<Longrightarrow> w_sub v = w_sub w \<and> w_cons v = w_cons w \<and> w_tokens v = w_tokens w
    \<and> io_exec (client_ops [a]) (w_ws w) = Some (w_ws v)"
  by (cases a) (auto split: option.splits if_splits prod.splits)

lemma worker_exec_frame:
  "worker_exec ops w = Some v \<Longrightarrow> w_sub v = w_sub w \<and> w_cons v = w_cons w \<and> w_tokens v = w_tokens w
    \<and> io_exec (client_ops ops) (w_ws w) = Some (w_ws v)"
proof (induction ops arbitrary: w)
  case (Cons a ops)
  then obtain u where u: "worker_step a w = Some u" "worker_exec ops u = Some v"
    by (auto split: option.splits)
  have "client_ops (a # ops) = client_ops [a] @ client_ops ops" by (simp add: client_ops_def)
  with worker_step_frame[OF u(1)] Cons.IH[OF u(2)] show ?case by (simp add: io_exec_append)
qed simp

text \<open>The client of a started worker is in a reachable state of its own program.\<close>

definition io_progress :: "(nat \<Rightarrow> worker \<Rightarrow> worker) \<Rightarrow> bool" where
  "io_progress io \<longleftrightarrow> (\<forall>n w. \<exists>ops. worker_exec ops w = Some (io n w))"

lemma io_progress_id: "io_progress (\<lambda>n w. w)"
  unfolding io_progress_def by (auto intro: exI[of _ "[]"])

lemma io_progressD:
  assumes "io_progress io"
  obtains ops where "worker_exec ops w = Some (io n w)"
  using assms unfolding io_progress_def by blast

text \<open>What the steps of the threads and the sends keep holds after the initial payloads.\<close>

lemma worker_exec_keeps:
  assumes "\<And>a w v. P w \<Longrightarrow> worker_step a w = Some v \<Longrightarrow> P v"
  shows "worker_exec ops w = Some v \<Longrightarrow> P w \<Longrightarrow> P v"
  by (induction ops arbitrary: w) (auto split: option.splits intro: assms)

lemma send_payloads_keeps:
  assumes "io_progress io" and step: "\<And>a w v. P w \<Longrightarrow> worker_step a w = Some v \<Longrightarrow> P v"
    and send: "\<And>ok p w. P w \<Longrightarrow> P (w\<lparr>w_ws := snd (send_text ok p (w_ws w))\<rparr>)"
  shows "P w \<Longrightarrow> P (send_payloads io write_ok ps w)"
proof (induction ps arbitrary: w)
  case Nil
  obtain ops where "worker_exec ops w = Some (io 0 w)" using io_progressD[OF assms(1)] .
  from worker_exec_keeps[of P, OF step this Nil] show ?case by simp
next
  case (Cons p ps)
  obtain ops where "worker_exec ops w = Some (io (Suc (length ps)) w)" using io_progressD[OF assms(1)] .
  from worker_exec_keeps[of P, OF step this Cons.prems] send Cons.IH show ?case by (simp add: Let_def)
qed

lemma final_worker_fields:
  assumes "io_progress io" and w_def: "w = final_worker rt order io write_ok s sh"
  shows "w_sub w = sub_of s sh" "w_tokens w = sh"
    "w_cons w = \<lparr>c_running = True, c_joinable = True, c_sink = False\<rparr>"
proof -
  let ?P = "\<lambda>w. w_sub w = sub_of s sh \<and> w_tokens w = sh
    \<and> w_cons w = \<lparr>c_running = True, c_joinable = True, c_sink = False\<rparr>"
  have "?P w"
    unfolding w_def final_worker_def
    by (rule send_payloads_keeps[OF assms(1)]) (auto simp: started_worker_def dest: worker_step_frame)
  then show "w_sub w = sub_of s sh" "w_tokens w = sh"
    "w_cons w = \<lparr>c_running = True, c_joinable = True, c_sink = False\<rparr>" by blast+
qed

lemma final_worker_reachable:
  assumes "io_progress io" and w_def: "w = final_worker rt order io write_ok s sh"
  shows "reachable (ws_init (wss_url (sh_opts s)) (ws_options_of s)
      (Some (hook_texts rt order (sub_of s sh)))) ws_step (w_ws w)"
    and "joinable (w_ws w)" and "\<not> joining (w_ws w)"
proof -
  let ?R = "reachable (ws_init (wss_url (sh_opts s)) (ws_options_of s)
      (Some (hook_texts rt order (sub_of s sh)))) ws_step"
  let ?P = "\<lambda>w. ?R (w_ws w) \<and> joinable (w_ws w) \<and> \<not> joining (w_ws w)"
  let ?c = "(ws_of rt order s sh)\<lparr>joinable := True, pc := Run_begin\<rparr>"
  have "?R ?c" unfolding ws_of_def by (rule started_reachable[of "[]"]) simp
  then have init: "?P (started_worker rt order s sh)"
    by (simp add: started_worker_def) (simp add: ws_of_def ws_new_def)
  have step: "?P v" if "?P w" "worker_step a w = Some v" for a w v
  proof -
    have es: "io_exec (client_ops [a]) (w_ws w) = Some (w_ws v)" using worker_step_frame[OF that(2)] by blast
    from reachable_runs_to[OF io_exec_runs[OF es]] io_exec_const[OF es] that(1) show ?thesis by simp
  qed
  have send: "?P (w\<lparr>w_ws := snd (send_text ok p (w_ws w))\<rparr>)" if "?P w" for ok p w
  proof -
    have "ws_step (w_ws w) (snd (send_text ok p (w_ws w)))" using that by (intro step_send) simp
    with that show ?thesis by (auto intro: reach_step)
  qed
  have "?P w" unfolding w_def final_worker_def by (rule send_payloads_keeps[of io ?P, OF assms(1) step send init])
  then show "?R (w_ws w)" "joinable (w_ws w)" "\<not> joining (w_ws w)" by blast+
qed

lemma started_client:
  assumes "io_progress io" and "w = final_worker rt order io write_ok s sh"
    and "runs_to ws_step (w_ws w) c"
  shows "ws_full_inv (wss_url (sh_opts s)) (ws_options_of s)
    (Some (hook_texts rt order (sub_of s sh))) c"
  by (rule ws.always) (rule reachable_runs_to[OF assms(3) final_worker_reachable(1)[OF assms(1,2)]])

subsection \<open>Frames in a worker\<close>

text \<open>
  The frames a worker holds, oldest first, after those whose records it has written (\<open>fs\<close>):
  frames can be dropped but not reordered, and none is dropped before the queue has once been
  full.
\<close>

definition held :: "worker \<Rightarrow> string list" where
  "held w = (case w_hand w of None \<Rightarrow> [] | Some m \<Rightarrow> [m]) @ queue_list (w_q w)"

definition lane_ok :: "string list \<Rightarrow> worker \<Rightarrow> bool" where
  "lane_ok fs w \<longleftrightarrow> queue_inv (w_q w) \<and> length (qbuf (w_q w)) = 8192 \<and> msg_cb (w_ws w)
     \<and> subseq (fs @ held w) (delivered (w_ws w))
     \<and> (length (delivered (w_ws w)) \<le> 8192 \<longrightarrow> suffix (fs @ held w) (delivered (w_ws w)))"

lemma io_step_delivered:
  assumes "io_step env c = Some d" and "msg_cb c"
  obtains ms where "delivered d = delivered c @ ms" "length ms \<le> 1" "msg_cb d"
proof -
  have "\<exists>ms. delivered d = delivered c @ ms \<and> length ms \<le> 1 \<and> msg_cb d"
    using assms by (induction rule: io_step_cases) (auto simp: io_defs)
  with that show ?thesis by blast
qed

lemma lane_ok_deliver:
  assumes "lane_ok fs w" and "delivered c = delivered (w_ws w) @ [m]" and "msg_cb c"
  shows "lane_ok fs (deliver m (w\<lparr>w_ws := c\<rparr>))"
proof -
  obtain b q where p: "try_push m (w_q w) = (b, q)" by (cases "try_push m (w_q w)")
  have ok: "queue_inv (w_q w)" "length (qbuf (w_q w)) = 8192"
    "subseq (fs @ held w) (delivered (w_ws w))"
    "length (delivered (w_ws w)) \<le> 8192 \<longrightarrow> suffix (fs @ held w) (delivered (w_ws w))"
    using assms(1) by (simp_all add: lane_ok_def)
  note step = ring.push_cases[OF ok(1) p]
  let ?v = "deliver m (w\<lparr>w_ws := c\<rparr>)"
  have h: "held ?v = held w @ (if b then [m] else [])" "w_q ?v = q" "w_ws ?v = c"
    using step(4) by (simp_all add: held_def deliver_def p)
  have "subseq (fs @ held ?v) (delivered c)"
    using list_emb_append_mono[OF ok(3), of "if b then [m] else []" "[m]"] by (simp add: h assms(2))
  moreover have "suffix (fs @ held ?v) (delivered c)" if "length (delivered c) \<le> 8192"
  proof -
    have s: "suffix (fs @ held w) (delivered (w_ws w))" and l: "length (delivered (w_ws w)) < 8192"
      using that ok(4) by (simp_all add: assms(2))
    have "length (queue_list (w_q w)) \<le> length (fs @ held w)" by (simp add: held_def)
    also have "\<dots> < 8192" using s l suffix_length_le by (metis le_less_trans)
    finally have b using step(3) ok(2) by simp
    then show ?thesis using s by (auto simp: h assms(2) suffix_def)
  qed
  ultimately show ?thesis using step(1,2) ok(2) assms(3) by (simp add: lane_ok_def h)
qed

lemma lane_ok_client:
  "lane_ok fs w \<Longrightarrow> delivered c = delivered (w_ws w) \<Longrightarrow> msg_cb c \<Longrightarrow> lane_ok fs (w\<lparr>w_ws := c\<rparr>)"
  by (simp add: lane_ok_def held_def)

lemma lane_ok_step:
  assumes "lane_ok fs w" and "worker_step a w = Some v"
  shows "lane_ok (fs @ (case a of Write \<Rightarrow> [the (w_hand w)] | _ \<Rightarrow> [])) v"
proof (cases a)
  case (Net env)
  then obtain c where c: "io_step env (w_ws w) = Some c"
    and v: "v = fold deliver (drop (length (delivered (w_ws w))) (delivered c)) (w\<lparr>w_ws := c\<rparr>)"
    using assms(2) by (auto split: option.splits)
  have "msg_cb (w_ws w)" using assms(1) by (simp add: lane_ok_def)
  then obtain ms where ms: "delivered c = delivered (w_ws w) @ ms" "length ms \<le> 1" "msg_cb c"
    using io_step_delivered[OF c] by blast
  then consider "ms = []" | m where "ms = [m]" by (cases ms) auto
  then show ?thesis
  proof cases
    case 1
    with lane_ok_client[OF assms(1)] ms show ?thesis by (simp add: Net v)
  next
    case 2
    with lane_ok_deliver[OF assms(1)] ms show ?thesis by (simp add: Net v)
  qed
next
  case (Pop j)
  obtain r q where p: "try_pop j (w_q w) = (r, q)" by (cases "try_pop j (w_q w)")
  have v: "v = w\<lparr>w_q := q, w_hand := r\<rparr>" and n: "w_hand w = None"
    using assms(2) by (auto simp: Pop p split: if_splits)
  have i: "queue_inv (w_q w)" using assms(1) by (simp add: lane_ok_def)
  note step = ring.pop_cases[OF i p]
  have "held v = held w" using step(4) by (simp add: held_def v n)
  with step(1,2) assms(1) show ?thesis by (simp add: lane_ok_def Pop v)
next
  case Write
  then show ?thesis using assms by (auto simp: lane_ok_def held_def split: if_splits option.splits)
qed

lemma lane_ok_forget: "lane_ok fs w \<Longrightarrow> lane_ok [] w"
  unfolding lane_ok_def
  by (auto intro: subseq_tail suffix_appendD)

lemma lane_ok_exec: "worker_exec ops w = Some v \<Longrightarrow> lane_ok [] w \<Longrightarrow> lane_ok [] v"
proof (induction ops arbitrary: w)
  case (Cons a ops)
  then obtain u where u: "worker_step a w = Some u" "worker_exec ops u = Some v"
    by (auto split: option.splits)
  from Cons.IH[OF u(2)] lane_ok_forget[OF lane_ok_step[OF Cons.prems(2) u(1)]] show ?case .
qed simp

lemma final_worker_lane:
  assumes "io_progress io" and w_def: "w = final_worker rt order io write_ok s sh"
  shows "lane_ok [] w"
proof -
  have init: "lane_ok [] (started_worker rt order s sh)" using mk_queue_inv[OF mk_big_queue]
    by (simp add: lane_ok_def held_def started_worker_def ws_of_def ws_new_def big_queue_def)
  have step: "lane_ok [] v" if "lane_ok [] w" "worker_step a w = Some v" for a w v
    by (rule lane_ok_forget[OF lane_ok_step[OF that]])
  have send: "lane_ok [] (w\<lparr>w_ws := snd (send_text ok p (w_ws w))\<rparr>)" if "lane_ok [] w" for ok p w
    using that by (simp add: lane_ok_def held_def)
  show ?thesis
    unfolding w_def final_worker_def
    by (rule send_payloads_keeps[of io "lane_ok []", OF assms(1) step send init])
qed

subsection \<open>Networks without losses\<close>

text \<open>
  A network on which connecting succeeds at the first attempt and the connection is not lost,
  except that the server may close it.
\<close>

fun quiet_env :: "ws_env \<Rightarrow> bool" where
  "quiet_env Go = True"
| "quiet_env Connect_ok = True"
| "quiet_env (Frame m) = True"
| "quiet_env Read_closed = True"
| "quiet_env _ = False"

lemma quiet_step:
  assumes "quiet_env env" and "io_step env c = Some d"
    and "pc c \<notin> {Resub_hook, Reconnect_test, Sleeping, Connecting True}"
  shows "pc d \<notin> {Resub_hook, Reconnect_test, Sleeping, Connecting True} \<and> sent d = sent c"
  using assms
  by (cases "pc c"; cases env) (auto simp: io_step.simps io_defs split: if_splits sum.splits)

lemma quiet_exec:
  "list_all quiet_env es \<Longrightarrow> io_exec es c = Some d \<Longrightarrow>
    pc c \<notin> {Resub_hook, Reconnect_test, Sleeping, Connecting True} \<Longrightarrow>
    pc d \<notin> {Resub_hook, Reconnect_test, Sleeping, Connecting True} \<and> sent d = sent c"
proof (induction es arbitrary: c)
  case (Cons e es)
  then obtain c1 where "io_step e c = Some c1" "io_exec es c1 = Some d"
    by (auto split: option.splits)
  with quiet_step[of e c c1] Cons show ?case by auto
qed simp

lemma capacity_8192: "queue_inv q \<Longrightarrow> length (qbuf q) = 8192 \<Longrightarrow> capacity q = 8192"
  by (simp add: queue_inv_def queue_shape_def capacity_def)

lemma drop_worker_eq:
  assumes "joinable (w_ws w)" and "w_cons w = \<lparr>c_running = True, c_joinable = True, c_sink = False\<rparr>"
  shows "drop_worker (w\<lparr>w_ws := ws_stopped (w_ws w), w_cons := consumer_stop (w_cons w)\<rparr>) =
    (if running (w_ws w) then Inr () else Inl Terminated)"
  using assms by (simp add: drop_worker_def consumer_stop_def consumer_destroy_def ws_stopped_def
      ws_destroy_def ws_join_def ws_stop_begin_def)

subsection \<open>Properties\<close>

text \<open>
  C13. \<open>start()\<close> on a stopped sharder returns true when payloads can be written as JSON; the
  workers' shards, in order, are the desired token list; there is one worker per
  \<open>max_tokens_per_conn\<close> tokens (800 when it is 0), and at least one; each manager wants exactly
  the tokens of its shard, and each consumer runs on a queue of its own for 8192 frames, in
  which there are only frames its client has received meanwhile, in order.
\<close>

theorem start_partitions_tokens:
  assumes "length (desired_tokens s) \<le> 2 ^ 63" and "stopped s" and "order_ok order"
    and "\<And>v. \<exists>t. dump_json rt v = Inr t" and "io_progress io"
  shows "\<exists>s'. sharder_start rt order io write_ok s = Inr (True, s') \<and> sh_running s'
    \<and> concat (map w_tokens (workers s')) = desired_tokens s
    \<and> (\<forall>w \<in> set (workers s'). length (w_tokens w) \<le> shard_width (max_tokens_per_conn (sh_opts s))
         \<and> desired (w_sub w) = set (w_tokens w) \<and> active (w_sub w) = {}
         \<and> c_running (w_cons w) \<and> capacity (w_q w) = 8192
         \<and> subseq (queue_list (w_q w)) (delivered (w_ws w)))
    \<and> num_workers s' = max 1 ((length (desired_tokens s)
        + shard_width (max_tokens_per_conn (sh_opts s)) - 1)
        div shard_width (max_tokens_per_conn (sh_opts s)))"
proof -
  obtain s' where s': "sharder_start rt order io write_ok s = Inr (True, s')"
    using start_returns[OF assms(1-4)] by blast
  note w = start_workers(2)[OF assms(1,2) s']
  note f = final_worker_fields[OF assms(5) refl, of rt order write_ok s]
  note l = final_worker_lane[OF assms(5) refl, of rt order write_ok s]
  have t: "w_tokens (final_worker rt order io write_ok s sh) = sh" for sh by (rule f(2))
  have "concat (map w_tokens (workers s')) = desired_tokens s"
    by (simp add: w comp_def t shard_list_props(1))
  moreover have "capacity (w_q w) = 8192 \<and> subseq (queue_list (w_q w)) (delivered (w_ws w))"
    if "w = final_worker rt order io write_ok s sh" for w sh
    using l[of sh] that capacity_8192
    by (auto simp: lane_ok_def held_def intro: subseq_tail)
  moreover have "num_workers s' = max 1 ((length (desired_tokens s)
        + shard_width (max_tokens_per_conn (sh_opts s)) - 1)
        div shard_width (max_tokens_per_conn (sh_opts s)))"
    by (simp add: num_workers_def w shard_list_props(3))
  ultimately show ?thesis
    using s' shard_list_props(2) by (auto simp: w f sub_of_props)
qed

definition sample_sharder :: sharder where
  "sample_sharder = set_tokens [''A'', ''B'', ''C''] (sharder_new \<lparr>wss_url = ''wss://h'',
     max_tokens_per_conn = 2, subscribe_batch_size = 100, peer_verified = True, ca_path = [],
     token_prefix = ''nse_cm|'', extra_headers = []\<rparr>)"

lemma sample_sharder_fields:
  "length (desired_tokens sample_sharder) \<le> 2 ^ 63" "stopped sample_sharder"
  "desired_tokens sample_sharder = [''A'', ''B'', ''C'']"
  "shard_width (max_tokens_per_conn (sh_opts sample_sharder)) = 2"
  "wss_url (sh_opts sample_sharder) = ''wss://h''"
  by (simp_all add: sample_sharder_def set_tokens_def sharder_new_def shard_width_def stopped_def)

lemma silent_dump: "\<exists>t. dump_json silent_runtime v = Inr t"
  by (simp add: silent_runtime_def)

theorem start_partitions_tokens_witness:
  "\<exists>s'. sharder_start silent_runtime sorted_list_of_set (\<lambda>n c. c) (\<lambda>p. True) sample_sharder = Inr (True, s')
    \<and> num_workers s' = 2 \<and> concat (map w_tokens (workers s')) = [''A'', ''B'', ''C'']"
  using start_partitions_tokens[OF sample_sharder_fields(1,2) sorted_order_ok silent_dump
      io_progress_id, of "\<lambda>p. True"]
  by (auto simp: sample_sharder_fields(3,4))

text \<open>
  C11. Lost subscriptions: let no client have finished connecting by the time \<open>start()\<close> sends the
  initial subscriptions, and let each client's first attempt to connect succeed. Then the initial
  subscriptions are not sent, and nothing is sent for a shard for as long as that connection
  lives, whatever frames arrive, and after the server has closed it. (After a failed attempt or a
  lost connection the hook of the retry does send, see \<open>reconnect_subscribes_shard\<close>.)
\<close>

theorem initial_subscribe_lost:
  assumes "length (desired_tokens s) \<le> 2 ^ 63" and "stopped s"
    and "sharder_start rt order io write_ok s = Inr (b, s')"
    and "\<And>n w. \<not> connected (w_ws w) \<Longrightarrow> \<not> connected (w_ws (io n w))
      \<and> (\<exists>ops. list_all quiet_env (client_ops ops) \<and> worker_exec ops w = Some (io n w))"
    and "w \<in> set (workers s')" and "list_all quiet_env es" and "io_exec es (w_ws w) = Some d"
  shows "sent d = [] \<and> desired (w_sub w) = set (w_tokens w)"
proof -
  let ?away = "{Resub_hook, Reconnect_test, Sleeping, Connecting True}"
  obtain sh where w: "w = final_worker rt order io write_ok s sh"
    using assms(5) unfolding start_workers(2)[OF assms(1-3)] by auto
  let ?P = "\<lambda>w. \<not> connected (w_ws w) \<and> sent (w_ws w) = [] \<and> pc (w_ws w) \<notin> ?away
    \<and> w_sub w = sub_of s sh \<and> w_tokens w = sh"
  have io: "?P (io n v)" if "?P v" for n v
  proof -
    obtain ops where ops: "list_all quiet_env (client_ops ops)" "worker_exec ops v = Some (io n v)"
      "\<not> connected (w_ws (io n v))" using assms(4)[of v n] \<open>?P v\<close> by blast
    with worker_exec_frame[OF ops(2)] quiet_exec[OF ops(1), of "w_ws v" "w_ws (io n v)"] \<open>?P v\<close>
    show ?thesis by simp
  qed
  have sends: "?P v \<Longrightarrow> ?P (send_payloads io write_ok ps v)" for ps v
  proof (induction ps arbitrary: v)
    case (Cons p ps)
    from io[OF Cons.prems, of "Suc (length ps)"] Cons.IH show ?case
      by (simp add: Let_def send_text_def)
  next
    case Nil
    from io[OF Nil, of 0] show ?case by simp
  qed
  have "?P (started_worker rt order s sh)"
    by (simp add: started_worker_def ws_of_def ws_new_def)
  then have "?P w" unfolding w final_worker_def by (rule sends)
  then show ?thesis using quiet_exec[OF assms(6,7)] by (simp add: sub_of_props)
qed

theorem initial_subscribe_lost_witness:
  "\<exists>s' w d. sharder_start silent_runtime sorted_list_of_set (\<lambda>n c. c) (\<lambda>p. True) sample_sharder = Inr (True, s')
    \<and> w \<in> set (workers s') \<and> desired (w_sub w) \<noteq> {}
    \<and> io_exec [Go, Connect_ok, Go, Frame ''heartbeat''] (w_ws w) = Some d \<and> connected d \<and> sent d = []"
proof -
  obtain s' where s': "sharder_start silent_runtime sorted_list_of_set (\<lambda>n c. c) (\<lambda>p. True) sample_sharder
      = Inr (True, s')"
    using start_returns[OF sample_sharder_fields(1,2) sorted_order_ok silent_dump] by blast
  note ws = start_workers(2)[OF sample_sharder_fields(1,2) s']
  have "[''A'', ''B''] \<in> set (shard_list sample_sharder)"
    using sample_sharder_fields(3,4) by (simp add: shard_list_def chunks.simps)
  then have w: "final_worker silent_runtime sorted_list_of_set (\<lambda>n c. c) (\<lambda>p. True) sample_sharder [''A'', ''B'']
      \<in> set (workers s')" (is "?w \<in> _") by (simp add: ws)
  have "w_ws ?w = (ws_of silent_runtime sorted_list_of_set sample_sharder [''A'', ''B''])
      \<lparr>joinable := True, pc := Run_begin\<rparr>"
    by (simp add: final_worker_id started_worker_def)
  then have "\<exists>d. io_exec [Go, Connect_ok, Go, Frame ''heartbeat''] (w_ws ?w) = Some d \<and> connected d"
    by (simp add: ws_eval ws_of_def sample_sharder_fields(5))
  then obtain d where d: "io_exec [Go, Connect_ok, Go, Frame ''heartbeat''] (w_ws ?w) = Some d" "connected d"
    by blast
  have "sent d = []"
    by (rule initial_subscribe_lost[OF sample_sharder_fields(1,2) s' _ w _ d(1), THEN conjunct1])
       (auto intro: exI[of _ "[]"])
  moreover have "desired (w_sub ?w) \<noteq> {}"
    by (simp add: final_worker_id started_worker_def sub_of_props)
  ultimately show ?thesis using s' w d by blast
qed

text \<open>
  C12. Resubscription after a loss is complete: for a worker of a started sharder, in whatever
  state its client and its callers have reached, running the hook with writes that succeed
  sends, after what was sent before, payloads over batches that contain each token of the shard
  exactly once; and the client carries the headers configured at \<open>start()\<close>.
\<close>

theorem reconnect_subscribes_shard:
  assumes "length (desired_tokens s) \<le> 2 ^ 63" and "stopped s" and "order_ok order"
    and "sharder_start rt order io write_ok s = Inr (b, s')" and "io_progress io"
    and "w \<in> set (workers s')" and "runs_to ws_step (w_ws w) c" and "pc c = Resub_hook"
    and "io_step (Hook oks) c = Some d" and "list_all (\<lambda>ok. ok) oks"
  shows "\<exists>bs ps. mapE (\<lambda>b. dump_json rt (payload_json (w_sub w) b True)) bs = Inr ps
    \<and> distinct (concat bs) \<and> set (concat bs) = set (w_tokens w) \<and> sent d = sent c @ ps
    \<and> headers (opts c) = effective_headers s"
proof -
  obtain sh where sh: "sh \<in> set (shard_list s)" and w: "w = final_worker rt order io write_ok s sh"
    using assms(6) unfolding start_workers(2)[OF assms(1,2,4)] by auto
  note tw = final_worker_fields(2,1)[OF assms(5) w]
  have "length sh \<le> length (concat (shard_list s))"
    using sh by (auto simp: length_concat member_le_sum_list)
  then have len: "length sh \<le> 2 ^ 63" using assms(1) by (simp add: shard_list_props(1))
  note pl = shard_payloads[OF assms(3) len, where s = s]
  have ps: "mapE (\<lambda>b. dump_json rt (payload_json (w_sub w) b True)) (shard_batches order (sub_of s sh))
      = Inr (hook_texts rt order (sub_of s sh))"
    using pl(1)[of rt] start_workers(3)[OF assms(1,2,4) sh] by (simp add: build_payload_def tw)
  have inv: "on_resub c = Some (hook_texts rt order (sub_of s sh))"
    "opts c = ws_options_of s" "connected c" "has_ws c"
    using started_client[OF assms(5) w assms(7)] assms(8) by (auto simp: ws_full_inv_def ws_inv_def)
  have "headers (opts c) = effective_headers s" by (simp add: inv(2) ws_options_of_def)
  moreover have "length oks = length (hook_texts rt order (sub_of s sh))"
    and d: "sent d = sent c @ map snd (filter fst (zip oks (hook_texts rt order (sub_of s sh))))"
    using assms(8,9) inv by (auto simp: io_step.simps sent_send_all split: if_splits)
  moreover have "map snd (filter fst (zip oks ps)) = ps" if "length oks = length ps" for ps :: "string list"
    using that assms(10) by (induction oks ps rule: list_induct2) auto
  ultimately show ?thesis using ps pl(2,3)
    by (intro exI[of _ "shard_batches order (sub_of s sh)"]
        exI[of _ "hook_texts rt order (sub_of s sh)"]) (auto simp: tw)
qed

theorem reconnect_subscribes_shard_witness:
  "\<exists>s' w c d bs ps. sharder_start silent_runtime sorted_list_of_set (\<lambda>n c. c) (\<lambda>p. True) sample_sharder
      = Inr (True, s') \<and> w \<in> set (workers s')
    \<and> io_exec [Go, Connect_error False, Go, Connect_ok] (w_ws w) = Some c
    \<and> io_step (Hook (replicate (length (hook_texts silent_runtime sorted_list_of_set (w_sub w))) True)) c = Some d
    \<and> set (concat bs) = set (w_tokens w)
    \<and> mapE (\<lambda>b. dump_json silent_runtime (payload_json (w_sub w) b True)) bs = Inr ps
    \<and> sent d = sent c @ ps"
proof -
  let ?io = "\<lambda>(n :: nat) (w :: worker). w" let ?ok = "\<lambda>p :: string. True"
  obtain s' where s': "sharder_start silent_runtime sorted_list_of_set ?io ?ok sample_sharder
      = Inr (True, s')"
    using start_returns[OF sample_sharder_fields(1,2) sorted_order_ok silent_dump] by blast
  note ws = start_workers(2)[OF sample_sharder_fields(1,2) s']
  note io = io_progress_id
  have "shard_list sample_sharder \<noteq> []" by (auto simp: shard_list_def Let_def)
  then obtain sh where "sh \<in> set (shard_list sample_sharder)" by fastforce
  then obtain w where w: "w \<in> set (workers s')"
    "w = final_worker silent_runtime sorted_list_of_set ?io ?ok sample_sharder sh"
    by (auto simp: ws)
  have wws: "w_ws w = (ws_of silent_runtime sorted_list_of_set sample_sharder sh)
      \<lparr>joinable := True, pc := Run_begin\<rparr>"
    by (simp add: w(2) final_worker_id started_worker_def)
  have sub: "w_sub w = sub_of sample_sharder sh" by (simp add: w(2) final_worker_id started_worker_def)
  have "\<exists>c. io_exec [Go, Connect_error False, Go, Connect_ok] (w_ws w) = Some c \<and> pc c = Resub_hook
      \<and> on_resub c = Some (hook_texts silent_runtime sorted_list_of_set (w_sub w))"
    by (simp add: wws sub ws_eval ws_of_def sample_sharder_fields(5))
  then obtain c where c: "io_exec [Go, Connect_error False, Go, Connect_ok] (w_ws w) = Some c"
    "pc c = Resub_hook" "on_resub c = Some (hook_texts silent_runtime sorted_list_of_set (w_sub w))"
    by blast
  let ?oks = "replicate (length (hook_texts silent_runtime sorted_list_of_set (w_sub w))) True"
  obtain d where d: "io_step (Hook ?oks) c = Some d" using c(2,3) by (simp add: io_step.simps)
  have "list_all (\<lambda>ok. ok) ?oks" by (simp add: list_all_iff)
  from reconnect_subscribes_shard[OF sample_sharder_fields(1,2) sorted_order_ok s' io w(1)
      io_exec_runs[OF c(1)] c(2) d this]
  show ?thesis using s' w(1) c(1) d by blast
qed

text \<open>
  \<open>stop()\<close> clears the workers when the thread of every client has begun to run; when one has
  not, its client is not stopped and destroying it ends the program.
\<close>

lemma stop_needs_running_clients:
  assumes "length (desired_tokens s) \<le> 2 ^ 63" and "stopped s"
    and "sharder_start rt order io write_ok s = Inr (b, s')" and "io_progress io"
  shows "sharder_stop s' = (if \<forall>w \<in> set (workers s'). running (w_ws w)
    then Inr (s'\<lparr>workers := [], sh_running := False\<rparr>) else Inl Terminated)"
proof -
  note s' = start_workers(2)[OF assms(1-3)]
  let ?down = "\<lambda>w. w\<lparr>w_ws := ws_stopped (w_ws w), w_cons := consumer_stop (w_cons w)\<rparr>"
  have w: "drop_worker (?down w) = (if running (w_ws w) then Inr () else Inl Terminated)"
    if in_s: "w \<in> set (workers s')" for w
  proof -
    obtain sh where sh: "w = final_worker rt order io write_ok s sh" using in_s by (auto simp: s')
    show ?thesis
      by (rule drop_worker_eq)
         (rule final_worker_reachable(2)[OF assms(4) sh], rule final_worker_fields(3)[OF assms(4) sh])
  qed
  have "mapE drop_worker (map ?down ws) = (if \<forall>w \<in> set ws. running (w_ws w)
      then Inr (map (\<lambda>w. ()) ws) else Inl Terminated)" if "set ws \<subseteq> set (workers s')" for ws
    using that by (induction ws) (auto simp: w)
  from this[OF subset_refl] show ?thesis by (simp add: sharder_stop_def s' comp_def)
qed

lemma stop_needs_running_clients_witness:
  "\<exists>s'. sharder_start silent_runtime sorted_list_of_set (\<lambda>n c. c) (\<lambda>p. True) sample_sharder = Inr (True, s')
    \<and> sharder_stop s' = Inl Terminated"
proof -
  obtain s' where s': "sharder_start silent_runtime sorted_list_of_set (\<lambda>n c. c) (\<lambda>p. True) sample_sharder
      = Inr (True, s')"
    using start_returns[OF sample_sharder_fields(1,2) sorted_order_ok silent_dump] by blast
  note ws = start_workers(2)[OF sample_sharder_fields(1,2) s']
  note io = io_progress_id
  have "shard_list sample_sharder \<noteq> []" by (auto simp: shard_list_def Let_def)
  then obtain sh where sh: "sh \<in> set (shard_list sample_sharder)" by fastforce
  let ?w = "final_worker silent_runtime sorted_list_of_set (\<lambda>n c. c) (\<lambda>p. True) sample_sharder sh"
  have "?w \<in> set (workers s')" using sh by (simp add: ws)
  moreover have "\<not> running (w_ws ?w)" by (simp add: final_worker_id started_worker_def ws_of_def ws_new_def)
  ultimately obtain w where "w \<in> set (workers s')" "\<not> running (w_ws w)" by blast
  with stop_needs_running_clients[OF sample_sharder_fields(1,2) s' io] s' show ?thesis by auto
qed

end
