(* ===== verification/Market_Feed.thy ===== *)
theory Market_Feed
  imports Sharder
begin

text \<open>
  The running system: the workers of a started sharder, each with its I/O thread and its
  consumer thread, over the one \<open>LTPStore\<close> they share. A step is one step of one thread of one
  worker (\<open>worker_step\<close>); writing a record, which holds the store's lock, is one step, so the
  theorems hold for every interleaving of all the threads.
\<close>

subsection \<open>State and steps\<close>

text \<open>\<open>f_log\<close> records which worker's frame was parsed and written, in order.\<close>

record 'd feed =
  f_workers :: "worker list"
  f_store :: "'d ltp_store"
  f_log :: "(nat \<times> string) list"

definition feed_of :: "sharder \<Rightarrow> 'd ltp_store \<Rightarrow> 'd feed" where
  "feed_of s st = \<lparr>f_workers = workers s, f_store = st, f_log = []\<rparr>"

text \<open>
  \<open>feed_write\<close> is the end of an iteration of \<open>Consumer::run\<close>: the frame is parsed, and its
  record, if it has one, is written. A parse that does not return has no step.
\<close>

inductive feed_step :: "'d runtime \<Rightarrow> parser \<Rightarrow> 'd feed \<Rightarrow> 'd feed \<Rightarrow> bool"
  for rt ps where
  feed_net:
    "i < length (f_workers f) \<Longrightarrow> worker_step (Net env) (f_workers f ! i) = Some w \<Longrightarrow>
     feed_step rt ps f (f\<lparr>f_workers := (f_workers f)[i := w]\<rparr>)"
| feed_pop:
    "i < length (f_workers f) \<Longrightarrow> worker_step (Pop junk) (f_workers f ! i) = Some w \<Longrightarrow>
     feed_step rt ps f (f\<lparr>f_workers := (f_workers f)[i := w]\<rparr>)"
| feed_write:
    "i < length (f_workers f) \<Longrightarrow> worker_step Write (f_workers f ! i) = Some w \<Longrightarrow>
     w_hand (f_workers f ! i) = Some m \<Longrightarrow> parse_ltp rt ps m = Inr r \<Longrightarrow>
     feed_step rt ps f (f\<lparr>f_workers := (f_workers f)[i := w],
       f_store := (case r of None \<Rightarrow> f_store f | Some v \<Rightarrow> upsert v (f_store f)),
       f_log := f_log f @ [(i, m)]\<rparr>)"

inductive_cases feed_step_cases: "feed_step rt ps f f'"

text \<open>An iteration of the consumer's loop is a pop followed by a write.\<close>

lemma iteration_is_pop_write:
  assumes "c_running (w_cons w)" and "w_hand w = None"
    and "consumer_iter try_pop (parse_ltp rt ps) upsert False junk
           \<lparr>cq = w_q w, cstore = st, sunk = []\<rparr> = Inr c'"
  shows "\<exists>v. worker_step (Pop junk) w = Some v \<and> w_q v = cq c'
    \<and> (case w_hand v of
         None \<Rightarrow> cstore c' = st
       | Some m \<Rightarrow> \<exists>r. parse_ltp rt ps m = Inr r
           \<and> cstore c' = (case r of None \<Rightarrow> st | Some x \<Rightarrow> upsert x st))"
proof -
  obtain r q where p: "try_pop junk (w_q w) = (r, q)" by (cases "try_pop junk (w_q w)")
  show ?thesis using assms
    by (auto simp: consumer_iter_def p split: option.splits sum.splits)
qed

subsection \<open>The invariant\<close>

definition frames_of :: "nat \<Rightarrow> (nat \<times> string) list \<Rightarrow> string list" where
  "frames_of i l = map snd (filter (\<lambda>(j, m). j = i) l)"

lemma frames_of_simps [simp]:
  "frames_of i [] = []" "frames_of i ((j, m) # l) = (if j = i then m # frames_of i l else frames_of i l)"
  "frames_of i (l @ l') = frames_of i l @ frames_of i l'"
  by (simp_all add: frames_of_def)

definition feed_inv :: "'d runtime \<Rightarrow> parser \<Rightarrow> 'd ltp_store \<Rightarrow> 'd feed \<Rightarrow> bool" where
  "feed_inv rt ps st f \<longleftrightarrow>
     (\<forall>i < length (f_workers f). lane_ok (frames_of i (f_log f)) (f_workers f ! i))
     \<and> f_store f = fold upsert (valid (parse_ltp rt ps) (map snd (f_log f))) st"

text \<open>
  Until somebody stops them, the consumers run and the clients have a thread, which nobody joins.
\<close>

definition worker_live :: "worker \<Rightarrow> bool" where
  "worker_live w \<longleftrightarrow> c_running (w_cons w) \<and> c_joinable (w_cons w)
     \<and> joinable (w_ws w) \<and> \<not> joining (w_ws w) \<and> pc (w_ws w) \<noteq> No_thread
     \<and> (running (w_ws w) \<longrightarrow> pc (w_ws w) \<noteq> Run_begin)"

lemma worker_live_step:
  assumes "worker_step a w = Some v" and "worker_live w"
  shows "worker_live v"
proof -
  have "pc d \<noteq> No_thread \<and> (running d \<longrightarrow> pc d \<noteq> Run_begin)"
    if "io_step env c = Some d" "pc c \<noteq> No_thread" for env c d
    using that by (induction rule: io_step_cases) (auto simp: io_defs)
  then show ?thesis
    using assms by (cases a) (auto simp: worker_live_def split: option.splits if_splits prod.splits
        dest: io_step_const)
qed

definition feed_live :: "'d feed \<Rightarrow> bool" where
  "feed_live f \<longleftrightarrow> list_all worker_live (f_workers f)"

lemma feed_live_iff: "feed_live f \<longleftrightarrow> (\<forall>i < length (f_workers f). worker_live (f_workers f ! i))"
  by (simp add: feed_live_def list_all_length)

definition feed_init :: "'d ltp_store \<Rightarrow> 'd feed \<Rightarrow> bool" where
  "feed_init st f \<longleftrightarrow> list_all (lane_ok []) (f_workers f) \<and> feed_live f \<and> f_store f = st \<and> f_log f = []"

text \<open>A step is a step of one worker; the rest of the workers stay as they are.\<close>

lemma feed_step_worker:
  assumes "feed_step rt ps f g"
  obtains i a w where "i < length (f_workers f)" "worker_step a (f_workers f ! i) = Some w"
    "f_workers g = (f_workers f)[i := w]"
  using assms by (cases rule: feed_step.cases) (simp_all del: worker_step.simps)

lemma feed_inv_kept:
  assumes "feed_step rt ps f f'" and inv: "feed_inv rt ps st f"
  shows "feed_inv rt ps st f'"
  using assms(1)
proof (cases rule: feed_step.cases)
  case (feed_net i env w)
  then have "lane_ok (frames_of i (f_log f)) w"
    using inv lane_ok_step[of "frames_of i (f_log f)" "f_workers f ! i" "Net env" w]
    by (simp add: feed_inv_def)
  with feed_net inv show ?thesis by (auto simp: feed_inv_def nth_list_update)
next
  case (feed_pop i junk w)
  then have "lane_ok (frames_of i (f_log f)) w"
    using inv lane_ok_step[of "frames_of i (f_log f)" "f_workers f ! i" "Pop junk" w]
    by (simp add: feed_inv_def)
  with feed_pop inv show ?thesis by (auto simp: feed_inv_def nth_list_update)
next
  case (feed_write i w m r)
  then have "lane_ok (frames_of i (f_log f) @ [m]) w"
    using inv lane_ok_step[of "frames_of i (f_log f)" "f_workers f ! i" Write w]
    by (simp add: feed_inv_def)
  with feed_write inv show ?thesis
    by (auto simp: feed_inv_def nth_list_update split: option.splits)
qed

lemma feed_live_kept: "feed_step rt ps f g \<Longrightarrow> feed_live f \<Longrightarrow> feed_live g"
  by (elim feed_step_worker) (auto simp: feed_live_iff nth_list_update intro: worker_live_step)

interpretation feed: inductive_invariant "feed_init st" "feed_step rt ps"
    "\<lambda>f. feed_inv rt ps st f \<and> feed_live f" for st rt ps
proof
  fix f assume "feed_init st f"
  then show "feed_inv rt ps st f \<and> feed_live f" by (simp add: feed_init_def feed_inv_def list_all_length)
qed (use feed_inv_kept feed_live_kept in blast)

lemma final_worker_live:
  assumes "io_progress io" and "w = final_worker rt order io write_ok s sh"
  shows "worker_live w"
  using started_client[OF assms runs_refl] final_worker_fields(3)[OF assms] final_worker_reachable(2,3)[OF assms]
  by (auto simp: worker_live_def ws_full_inv_def ws_inv_def)

lemma start_feed_init:
  assumes "length (desired_tokens s) \<le> 2 ^ 63" and "stopped s" and "io_progress io"
    and "sharder_start rt order io write_ok s = Inr (b, s')"
  shows "feed_init st (feed_of s' st)"
  using final_worker_lane[OF assms(3) refl] final_worker_live[OF assms(3) refl]
  by (auto simp: feed_init_def feed_of_def feed_live_def start_workers(2)[OF assms(1,2,4)] list_all_iff)

lemma feed_reachable_inv:
  assumes "length (desired_tokens s) \<le> 2 ^ 63" and "stopped s" and "io_progress io"
    and "sharder_start rt order io write_ok s = Inr (b, s')"
    and "reachable (\<lambda>f. f = feed_of s' st) (feed_step rt ps) f"
  shows "feed_inv rt ps st f" and "feed_live f"
proof -
  have "reachable (feed_init st) (feed_step rt ps) f"
    using assms(5)
  proof (induction rule: reachable.induct)
    case (reach_init f)
    show ?case
      by (rule reachable.reach_init) (simp add: reach_init start_feed_init[OF assms(1-4)])
  qed (rule reachable.reach_step)
  from feed.always[OF this] show "feed_inv rt ps st f" "feed_live f" by simp_all
qed

text \<open>Any run of one worker's threads without a write is a run of the system.\<close>

lemma worker_exec_runs:
  "worker_exec ops (f_workers f ! i) = Some v \<Longrightarrow> i < length (f_workers f) \<Longrightarrow> Write \<notin> set ops \<Longrightarrow>
    runs_to (feed_step rt ps) f (f\<lparr>f_workers := (f_workers f)[i := v]\<rparr>)"
proof (induction ops arbitrary: f)
  case Nil
  then have "(f_workers f)[i := v] = f_workers f" by auto
  then show ?case by (simp add: runs_refl)
next
  case (Cons a ops)
  then obtain u where u: "worker_step a (f_workers f ! i) = Some u" "worker_exec ops u = Some v"
    by (auto split: option.splits)
  let ?g = "f\<lparr>f_workers := (f_workers f)[i := u]\<rparr>"
  have "feed_step rt ps f ?g"
    using u(1) Cons.prems(2,3) by (cases a) (auto intro: feed_net feed_pop)
  moreover have "runs_to (feed_step rt ps) ?g (?g\<lparr>f_workers := (f_workers ?g)[i := v]\<rparr>)"
    using Cons.IH[of ?g] u(2) Cons.prems(2,3) by simp
  ultimately show ?case by (simp add: runs_step)
qed

subsection \<open>Turns of the consumers\<close>

text \<open>
  The consumer of worker \<open>i\<close> does its next step: it pops a frame, or parses and writes the one in
  its hand. A frame on which the parser does not return ends the run.
\<close>

definition turn :: "'d runtime \<Rightarrow> parser \<Rightarrow> nat \<Rightarrow> string \<Rightarrow> 'd feed \<Rightarrow> 'd feed res" where
  "turn rt ps i junk f =
     (let w = f_workers f ! i in
      case w_hand w of
        None \<Rightarrow>
          (case try_pop junk (w_q w) of (r, q) \<Rightarrow>
            Inr (f\<lparr>f_workers := (f_workers f)[i := w\<lparr>w_q := q, w_hand := r\<rparr>]\<rparr>))
      | Some m \<Rightarrow> bindE (parse_ltp rt ps m) (\<lambda>r.
            Inr (f\<lparr>f_workers := (f_workers f)[i := w\<lparr>w_hand := None\<rparr>],
                  f_store := (case r of None \<Rightarrow> f_store f | Some v \<Rightarrow> upsert v (f_store f)),
                  f_log := f_log f @ [(i, m)]\<rparr>)))"

fun turns :: "'d runtime \<Rightarrow> parser \<Rightarrow> (nat \<times> string) list \<Rightarrow> 'd feed \<Rightarrow> 'd feed res" where
  "turns rt ps [] f = Inr f"
| "turns rt ps ((i, junk) # sched) f = bindE (turn rt ps i junk f) (turns rt ps sched)"

text \<open>The turns a worker needs: two for each queued frame, one for the frame in hand.\<close>

definition work :: "worker \<Rightarrow> nat" where
  "work w = 2 * length (queue_list (w_q w)) + (if w_hand w = None then 0 else 1)"

lemma work_0: "work w = 0 \<Longrightarrow> held w = []"
  by (simp add: work_def held_def split: if_splits)

lemma work_held: "work w \<le> 2 * length (held w)"
  by (auto simp: work_def held_def split: option.splits)

lemma turn_effect:
  assumes "feed_inv rt ps st f" and "feed_live f" and i: "i < length (f_workers f)"
    and parses: "\<And>m. m \<in> set (held (f_workers f ! i)) \<Longrightarrow> \<exists>r. parse_ltp rt ps m = Inr r"
  shows "\<exists>g w. turn rt ps i junk f = Inr g \<and> feed_step rt ps f g
    \<and> f_workers g = (f_workers f)[i := w] \<and> work w = work (f_workers f ! i) - 1
    \<and> (\<exists>d. held (f_workers f ! i) = d @ held w \<and> f_log g = f_log f @ map (Pair i) d)"
proof -
  let ?w = "f_workers f ! i"
  have ok: "queue_inv (w_q ?w)" "c_running (w_cons ?w)"
    using assms(1,2) i by (auto simp: feed_inv_def lane_ok_def feed_live_iff worker_live_def)
  show ?thesis
  proof (cases "w_hand ?w")
    case None
    obtain r q where p: "try_pop junk (w_q ?w) = (r, q)" by (cases "try_pop junk (w_q ?w)")
    note pc = ring.pop_cases[OF ok(1) p]
    let ?v = "?w\<lparr>w_q := q, w_hand := r\<rparr>"
    have "turn rt ps i junk f = Inr (f\<lparr>f_workers := (f_workers f)[i := ?v]\<rparr>)"
      by (simp add: turn_def None p)
    moreover have "feed_step rt ps f (f\<lparr>f_workers := (f_workers f)[i := ?v]\<rparr>)"
      using i ok(2) None p by (intro feed_pop[where junk = junk]) simp_all
    moreover have "work ?v = work ?w - 1" "held ?w = [] @ held ?v"
      using pc(3,4) by (cases r; simp add: work_def held_def None)+
    ultimately show ?thesis by (intro exI conjI) (assumption | simp)+
  next
    case (Some m)
    obtain r where r: "parse_ltp rt ps m = Inr r" using parses[of m] Some by (auto simp: held_def)
    let ?v = "?w\<lparr>w_hand := None\<rparr>"
    let ?g = "f\<lparr>f_workers := (f_workers f)[i := ?v],
      f_store := (case r of None \<Rightarrow> f_store f | Some v \<Rightarrow> upsert v (f_store f)), f_log := f_log f @ [(i, m)]\<rparr>"
    have "turn rt ps i junk f = Inr ?g" by (simp add: turn_def Some r)
    moreover have "feed_step rt ps f ?g" using i Some r by (intro feed_write) simp_all
    moreover have "work ?v = work ?w - 1" "held ?w = [m] @ held ?v" by (simp_all add: work_def held_def Some)
    ultimately show ?thesis by (intro exI conjI) (assumption | simp)+
  qed
qed

lemma frames_of_pair [simp]: "frames_of k (map (Pair i) d) = (if k = i then d else [])"
  by (simp add: frames_of_def comp_def filter_map)

lemma turns_drain:
  assumes "feed_inv rt ps st f \<and> feed_live f"
    and "\<forall>w \<in> set (f_workers f). \<forall>m \<in> set (held w). \<exists>r. parse_ltp rt ps m = Inr r"
    and "fst ` set sched \<subseteq> {..<length (f_workers f)}"
    and "\<forall>i < length (f_workers f). work (f_workers f ! i) \<le> count_list (map fst sched) i"
  shows "\<exists>g. turns rt ps sched f = Inr g \<and> runs_to (feed_step rt ps) f g
    \<and> length (f_workers g) = length (f_workers f)
    \<and> (\<forall>i < length (f_workers f). held (f_workers g ! i) = []
         \<and> frames_of i (f_log g) = frames_of i (f_log f) @ held (f_workers f ! i))"
  using assms
proof (induction sched arbitrary: f)
  case Nil
  then show ?case by (auto simp: runs_refl work_0)
next
  case (Cons t sched)
  obtain i junk where t: "t = (i, junk)" by (cases t)
  have i: "i < length (f_workers f)" using Cons.prems(3) by (simp add: t)
  obtain g w d where g: "turn rt ps i junk f = Inr g" "feed_step rt ps f g"
    "f_workers g = (f_workers f)[i := w]" "work w = work (f_workers f ! i) - 1"
    "held (f_workers f ! i) = d @ held w" "f_log g = f_log f @ map (Pair i) d"
    using turn_effect[OF conjunct1[OF Cons.prems(1)] conjunct2[OF Cons.prems(1)] i] Cons.prems(2) i nth_mem by meson
  have w: "f_workers g ! k = (if k = i then w else f_workers f ! k)"
    if "k < length (f_workers f)" for k using that by (simp add: g(3))
  have "\<exists>h. turns rt ps sched g = Inr h \<and> runs_to (feed_step rt ps) g h
    \<and> length (f_workers h) = length (f_workers g)
    \<and> (\<forall>k < length (f_workers g). held (f_workers h ! k) = []
         \<and> frames_of k (f_log h) = frames_of k (f_log g) @ held (f_workers g ! k))"
  proof (rule Cons.IH)
    show "feed_inv rt ps st g \<and> feed_live g" by (rule feed.kept[OF g(2) Cons.prems(1)])
    show "fst ` set sched \<subseteq> {..<length (f_workers g)}" using Cons.prems(3) by (simp add: g(3))
    have "set (f_workers g) \<subseteq> insert w (set (f_workers f))" by (simp add: g(3) set_update_subset_insert)
    moreover have "set (held w) \<subseteq> set (held (f_workers f ! i))" by (simp add: g(5))
    ultimately show "\<forall>v \<in> set (f_workers g). \<forall>m \<in> set (held v). \<exists>r. parse_ltp rt ps m = Inr r"
      using Cons.prems(2) nth_mem[OF i] by blast
    have "work (f_workers g ! k) \<le> count_list (map fst sched) k" if "k < length (f_workers f)" for k
      using Cons.prems(4)[rule_format, OF that] that g(4) by (auto simp: w t split: if_splits)
    then show "\<forall>k < length (f_workers g). work (f_workers g ! k) \<le> count_list (map fst sched) k"
      by (simp add: g(3))
  qed
  then obtain h where h: "turns rt ps sched g = Inr h" "runs_to (feed_step rt ps) g h"
    "length (f_workers h) = length (f_workers f)"
    "\<And>k. k < length (f_workers f) \<Longrightarrow> held (f_workers h ! k) = []
         \<and> frames_of k (f_log h) = frames_of k (f_log g) @ held (f_workers g ! k)"
    by (auto simp: g(3))
  have "frames_of k (f_log g) @ held (f_workers g ! k) = frames_of k (f_log f) @ held (f_workers f ! k)"
    if "k < length (f_workers f)" for k using that g(5) by (simp add: w g(6))
  with h(4) have "\<forall>k < length (f_workers f). held (f_workers h ! k) = []
      \<and> frames_of k (f_log h) = frames_of k (f_log f) @ held (f_workers f ! k)" by metis
  moreover have "turns rt ps (t # sched) f = Inr h" by (simp add: t g(1) h(1))
  ultimately show ?case using h(3) runs_step[of "feed_step rt ps", OF g(2) h(2)] by blast
qed

subsection \<open>Properties\<close>

text \<open>
  C5. The running system keeps the latest quotes: however the threads of all workers
  interleave, the store holds for each token the last record among the frames written, in the
  order they were written; the frames a worker has written, then the one in its consumer's
  hands, then those in its queue are frames its client received, in the order received; and
  none of them is missing between the first of these and the last received, as long as the
  client has not received more than its queue holds.
\<close>

theorem feed_keeps_latest:
  assumes "length (desired_tokens s) \<le> 2 ^ 63" and "stopped s" and "io_progress io"
    and "sharder_start rt order io write_ok s = Inr (b, s')"
    and "reachable (\<lambda>f. f = feed_of s' st) (feed_step rt ps) f"
  shows "store_get (f_store f) t =
      (case find (\<lambda>v. token v = t) (rev (valid (parse_ltp rt ps) (map snd (f_log f)))) of
         None \<Rightarrow> store_get st t
       | Some v \<Rightarrow> Some v)
    \<and> (\<forall>i < length (f_workers f). let w = f_workers f ! i; fs = frames_of i (f_log f) @ held w in
         subseq fs (delivered (w_ws w))
         \<and> (length (delivered (w_ws w)) \<le> 8192 \<longrightarrow> suffix fs (delivered (w_ws w))))"
proof -
  have "feed_inv rt ps st f" by (rule feed_reachable_inv(1)[OF assms])
  then show ?thesis by (simp add: feed_inv_def lane_ok_def quotes.get_fold_put Let_def)
qed

lemma sample_lane:
  assumes "w = final_worker rt order (\<lambda>n w. w) ok s sh" and u: "wss_url (sh_opts s) = ''wss://h''"
  shows "held w = []"
    and "\<exists>v. worker_exec [Net Go, Net Connect_ok, Net Go, Net (ws_env.Frame m), Pop []] w = Some v
    \<and> w_hand v = Some m \<and> held v = [m] \<and> delivered (w_ws v) = [m]"
proof -
  note q0 = mk_queue_inv[OF mk_big_queue]
  have "length (queue_list big_queue) < length (qbuf big_queue)" using q0 by (simp add: big_queue_def)
  then obtain q where q: "try_push m big_queue = (True, q)" "queue_list q = [m]" "queue_inv q"
    using ring.push_room[OF q0(1), of m] q0(2) by auto
  obtain q' where p: "try_pop [] q = (Some m, q')" using ring.pop_front[OF q(3,2)] by blast
  have e: "queue_list q' = []" using ring.pop_cases(4)[OF q(3) p] q(2) by simp
  have w: "w_ws w = (ws_of rt order s sh)\<lparr>joinable := True, pc := Run_begin\<rparr>"
    by (simp add: assms(1) final_worker_id started_worker_def)
  have f: "w_q w = big_queue" "w_hand w = None" "c_running (w_cons w)"
    by (simp_all add: assms(1) final_worker_id started_worker_def)
  show "held w = []" by (simp add: held_def f q0(2))
  show "\<exists>v. worker_exec [Net Go, Net Connect_ok, Net Go, Net (ws_env.Frame m), Pop []] w = Some v
    \<and> w_hand v = Some m \<and> held v = [m] \<and> delivered (w_ws v) = [m]"
    using w f
    by (simp add: ws_eval ws_of_def u deliver_def q(1) p held_def e)
qed

text \<open>A started sharder with two workers, the first of which holds a frame it has popped.\<close>

abbreviation sample_rt :: "int runtime" where
  "sample_rt \<equiv> sample_runtime sample_frame"

abbreviation sample_ps :: parser where
  "sample_ps \<equiv> \<lparr>strip_prefix = ''nse_cm|''\<rparr>"

abbreviation sample_worker :: "string list \<Rightarrow> worker" where
  "sample_worker \<equiv> final_worker sample_rt sorted_list_of_set (\<lambda>n w. w) (\<lambda>p. True) sample_sharder"

lemma sample_start:
  "\<exists>s'. sharder_start sample_rt sorted_list_of_set (\<lambda>n w. w) (\<lambda>p. True) sample_sharder = Inr (True, s')
    \<and> f_workers (feed_of s' (Map.empty :: int ltp_store)) = [sample_worker [''A'', ''B''], sample_worker [''C'']]
    \<and> f_log (feed_of s' (Map.empty :: int ltp_store)) = []"
proof -
  have "\<exists>t. dump_json sample_rt v = Inr t" for v by (simp add: sample_runtime_def)
  from start_returns[OF sample_sharder_fields(1,2) sorted_order_ok this] obtain s' where
    s': "sharder_start sample_rt sorted_list_of_set (\<lambda>n w. w) (\<lambda>p. True) sample_sharder = Inr (True, s')"
    by blast
  then show ?thesis
    by (simp add: feed_of_def start_workers(2)[OF sample_sharder_fields(1,2) s'] shard_list_def
        sample_sharder_fields(3,4) chunks.simps)
qed

lemma sample_feed:
  "\<exists>s' f. sharder_start sample_rt sorted_list_of_set (\<lambda>n w. w) (\<lambda>p. True) sample_sharder = Inr (True, s')
    \<and> reachable (\<lambda>f. f = feed_of s' Map.empty) (feed_step sample_rt sample_ps) f
    \<and> f_log f = [] \<and> length (f_workers f) = 2 \<and> w_hand (f_workers f ! 0) = Some ''frame''
    \<and> map held (f_workers f) = [[''frame''], []]"
proof -
  obtain s' where s': "sharder_start sample_rt sorted_list_of_set (\<lambda>n w. w) (\<lambda>p. True) sample_sharder = Inr (True, s')"
    and two: "f_workers (feed_of s' (Map.empty :: int ltp_store)) = [sample_worker [''A'', ''B''], sample_worker [''C'']]"
    and log: "f_log (feed_of s' (Map.empty :: int ltp_store)) = []"
    using sample_start by blast
  let ?f = "feed_of s' (Map.empty :: int ltp_store)"
  note lane = sample_lane[where rt = sample_rt and order = sorted_list_of_set and ok = "\<lambda>p. True", OF refl sample_sharder_fields(5)]
  obtain v where v: "worker_exec [Net Go, Net Connect_ok, Net Go, Net (ws_env.Frame ''frame''), Pop []]
      (f_workers ?f ! 0) = Some v" "w_hand v = Some ''frame''" "held v = [''frame'']"
    using lane(2)[where sh = "[''A'', ''B'']" and m = "''frame''"] unfolding two by auto
  let ?g = "?f\<lparr>f_workers := (f_workers ?f)[0 := v]\<rparr>"
  have "reachable (\<lambda>f. f = ?f) (feed_step sample_rt sample_ps) ?g"
    by (rule reachable_runs_to[OF worker_exec_runs[OF v(1)]]) (simp_all add: two reach_init)
  moreover have "f_log ?g = []" "length (f_workers ?g) = 2" "w_hand (f_workers ?g ! 0) = Some ''frame''"
    "map held (f_workers ?g) = [[''frame''], []]"
    using v(2,3) lane(1) by (simp_all add: two log)
  ultimately show ?thesis using s' by (intro exI conjI)
qed

theorem feed_keeps_latest_witness:
  "\<exists>s' (f :: int feed). sharder_start sample_rt sorted_list_of_set (\<lambda>n w. w) (\<lambda>p. True)
      sample_sharder = Inr (True, s')
    \<and> reachable (\<lambda>f. f = feed_of s' Map.empty) (feed_step sample_rt sample_ps) f
    \<and> f_log f = [(0, ''frame'')]
    \<and> store_get (f_store f) ''26000'' = Some \<lparr>token = ''26000'', ltp = 101, ts = 1728123456789000000\<rparr>"
proof -
  obtain s' f where s': "sharder_start sample_rt sorted_list_of_set (\<lambda>n w. w) (\<lambda>p. True)
      sample_sharder = Inr (True, s')"
    and f: "reachable (\<lambda>f. f = feed_of s' Map.empty) (feed_step sample_rt sample_ps) f"
      "f_log f = []" "length (f_workers f) = 2" "w_hand (f_workers f ! 0) = Some ''frame''"
    using sample_feed by blast
  have "0 < length (f_workers f)"
    "worker_step Write (f_workers f ! 0) = Some ((f_workers f ! 0)\<lparr>w_hand := None\<rparr>)"
    using f(3,4) by simp_all
  note step = feed_write[OF this f(4) sample_parse]
  obtain h where h: "reachable (\<lambda>f. f = feed_of s' Map.empty) (feed_step sample_rt sample_ps) h"
    "f_log h = [(0, ''frame'')]"
    using reach_step[OF f(1), OF step] by (rule that) (simp add: f(2))
  have "store_get (f_store h) ''26000'' = Some \<lparr>token = ''26000'', ltp = 101, ts = 1728123456789000000\<rparr>"
    using feed_keeps_latest[OF sample_sharder_fields(1,2) io_progress_id s' h(1), of "''26000''"]
    by (simp add: h(2) sample_parse)
  with s' h show ?thesis by blast
qed

text \<open>
  C6. Draining: from any state the running system can reach, let the consumers alone take
  turns, in any order in which each worker's consumer gets two turns for every frame it holds.
  When the parser returns on every frame held, the turns return, they are a run of the system,
  and afterwards no worker holds a frame: each has written the frames it held, in their order.
\<close>

theorem feed_drains:
  assumes "length (desired_tokens s) \<le> 2 ^ 63" and "stopped s" and "io_progress io"
    and "sharder_start rt order io write_ok s = Inr (b, s')"
    and "reachable (\<lambda>f. f = feed_of s' st) (feed_step rt ps) f"
    and "\<forall>w \<in> set (f_workers f). \<forall>m \<in> set (held w). \<exists>r. parse_ltp rt ps m = Inr r"
    and "fst ` set sched \<subseteq> {..<length (f_workers f)}"
    and "\<forall>i < length (f_workers f). 2 * length (held (f_workers f ! i)) \<le> count_list (map fst sched) i"
  shows "\<exists>g. turns rt ps sched f = Inr g \<and> runs_to (feed_step rt ps) f g
    \<and> (\<forall>i < length (f_workers f). held (f_workers g ! i) = []
         \<and> frames_of i (f_log g) = frames_of i (f_log f) @ held (f_workers f ! i))"
proof -
  have "\<forall>i < length (f_workers f). work (f_workers f ! i) \<le> count_list (map fst sched) i"
    using work_held assms(8) by (blast intro: order_trans)
  from turns_drain[OF conjI[OF feed_reachable_inv[OF assms(1-5)]] assms(6,7) this] show ?thesis by blast
qed

theorem feed_drains_witness:
  "\<exists>s' f (g :: int feed). sharder_start sample_rt sorted_list_of_set (\<lambda>n w. w) (\<lambda>p. True)
      sample_sharder = Inr (True, s')
    \<and> reachable (\<lambda>f. f = feed_of s' Map.empty) (feed_step sample_rt sample_ps) f
    \<and> map held (f_workers f) = [[''frame''], []]
    \<and> turns sample_rt sample_ps [(0, []), (0, [])] f = Inr g
    \<and> frames_of 0 (f_log g) = [''frame'']"
proof -
  obtain s' f where s': "sharder_start sample_rt sorted_list_of_set (\<lambda>n w. w) (\<lambda>p. True)
      sample_sharder = Inr (True, s')"
    and f: "reachable (\<lambda>f. f = feed_of s' Map.empty) (feed_step sample_rt sample_ps) f"
      "f_log f = []" "map held (f_workers f) = [[''frame''], []]"
    using sample_feed by (elim exE conjE) (rule that)
  obtain u v where uv: "f_workers f = [u, v]" "held u = [''frame'']" "held v = []"
    using f(3) by (auto simp: map_eq_Cons_conv)
  have "\<exists>g. turns sample_rt sample_ps [(0, []), (0, [])] f = Inr g
    \<and> runs_to (feed_step sample_rt sample_ps) f g
    \<and> (\<forall>i < length (f_workers f). held (f_workers g ! i) = []
         \<and> frames_of i (f_log g) = frames_of i (f_log f) @ held (f_workers f ! i))"
  proof (rule feed_drains[OF sample_sharder_fields(1,2) io_progress_id s' f(1)])
    show "\<forall>w \<in> set (f_workers f). \<forall>m \<in> set (held w). \<exists>r. parse_ltp sample_rt sample_ps m = Inr r"
      using uv by (simp add: sample_parse)
    show "fst ` set [(0, []), (0, [])] \<subseteq> {..<length (f_workers f)}" by (simp add: uv)
    show "\<forall>i < length (f_workers f).
        2 * length (held (f_workers f ! i)) \<le> count_list (map fst [(0, []), (0, [])]) i"
      using uv by (auto simp: less_Suc_eq)
  qed
  with s' f uv show ?thesis by fastforce
qed

end
