(* ===== verification/Shutdown.thy ===== *)
theory Shutdown
  imports Market_Feed
begin

text \<open>
  \<open>Sharder::stop()\<close> (\<open>src/sharder.cpp\<close>) while the threads of the workers still run: the calling
  thread as a program counter, whose steps interleave with those of \<open>Market_Feed\<close>. It stops the
  clients one by one, then the consumers, and then destroys the workers, each member by member
  in reverse order of declaration: consumer, queue, manager, client.
\<close>

subsection \<open>The stopping thread\<close>

text \<open>
  \<open>Join_ws\<close> and \<open>Join_cons\<close> wait for a thread of worker \<open>i\<close>. \<open>Drop_cons\<close> is before its consumer is
  destroyed, \<open>Drop_ws\<close> after its queue is gone and before the client's destructor calls \<open>stop()\<close>,
  \<open>Drop_join\<close> inside that call and \<open>Drop_free\<close> after it. \<open>Aborted\<close> is \<open>std::terminate\<close>.
\<close>

datatype stop_pc =
    Stop_ws nat | Join_ws nat | Stop_cons nat | Join_cons nat
  | Drop_cons nat | Drop_ws nat | Drop_join nat | Drop_free nat | Cleared | Aborted

text \<open>
  A step of the stopping thread; \<open>None\<close> when it waits or has ended. A consumer's thread ends at
  the test of \<open>running_\<close> that follows its iteration; a test made before \<open>running_\<close> was cleared
  counts, with the pop that follows it, as made before.
\<close>

fun stopper :: "stop_pc \<Rightarrow> worker list \<Rightarrow> (stop_pc \<times> worker list) option" where
  "stopper (Stop_ws i) ws = Some
     (if i < length ws then
        let c = ws_stop_begin (w_ws (ws ! i)) in
        (if joining c then Join_ws i else Stop_ws (Suc i), ws[i := (ws ! i)\<lparr>w_ws := c\<rparr>])
      else (Stop_cons 0, ws))"
| "stopper (Join_ws i) ws =
     (if pc (w_ws (ws ! i)) = Thread_done
      then Some (Stop_ws (Suc i), ws[i := (ws ! i)\<lparr>w_ws := ws_join (w_ws (ws ! i))\<rparr>])
      else None)"
| "stopper (Stop_cons i) ws = Some
     (if i < length ws then
        let k = w_cons (ws ! i) in
        (if c_running k \<and> c_joinable k then Join_cons i else Stop_cons (Suc i),
         ws[i := (ws ! i)\<lparr>w_cons := k\<lparr>c_running := False\<rparr>\<rparr>])
      else (Drop_cons 0, ws))"
| "stopper (Join_cons i) ws =
     (if w_hand (ws ! i) = None
      then Some (Stop_cons (Suc i),
        ws[i := (ws ! i)\<lparr>w_cons := (w_cons (ws ! i))\<lparr>c_joinable := False\<rparr>\<rparr>])
      else None)"
| "stopper (Drop_cons i) ws = Some
     (if i < length ws then
        (case consumer_destroy (w_cons (ws ! i)) of Inl e \<Rightarrow> (Aborted, ws) | Inr u \<Rightarrow> (Drop_ws i, ws))
      else (Cleared, ws))"
| "stopper (Drop_ws i) ws =
     (let c = ws_stop_begin (w_ws (ws ! i)) in
      Some (if joining c then Drop_join i else Drop_free i, ws[i := (ws ! i)\<lparr>w_ws := c\<rparr>]))"
| "stopper (Drop_join i) ws =
     (if pc (w_ws (ws ! i)) = Thread_done
      then Some (Drop_free i, ws[i := (ws ! i)\<lparr>w_ws := ws_join (w_ws (ws ! i))\<rparr>])
      else None)"
| "stopper (Drop_free i) ws = Some
     (case ws_destroy (w_ws (ws ! i)) of Inl e \<Rightarrow> (Aborted, ws) | Inr u \<Rightarrow> (Drop_cons (Suc i), ws))"
| "stopper Cleared ws = None"
| "stopper Aborted ws = None"

record 'd closing =
  cl_feed :: "'d feed"
  cl_pc :: stop_pc

inductive closing_step :: "'d runtime \<Rightarrow> parser \<Rightarrow> 'd closing \<Rightarrow> 'd closing \<Rightarrow> bool"
  for rt ps where
  close_stop:
    "stopper (cl_pc s) (f_workers (cl_feed s)) = Some (p, ws) \<Longrightarrow>
     closing_step rt ps s (s\<lparr>cl_feed := (cl_feed s)\<lparr>f_workers := ws\<rparr>, cl_pc := p\<rparr>)"
| close_thread:
    "cl_pc s \<notin> {Cleared, Aborted} \<Longrightarrow> feed_step rt ps (cl_feed s) f \<Longrightarrow>
     closing_step rt ps s (s\<lparr>cl_feed := f\<rparr>)"

definition closing_init :: "'d feed \<Rightarrow> 'd closing \<Rightarrow> bool" where
  "closing_init f s \<longleftrightarrow> s = \<lparr>cl_feed = f, cl_pc = Stop_ws 0\<rparr>"

text \<open>The workers whose queue has been destroyed, and the use of one after that.\<close>

fun queue_gone :: "stop_pc \<Rightarrow> nat \<Rightarrow> bool" where
  "queue_gone (Drop_cons i) k \<longleftrightarrow> k < i"
| "queue_gone (Drop_ws i) k \<longleftrightarrow> k \<le> i"
| "queue_gone (Drop_join i) k \<longleftrightarrow> k \<le> i"
| "queue_gone (Drop_free i) k \<longleftrightarrow> k \<le> i"
| "queue_gone Cleared k \<longleftrightarrow> True"
| "queue_gone _ k \<longleftrightarrow> False"

definition dangling_push :: "'d closing \<Rightarrow> bool" where
  "dangling_push s \<longleftrightarrow> (\<exists>k < length (f_workers (cl_feed s)). queue_gone (cl_pc s) k
     \<and> pc (w_ws (f_workers (cl_feed s) ! k)) = Reading)"

subsection \<open>The invariant of a stop after every client has begun to run\<close>

definition client_up :: "ws_client \<Rightarrow> bool" where
  "client_up c \<longleftrightarrow> running c \<and> joinable c \<and> \<not> joining c \<and> pc c \<notin> {No_thread, Run_begin}"

definition client_waited :: "ws_client \<Rightarrow> bool" where
  "client_waited c \<longleftrightarrow> \<not> running c \<and> joinable c \<and> joining c \<and> pc c \<notin> {No_thread, Run_begin}"

definition client_down :: "ws_client \<Rightarrow> bool" where
  "client_down c \<longleftrightarrow> \<not> running c \<and> \<not> joinable c \<and> \<not> joining c \<and> pc c = No_thread"

fun client_ok :: "stop_pc \<Rightarrow> nat \<Rightarrow> ws_client \<Rightarrow> bool" where
  "client_ok (Stop_ws i) k c = (if k < i then client_down c else client_up c)"
| "client_ok (Join_ws i) k c =
     (if k < i then client_down c else if k = i then client_waited c else client_up c)"
| "client_ok _ k c = client_down c"

definition consumer_down :: "worker \<Rightarrow> bool" where
  "consumer_down w \<longleftrightarrow> \<not> c_running (w_cons w) \<and> \<not> c_joinable (w_cons w) \<and> w_hand w = None"

definition consumer_up :: "worker \<Rightarrow> bool" where
  "consumer_up w \<longleftrightarrow> c_running (w_cons w) \<and> c_joinable (w_cons w)"

fun lane_end_ok :: "stop_pc \<Rightarrow> nat \<Rightarrow> worker \<Rightarrow> bool" where
  "lane_end_ok (Stop_ws i) k w = consumer_up w"
| "lane_end_ok (Join_ws i) k w = consumer_up w"
| "lane_end_ok (Stop_cons i) k w = (if k < i then consumer_down w else consumer_up w)"
| "lane_end_ok (Join_cons i) k w =
     (if k < i then consumer_down w
      else if k = i then \<not> c_running (w_cons w) \<and> c_joinable (w_cons w) else consumer_up w)"
| "lane_end_ok _ k w = consumer_down w"

fun pc_ok :: "stop_pc \<Rightarrow> nat \<Rightarrow> bool" where
  "pc_ok (Stop_ws i) n \<longleftrightarrow> i \<le> n"
| "pc_ok (Join_ws i) n \<longleftrightarrow> i < n"
| "pc_ok (Stop_cons i) n \<longleftrightarrow> i \<le> n"
| "pc_ok (Join_cons i) n \<longleftrightarrow> i < n"
| "pc_ok (Drop_cons i) n \<longleftrightarrow> i \<le> n"
| "pc_ok (Drop_ws i) n \<longleftrightarrow> i < n"
| "pc_ok (Drop_join i) n \<longleftrightarrow> False"
| "pc_ok (Drop_free i) n \<longleftrightarrow> i < n"
| "pc_ok Cleared n \<longleftrightarrow> True"
| "pc_ok Aborted n \<longleftrightarrow> False"

definition workers_ok :: "stop_pc \<Rightarrow> worker list \<Rightarrow> bool" where
  "workers_ok p ws \<longleftrightarrow> pc_ok p (length ws)
     \<and> (\<forall>k < length ws. client_ok p k (w_ws (ws ! k)) \<and> lane_end_ok p k (ws ! k))"

lemmas phase_defs = client_up_def client_waited_def client_down_def consumer_down_def consumer_up_def

lemma workers_ok_update:
  assumes "workers_ok p ws" and "i < length ws" and "pc_ok p' (length ws)"
    and "\<And>k v. k < length ws \<Longrightarrow> k \<noteq> i \<Longrightarrow> client_ok p k (w_ws v) \<Longrightarrow> lane_end_ok p k v \<Longrightarrow>
      client_ok p' k (w_ws v) \<and> lane_end_ok p' k v"
    and "client_ok p' i (w_ws w)" and "lane_end_ok p' i w"
  shows "workers_ok p' (ws[i := w])"
  using assms by (simp add: workers_ok_def nth_list_update)

lemma workers_ok_move:
  assumes "workers_ok p ws" and "pc_ok p' (length ws)"
    and "\<And>k v. k < length ws \<Longrightarrow> client_ok p k (w_ws v) \<Longrightarrow> lane_end_ok p k v \<Longrightarrow>
      client_ok p' k (w_ws v) \<and> lane_end_ok p' k v"
  shows "workers_ok p' ws"
  using assms by (simp add: workers_ok_def)

lemma workers_okD:
  "workers_ok p ws \<Longrightarrow> k < length ws \<Longrightarrow> client_ok p k (w_ws (ws ! k)) \<and> lane_end_ok p k (ws ! k)"
  by (simp add: workers_ok_def)

lemma stopper_workers_ok:
  assumes "stopper p ws = Some (p', ws')" and ok: "workers_ok p ws"
  shows "workers_ok p' ws'"
proof (cases p)
  case (Stop_ws i)
  show ?thesis
  proof (cases "i < length ws")
    case True
    let ?c = "w_ws (ws ! i)"
    have c: "client_up ?c" "consumer_up (ws ! i)" using workers_okD[OF ok True] by (simp_all add: Stop_ws)
    then have n: "p' = Join_ws i" "ws' = ws[i := (ws ! i)\<lparr>w_ws := ?c\<lparr>running := False, joining := True\<rparr>\<rparr>]"
      using assms(1) True by (simp_all add: Stop_ws ws_stop_begin_def client_up_def)
    show ?thesis unfolding n
    proof (rule workers_ok_update[OF ok True])
    qed (use True c in \<open>auto simp: Stop_ws client_up_def client_waited_def consumer_up_def\<close>)
  next
    case False
    then have "p' = Stop_cons 0" "ws' = ws" using assms(1) by (simp_all add: Stop_ws)
    with False ok show ?thesis by (auto simp: Stop_ws intro: workers_ok_move)
  qed
next
  case (Join_ws i)
  have i: "i < length ws" using ok by (simp add: Join_ws workers_ok_def)
  have n: "p' = Stop_ws (Suc i)" "ws' = ws[i := (ws ! i)\<lparr>w_ws := ws_join (w_ws (ws ! i))\<rparr>]"
    using assms(1) by (simp_all add: Join_ws split: if_splits)
  have c: "client_waited (w_ws (ws ! i))" "consumer_up (ws ! i)"
    using workers_okD[OF ok i] by (simp_all add: Join_ws)
  show ?thesis unfolding n
  proof (rule workers_ok_update[OF ok i])
  qed (use i c in \<open>auto simp: Join_ws client_down_def client_waited_def ws_join_def consumer_up_def\<close>)
next
  case (Stop_cons i)
  show ?thesis
  proof (cases "i < length ws")
    case True
    let ?k = "w_cons (ws ! i)"
    have c: "client_down (w_ws (ws ! i))" "consumer_up (ws ! i)"
      using workers_okD[OF ok True] by (simp_all add: Stop_cons)
    then have n: "p' = Join_cons i" "ws' = ws[i := (ws ! i)\<lparr>w_cons := ?k\<lparr>c_running := False\<rparr>\<rparr>]"
      using assms(1) True by (simp_all add: Stop_cons consumer_up_def)
    show ?thesis unfolding n
    proof (rule workers_ok_update[OF ok True])
    qed (use True c in \<open>auto simp: Stop_cons consumer_up_def\<close>)
  next
    case False
    then have "p' = Drop_cons 0" "ws' = ws" using assms(1) by (simp_all add: Stop_cons)
    with False ok show ?thesis by (auto simp: Stop_cons intro: workers_ok_move)
  qed
next
  case (Join_cons i)
  have i: "i < length ws" using ok by (simp add: Join_cons workers_ok_def)
  have n: "p' = Stop_cons (Suc i)" "w_hand (ws ! i) = None"
    "ws' = ws[i := (ws ! i)\<lparr>w_cons := (w_cons (ws ! i))\<lparr>c_joinable := False\<rparr>\<rparr>]"
    using assms(1) by (simp_all add: Join_cons split: if_splits)
  have c: "client_down (w_ws (ws ! i))" "\<not> c_running (w_cons (ws ! i))"
    using workers_okD[OF ok i] by (simp_all add: Join_cons)
  show ?thesis unfolding n
  proof (rule workers_ok_update[OF ok i])
  qed (use i c n(2) in \<open>auto simp: Join_cons consumer_down_def\<close>)
next
  case (Drop_cons i)
  show ?thesis
  proof (cases "i < length ws")
    case True
    have "consumer_down (ws ! i)" using workers_okD[OF ok True] by (simp add: Drop_cons)
    then have "p' = Drop_ws i" "ws' = ws" using assms(1) True
      by (simp_all add: Drop_cons consumer_destroy_def consumer_stop_def consumer_down_def)
    with True ok show ?thesis by (auto simp: Drop_cons intro: workers_ok_move)
  next
    case False
    then have "p' = Cleared" "ws' = ws" using assms(1) by (simp_all add: Drop_cons)
    with False ok show ?thesis by (auto simp: Drop_cons intro: workers_ok_move)
  qed
next
  case (Drop_ws i)
  have i: "i < length ws" using ok by (simp add: Drop_ws workers_ok_def)
  have "client_down (w_ws (ws ! i))" using workers_okD[OF ok i] by (simp add: Drop_ws)
  then have "p' = Drop_free i" "ws' = ws"
    using assms(1) i by (simp_all add: Drop_ws ws_stop_begin_def client_down_def)
  with i ok show ?thesis by (auto simp: Drop_ws intro: workers_ok_move)
next
  case (Drop_free i)
  have i: "i < length ws" using ok by (simp add: Drop_free workers_ok_def)
  have "client_down (w_ws (ws ! i))" using workers_okD[OF ok i] by (simp add: Drop_free)
  then have "p' = Drop_cons (Suc i)" "ws' = ws"
    using assms(1) by (simp_all add: Drop_free ws_destroy_def client_down_def)
  with i ok show ?thesis by (auto simp: Drop_free intro: workers_ok_move)
qed (use assms in \<open>simp_all add: workers_ok_def\<close>)

text \<open>The threads of the workers change no phase.\<close>

lemma client_phase_step:
  assumes "io_step env c = Some d"
  shows "client_up c \<Longrightarrow> client_up d" and "client_waited c \<Longrightarrow> client_waited d" and "\<not> client_down c"
proof -
  have "pc d \<notin> {No_thread, Run_begin}" "running d = running c" "pc c \<noteq> No_thread"
    if "pc c \<noteq> Run_begin"
    using assms that by (induction rule: io_step_cases) (auto simp: io_defs)
  moreover have "pc c \<noteq> No_thread"
    using assms by (induction rule: io_step_cases) auto
  ultimately show "client_up c \<Longrightarrow> client_up d" "client_waited c \<Longrightarrow> client_waited d" "\<not> client_down c"
    using io_step_const[OF assms] by (auto simp: client_up_def client_waited_def client_down_def)
qed

lemma client_ok_step:
  assumes "io_step env c = Some d" and "client_ok p k c"
  shows "client_ok p k d"
  using client_phase_step[OF assms(1)] assms(2) by (cases p) (auto split: if_splits)

lemma worker_ok_step:
  assumes "worker_step a w = Some v" and "client_ok p k (w_ws w)" and "lane_end_ok p k w"
  shows "client_ok p k (w_ws v) \<and> lane_end_ok p k v"
proof (cases a)
  case (Net env)
  then obtain c where c: "io_step env (w_ws w) = Some c" "w_ws v = c" "w_cons v = w_cons w" "w_hand v = w_hand w"
    using assms(1) by (auto split: option.splits)
  have "lane_end_ok p k v = lane_end_ok p k w"
    using c by (cases p) (simp_all add: consumer_up_def consumer_down_def)
  with client_ok_step[OF c(1) assms(2)] c(2) assms(3) show ?thesis by simp
next
  case (Pop junk)
  then have "c_running (w_cons w)" "w_ws v = w_ws w" "w_cons v = w_cons w"
    using assms(1) by (auto split: if_splits prod.splits)
  with assms(2,3) show ?thesis by (cases p) (auto simp: consumer_up_def consumer_down_def split: if_splits)
next
  case Write
  then have "w_hand w \<noteq> None" "w_ws v = w_ws w" "w_cons v = w_cons w"
    using assms(1) by (auto split: if_splits)
  with assms(2,3) show ?thesis by (cases p) (auto simp: consumer_up_def consumer_down_def split: if_splits)
qed

text \<open>A step of the stopping thread keeps the frames in their lanes.\<close>

lemma stopper_lane:
  assumes "stopper p ws = Some (p', ws')" and "pc_ok p (length ws)"
  shows "length ws' = length ws \<and> (\<forall>k < length ws. lane_ok fs (ws ! k) \<longrightarrow> lane_ok fs (ws' ! k))"
proof -
  have c: "delivered (ws_stop_begin c) = delivered c" "msg_cb (ws_stop_begin c) = msg_cb c"
    "delivered (ws_join c) = delivered c" "msg_cb (ws_join c) = msg_cb c" for c
    by (simp_all add: ws_stop_begin_def ws_join_def)
  have k: "lane_ok fs (w\<lparr>w_cons := k\<rparr>) = lane_ok fs w" for w k by (simp add: lane_ok_def held_def)
  have w: "lane_ok fs w \<Longrightarrow> lane_ok fs (w\<lparr>w_ws := ws_stop_begin (w_ws w)\<rparr>)"
    "lane_ok fs w \<Longrightarrow> lane_ok fs (w\<lparr>w_ws := ws_join (w_ws w)\<rparr>)" for w
    by (simp_all add: lane_ok_def held_def c)
  show ?thesis
    using assms by (cases p) (auto simp: Let_def nth_list_update k w split: if_splits sum.splits)
qed

definition closing_inv :: "'d runtime \<Rightarrow> parser \<Rightarrow> 'd ltp_store \<Rightarrow> 'd closing \<Rightarrow> bool" where
  "closing_inv rt ps st s \<longleftrightarrow>
     feed_inv rt ps st (cl_feed s) \<and> workers_ok (cl_pc s) (f_workers (cl_feed s))"

lemma closing_inv_kept:
  assumes "closing_step rt ps s t" and inv: "closing_inv rt ps st s"
  shows "closing_inv rt ps st t"
  using assms(1)
proof (cases rule: closing_step.cases)
  case (close_stop p ws)
  have "pc_ok (cl_pc s) (length (f_workers (cl_feed s)))"
    using inv by (simp add: closing_inv_def workers_ok_def)
  from stopper_lane[OF close_stop(2) this] stopper_workers_ok[OF close_stop(2)] inv show ?thesis
    by (auto simp: closing_inv_def feed_inv_def close_stop(1))
next
  case (close_thread f)
  from feed_step_worker[OF close_thread(3)] obtain i a w where
    i: "i < length (f_workers (cl_feed s))" "worker_step a (f_workers (cl_feed s) ! i) = Some w"
      "f_workers f = (f_workers (cl_feed s))[i := w]" .
  have ok: "workers_ok (cl_pc s) (f_workers (cl_feed s))" using inv by (simp add: closing_inv_def)
  have "client_ok (cl_pc s) i (w_ws w) \<and> lane_end_ok (cl_pc s) i w"
    using worker_ok_step[OF i(2)] workers_okD[OF ok i(1)] by blast
  then have "workers_ok (cl_pc s) (f_workers f)"
    using ok unfolding i(3) by (intro workers_ok_update[OF ok i(1)]) (simp_all add: workers_ok_def)
  with feed_inv_kept[OF close_thread(3)] inv show ?thesis
    by (auto simp: closing_inv_def close_thread(1))
qed

text \<open>A stop that begins when every client of a feed has set \<open>running_\<close>.\<close>

lemma stop_begins:
  assumes "feed_inv rt ps st f" and "feed_live f" and "\<forall>w \<in> set (f_workers f). running (w_ws w)"
    and "closing_init f s"
  shows "closing_inv rt ps st s"
  using assms by (auto simp: closing_init_def closing_inv_def workers_ok_def feed_live_iff
      worker_live_def client_up_def consumer_up_def)

interpretation closing: inductive_invariant
    "\<lambda>s. \<exists>f. closing_init f s \<and> feed_inv rt ps st f \<and> feed_live f
       \<and> (\<forall>w \<in> set (f_workers f). running (w_ws w))"
    "closing_step rt ps" "closing_inv rt ps st" for rt ps st
  by unfold_locales (use stop_begins closing_inv_kept in blast)+

subsection \<open>Progress\<close>

text \<open>
  What is left to do: the stopping thread's own steps and those of the thread it waits for. A
  client takes at most five steps after it is stopped, a consumer at most one.
\<close>

fun close_left :: "stop_pc \<Rightarrow> worker list \<Rightarrow> nat" where
  "close_left (Stop_ws i) ws = 6 * length ws + 3 + 7 * (length ws - i)"
| "close_left (Join_ws i) ws =
     6 * length ws + 4 + 7 * (length ws - Suc i) + steps_left (pc (w_ws (ws ! i)))"
| "close_left (Stop_cons i) ws = 3 * length ws + 2 + 3 * (length ws - i)"
| "close_left (Join_cons i) ws =
     3 * length ws + 3 + 3 * (length ws - Suc i) + (if w_hand (ws ! i) = None then 0 else 1)"
| "close_left (Drop_cons i) ws = 1 + 3 * (length ws - i)"
| "close_left (Drop_ws i) ws = 3 + 3 * (length ws - Suc i)"
| "close_left (Drop_free i) ws = 2 + 3 * (length ws - Suc i)"
| "close_left _ ws = 0"

lemma steps_left_le: "steps_left p \<le> 5"
  by (cases p) simp_all

lemma stopper_decreases:
  assumes "stopper p ws = Some (p', ws')" and ok: "workers_ok p ws"
  shows "close_left p' ws' < close_left p ws"
proof -
  have n: "pc_ok p (length ws)" using ok by (simp add: workers_ok_def)
  have c: "client_ok p k (w_ws (ws ! k)) \<and> lane_end_ok p k (ws ! k)" if "k < length ws" for k
    using workers_okD[OF ok that] .
  show ?thesis
  proof (cases p)
    case (Stop_ws i)
    with assms(1) n steps_left_le[of "pc (w_ws (ws ! i))"] show ?thesis
      by (auto simp: Let_def ws_stop_begin_def Suc_diff_Suc[symmetric] split: if_splits)
  next
    case (Join_ws i)
    with assms(1) n show ?thesis by (auto split: if_splits)
  next
    case (Stop_cons i)
    with assms(1) n show ?thesis by (auto simp: Let_def Suc_diff_Suc[symmetric] split: if_splits)
  next
    case (Join_cons i)
    with assms(1) n show ?thesis by (auto split: if_splits)
  next
    case (Drop_cons i)
    with assms(1) n show ?thesis by (auto simp: Suc_diff_Suc[symmetric] split: if_splits sum.splits)
  next
    case (Drop_ws i)
    with assms(1) n c[of i] show ?thesis by (auto simp: ws_stop_begin_def client_down_def)
  next
    case (Drop_free i)
    with assms(1) n c[of i] show ?thesis by (auto simp: ws_destroy_def client_down_def)
  qed (use assms(1) n in simp_all)
qed

text \<open>A step of a worker's thread leaves no more to do, and less when it is awaited.\<close>

lemma thread_step_left:
  assumes "worker_step a (ws ! i) = Some w" and "i < length ws" and ok: "workers_ok p ws"
  shows "close_left p (ws[i := w]) \<le> close_left p ws"
    and "p = Join_ws i \<Longrightarrow> a = Net env \<Longrightarrow> close_left p (ws[i := w]) < close_left p ws"
    and "p = Join_cons i \<Longrightarrow> a = Write \<Longrightarrow> close_left p (ws[i := w]) < close_left p ws"
proof -
  have c: "client_ok p i (w_ws (ws ! i)) \<and> lane_end_ok p i (ws ! i)" using workers_okD[OF ok assms(2)] .
  have net: "w_hand w = w_hand (ws ! i)" "\<exists>d. io_step env (w_ws (ws ! i)) = Some d \<and> w_ws w = d"
    if "a = Net env" for env
    using assms(1) that by (auto split: option.splits)
  have pop: "w_ws w = w_ws (ws ! i)" "c_running (w_cons (ws ! i))" if "a = Pop j" for j
    using assms(1) that by (auto split: if_splits prod.splits)
  have wr: "w_ws w = w_ws (ws ! i)" "w_hand w = None" "w_hand (ws ! i) \<noteq> None" if "a = Write"
    using assms(1) that by (auto split: if_splits)
  have io: "steps_left (pc (w_ws w)) < steps_left (pc (w_ws (ws ! i)))" if "a = Net env" "p = Join_ws i" for env
    using net(2)[OF that(1)] c that(2) stopped_step(3) by (auto simp: client_waited_def)
  show "p = Join_ws i \<Longrightarrow> a = Net env \<Longrightarrow> close_left p (ws[i := w]) < close_left p ws"
    using io assms(2) by simp
  show "p = Join_cons i \<Longrightarrow> a = Write \<Longrightarrow> close_left p (ws[i := w]) < close_left p ws"
    using wr assms(2) by simp
  show "close_left p (ws[i := w]) \<le> close_left p ws"
  proof (cases p)
    case (Join_ws k)
    show ?thesis
    proof (cases "k = i")
      case True
      then show ?thesis
        using io less_imp_le pop(1) wr(1) assms(2) Join_ws by (cases a) (auto simp: nth_list_update)
    qed (simp add: Join_ws)
  next
    case (Join_cons k)
    show ?thesis
    proof (cases "k = i")
      case True
      then have "\<not> c_running (w_cons (ws ! i))" using c Join_cons by simp
      with True show ?thesis
        using net(1) pop(2) wr assms(2) Join_cons by (cases a) (auto simp: nth_list_update)
    qed (simp add: Join_cons)
  qed simp_all
qed

definition work_left :: "'d closing \<Rightarrow> nat" where
  "work_left s = close_left (cl_pc s) (f_workers (cl_feed s))"

lemma closing_step_left:
  assumes "closing_step rt ps s t" and ok: "workers_ok (cl_pc s) (f_workers (cl_feed s))"
  shows "work_left t \<le> work_left s"
  using assms(1)
proof (cases rule: closing_step.cases)
  case (close_stop p ws)
  from stopper_decreases[OF close_stop(2) ok] show ?thesis by (simp add: work_left_def close_stop(1))
next
  case (close_thread f)
  from feed_step_worker[OF close_thread(3)] obtain i a w where
    "i < length (f_workers (cl_feed s))" "worker_step a (f_workers (cl_feed s) ! i) = Some w"
    "f_workers f = (f_workers (cl_feed s))[i := w]" .
  with thread_step_left(1)[OF _ _ ok] show ?thesis by (simp add: work_left_def close_thread(1))
qed

lemma closing_progress:
  assumes ok: "workers_ok (cl_pc s) (f_workers (cl_feed s))" and "cl_pc s \<noteq> Cleared"
    and parses: "\<forall>w \<in> set (f_workers (cl_feed s)). \<forall>m. w_hand w = Some m \<longrightarrow> (\<exists>r. parse_ltp rt ps m = Inr r)"
  shows "\<exists>t. closing_step rt ps s t \<and> work_left t < work_left s"
proof (cases "stopper (cl_pc s) (f_workers (cl_feed s))")
  case (Some r)
  obtain p ws where r: "r = (p, ws)" by (cases r)
  from close_stop[OF Some[unfolded r]] stopper_decreases[OF Some[unfolded r] ok] show ?thesis
    by (intro exI conjI) (assumption, simp add: work_left_def)
next
  case None
  let ?ws = "f_workers (cl_feed s)"
  from None ok assms(2) consider i where "cl_pc s = Join_ws i" "pc (w_ws (?ws ! i)) \<noteq> Thread_done"
    | i m where "cl_pc s = Join_cons i" "w_hand (?ws ! i) = Some m"
    by (cases "cl_pc s") (auto simp: workers_ok_def Let_def split: if_splits)
  then show ?thesis
  proof cases
    case 1
    then have i: "i < length ?ws" using ok by (simp add: workers_ok_def)
    have "pc (w_ws (?ws ! i)) \<noteq> No_thread" using workers_okD[OF ok i] 1(1) by (simp add: client_waited_def)
    then obtain env d where "io_step env (w_ws (?ws ! i)) = Some d"
      using io_not_stuck[of "w_ws (?ws ! i)"] 1(2) by blast
    then obtain w where w: "worker_step (Net env) (?ws ! i) = Some w" by simp
    have "closing_step rt ps s (s\<lparr>cl_feed := (cl_feed s)\<lparr>f_workers := ?ws[i := w]\<rparr>\<rparr>)"
      by (rule close_thread) (simp add: 1(1), rule feed_net[OF i w])
    with thread_step_left(2)[OF w i ok 1(1) refl] show ?thesis
      by (intro exI conjI) (assumption, simp add: work_left_def)
  next
    case 2
    then have i: "i < length ?ws" using ok by (simp add: workers_ok_def)
    obtain r where r: "parse_ltp rt ps m = Inr r" using parses nth_mem[OF i] 2(2) by blast
    obtain w where w: "worker_step Write (?ws ! i) = Some w" by (simp add: 2(2))
    note step = feed_write[OF i w 2(2) r]
    have "closing_step rt ps s (s\<lparr>cl_feed := (cl_feed s)\<lparr>f_workers := ?ws[i := w],
        f_store := (case r of None \<Rightarrow> f_store (cl_feed s) | Some v \<Rightarrow> upsert v (f_store (cl_feed s))),
        f_log := f_log (cl_feed s) @ [(i, m)]\<rparr>\<rparr>)"
      by (rule close_thread) (simp add: 2(1), rule step)
    with thread_step_left(3)[OF w i ok 2(1) refl] show ?thesis
      by (intro exI conjI) (assumption, simp add: work_left_def)
  qed
qed

lemma work_left_bound:
  "workers_ok (cl_pc s) (f_workers (cl_feed s)) \<Longrightarrow> work_left s \<le> 13 * length (f_workers (cl_feed s)) + 3"
proof (cases "cl_pc s")
  case (Join_ws i)
  assume "workers_ok (cl_pc s) (f_workers (cl_feed s))"
  then have "i < length (f_workers (cl_feed s))" by (simp add: Join_ws workers_ok_def)
  with steps_left_le[of "pc (w_ws (f_workers (cl_feed s) ! i))"] show ?thesis
    by (simp add: Join_ws work_left_def)
qed (auto simp: workers_ok_def work_left_def)

subsection \<open>Stopping as one step\<close>

lemma drop_live:
  assumes "worker_live w" and "running (w_ws w)"
  shows "drop_worker (w\<lparr>w_ws := ws_stopped (w_ws w), w_cons := consumer_stop (w_cons w)\<rparr>) = Inr ()"
  using assms by (simp add: worker_live_def drop_worker_def consumer_stop_def consumer_destroy_def
      ws_stopped_def ws_destroy_def ws_join_def ws_stop_begin_def)

lemma stop_live:
  assumes "sh_running s" and "list_all worker_live (workers s)" and "\<forall>w \<in> set (workers s). running (w_ws w)"
  shows "sharder_stop s = Inr (s\<lparr>workers := [], sh_running := False\<rparr>)"
proof -
  let ?down = "\<lambda>w. w\<lparr>w_ws := ws_stopped (w_ws w), w_cons := consumer_stop (w_cons w)\<rparr>"
  have "mapE drop_worker (map ?down ws) = Inr (map (\<lambda>w. ()) ws)"
    if "list_all worker_live ws" "\<forall>w \<in> set ws. running (w_ws w)" for ws
    using that by (induction ws) (simp_all add: drop_live)
  from this[OF assms(2,3)] show ?thesis by (simp add: sharder_stop_def assms(1) comp_def)
qed

subsection \<open>Executions\<close>

fun stop_exec :: "nat \<Rightarrow> stop_pc \<Rightarrow> worker list \<Rightarrow> (stop_pc \<times> worker list) option" where
  "stop_exec 0 p ws = Some (p, ws)"
| "stop_exec (Suc n) p ws = (case stopper p ws of None \<Rightarrow> None | Some (p', ws') \<Rightarrow> stop_exec n p' ws')"

lemma stop_exec_runs:
  "stop_exec n p ws = Some (p', ws') \<Longrightarrow>
    runs_to (closing_step rt ps) \<lparr>cl_feed = f\<lparr>f_workers := ws\<rparr>, cl_pc = p\<rparr>
      \<lparr>cl_feed = f\<lparr>f_workers := ws'\<rparr>, cl_pc = p'\<rparr>"
proof (induction n arbitrary: p ws)
  case (Suc n)
  then obtain q us where q: "stopper p ws = Some (q, us)" "stop_exec n q us = Some (p', ws')"
    by (auto split: option.splits prod.splits)
  from close_stop[of "\<lparr>cl_feed = f\<lparr>f_workers := ws\<rparr>, cl_pc = p\<rparr>" q us rt ps] q(1)
  have "closing_step rt ps \<lparr>cl_feed = f\<lparr>f_workers := ws\<rparr>, cl_pc = p\<rparr>
      \<lparr>cl_feed = f\<lparr>f_workers := us\<rparr>, cl_pc = q\<rparr>" by simp
  then show ?case using Suc.IH[OF q(2)] by (rule runs_step)
qed (simp add: runs_refl)

lemma stop_exec_reachable:
  assumes "stop_exec n (Stop_ws 0) (f_workers f) = Some (p, ws)"
  shows "reachable (closing_init f) (closing_step rt ps) \<lparr>cl_feed = f\<lparr>f_workers := ws\<rparr>, cl_pc = p\<rparr>"
proof -
  have "f\<lparr>f_workers := f_workers f\<rparr> = f" by (cases f) simp
  then have "closing_init f \<lparr>cl_feed = f\<lparr>f_workers := f_workers f\<rparr>, cl_pc = Stop_ws 0\<rparr>"
    by (simp add: closing_init_def)
  then have "reachable (closing_init f) (closing_step rt ps)
      \<lparr>cl_feed = f\<lparr>f_workers := f_workers f\<rparr>, cl_pc = Stop_ws 0\<rparr>" by (rule reach_init)
  with stop_exec_runs[OF assms] show ?thesis by (rule reachable_runs_to)
qed

lemma thread_runs:
  "runs_to (feed_step rt ps) f g \<Longrightarrow> p \<notin> {Cleared, Aborted} \<Longrightarrow>
    runs_to (closing_step rt ps) \<lparr>cl_feed = f, cl_pc = p\<rparr> \<lparr>cl_feed = g, cl_pc = p\<rparr>"
proof (induction rule: runs_to.induct)
  case (runs_step f g h)
  have "closing_step rt ps \<lparr>cl_feed = f, cl_pc = p\<rparr> \<lparr>cl_feed = g, cl_pc = p\<rparr>"
    using close_thread[of "\<lparr>cl_feed = f, cl_pc = p\<rparr>" rt ps g] runs_step(1,4) by simp
  then show ?case using runs_step.IH[OF runs_step(4)] by (rule runs_to.runs_step)
qed (simp add: runs_refl)

text \<open>Two workers whose threads have ended, and two whose clients have not begun to run.\<close>

lemma stop_two_ended:
  assumes "\<forall>w \<in> {u, v}. client_up (w_ws w) \<and> pc (w_ws w) = Thread_done \<and> consumer_up w \<and> w_hand w = None"
  shows "\<exists>u' v'. stop_exec 17 (Stop_ws 0) [u, v] = Some (Cleared, [u', v']) \<and> w_q u' = w_q u \<and> w_q v' = w_q v"
  using assms by (simp add: eval_nat_numeral Let_def client_up_def consumer_up_def ws_stop_begin_def ws_join_def
      ws_destroy_def consumer_destroy_def consumer_stop_def)

lemma stop_two_early:
  assumes "\<forall>w \<in> {u, v}. \<not> running (w_ws w) \<and> joinable (w_ws w) \<and> \<not> joining (w_ws w) \<and> consumer_up w \<and> w_hand w = None"
  shows "\<exists>u' v'. stop_exec 9 (Stop_ws 0) [u, v] = Some (Drop_ws 0, [u', v'])
    \<and> stop_exec 2 (Drop_ws 0) [u', v'] = Some (Aborted, [u', v'])
    \<and> w_ws u' = w_ws u \<and> w_q u' = w_q u"
  using assms by (simp add: eval_nat_numeral Let_def consumer_up_def ws_stop_begin_def
      ws_destroy_def consumer_destroy_def consumer_stop_def)

subsection \<open>Properties\<close>

lemma stop_reachable_inv:
  assumes "length (desired_tokens s) \<le> 2 ^ 63" and "stopped s" and "io_progress io"
    and "sharder_start rt order io write_ok s = Inr (b, s')"
    and "reachable (\<lambda>f. f = feed_of s' st) (feed_step rt ps) f"
    and "\<forall>w \<in> set (f_workers f). running (w_ws w)"
    and "reachable (closing_init f) (closing_step rt ps) c"
  shows "closing_inv rt ps st c"
  using assms(7)
proof (induction rule: reachable.induct)
  case (reach_init c)
  with stop_begins[OF feed_reachable_inv[OF assms(1-5)] assms(6)] show ?case by blast
next
  case (reach_step c d)
  then show ?case by (blast intro: closing_inv_kept)
qed

text \<open>
  C8. \<open>stop()\<close> in order: when every client has begun to run, then however the threads of the
  workers interleave with a stop, it does what it does as one step of the caller: it does not
  end the program, and no thread delivers to a queue that is destroyed; the store holds the
  last record written for each token; and once the workers are cleared, no frame is in a
  consumer's hands: each worker has written the frames it popped, and what is left in its
  queue are later frames its client received.
\<close>

theorem stop_in_order:
  assumes "length (desired_tokens s) \<le> 2 ^ 63" and "stopped s" and "io_progress io"
    and "sharder_start rt order io write_ok s = Inr (b, s')"
    and "reachable (\<lambda>f. f = feed_of s' st) (feed_step rt ps) f"
    and "\<forall>w \<in> set (f_workers f). running (w_ws w)"
    and "reachable (closing_init f) (closing_step rt ps) c"
  shows "sharder_stop (s'\<lparr>workers := f_workers f\<rparr>) = Inr (s'\<lparr>workers := [], sh_running := False\<rparr>)
    \<and> cl_pc c \<noteq> Aborted \<and> \<not> dangling_push c
    \<and> store_get (f_store (cl_feed c)) t =
        (case find (\<lambda>v. token v = t) (rev (valid (parse_ltp rt ps) (map snd (f_log (cl_feed c))))) of
           None \<Rightarrow> store_get st t
         | Some v \<Rightarrow> Some v)
    \<and> (cl_pc c = Cleared \<longrightarrow> (\<forall>i < length (f_workers (cl_feed c)).
         let w = f_workers (cl_feed c) ! i in
         pc (w_ws w) = No_thread \<and> w_hand w = None
         \<and> subseq (frames_of i (f_log (cl_feed c)) @ queue_list (w_q w)) (delivered (w_ws w))))"
proof -
  let ?ws = "f_workers (cl_feed c)"
  have inv: "feed_inv rt ps st (cl_feed c)" "workers_ok (cl_pc c) ?ws"
    using stop_reachable_inv[OF assms] by (simp_all add: closing_inv_def)
  have "sh_running s'" using start_workers(2)[OF assms(1,2,4)] by simp
  then have "sharder_stop (s'\<lparr>workers := f_workers f\<rparr>) = Inr (s'\<lparr>workers := [], sh_running := False\<rparr>)"
    using stop_live[of "s'\<lparr>workers := f_workers f\<rparr>"] feed_reachable_inv(2)[OF assms(1-5)] assms(6)
    by (simp add: feed_live_def)
  moreover have "cl_pc c \<noteq> Aborted" using inv(2) by (auto simp: workers_ok_def)
  moreover have "pc (w_ws (?ws ! k)) = No_thread" if "k < length ?ws" "queue_gone (cl_pc c) k" for k
    using workers_okD[OF inv(2) that(1)] that(2) by (cases "cl_pc c") (simp_all add: client_down_def)
  then have "\<not> dangling_push c" by (auto simp: dangling_push_def)
  moreover have "pc (w_ws w) = No_thread \<and> w_hand w = None
      \<and> subseq (frames_of i (f_log (cl_feed c)) @ queue_list (w_q w)) (delivered (w_ws w))"
    if "cl_pc c = Cleared" "i < length ?ws" "w = ?ws ! i" for i w
  proof -
    have d: "pc (w_ws w) = No_thread" "w_hand w = None"
      using workers_okD[OF inv(2) that(2)] by (simp_all add: that(1,3) client_down_def consumer_down_def)
    have "lane_ok (frames_of i (f_log (cl_feed c))) w" using inv(1) that(2) by (simp add: feed_inv_def that(3))
    with d show ?thesis by (simp add: lane_ok_def held_def)
  qed
  moreover have "store_get (f_store (cl_feed c)) t =
      (case find (\<lambda>v. token v = t) (rev (valid (parse_ltp rt ps) (map snd (f_log (cl_feed c))))) of
         None \<Rightarrow> store_get st t
       | Some v \<Rightarrow> Some v)"
    using inv(1) by (simp add: feed_inv_def quotes.get_fold_put)
  ultimately show ?thesis unfolding Let_def by blast
qed

text \<open>
  C9. \<open>stop()\<close> returns: under the same conditions, with \<open>n\<close> workers, at most \<open>13 * n + 3\<close> steps of
  the stopping thread and of the threads it waits for are left; no other step adds to them; and
  while the workers are not cleared one of them can be taken, provided the parser returns on the
  frames in the consumers' hands.
\<close>

theorem stop_completes:
  assumes "length (desired_tokens s) \<le> 2 ^ 63" and "stopped s" and "io_progress io"
    and "sharder_start rt order io write_ok s = Inr (b, s')"
    and "reachable (\<lambda>f. f = feed_of s' st) (feed_step rt ps) f"
    and "\<forall>w \<in> set (f_workers f). running (w_ws w)"
    and "reachable (closing_init f) (closing_step rt ps) c"
    and "\<forall>w \<in> set (f_workers (cl_feed c)). \<forall>m. w_hand w = Some m \<longrightarrow> (\<exists>r. parse_ltp rt ps m = Inr r)"
  shows "work_left c \<le> 13 * length (f_workers (cl_feed c)) + 3
    \<and> (cl_pc c \<noteq> Cleared \<longrightarrow> (\<exists>d. closing_step rt ps c d \<and> work_left d < work_left c))
    \<and> (\<forall>d. closing_step rt ps c d \<longrightarrow> work_left d \<le> work_left c)"
proof -
  have ok: "workers_ok (cl_pc c) (f_workers (cl_feed c))"
    using stop_reachable_inv[OF assms(1-7)] by (simp add: closing_inv_def)
  from work_left_bound[OF ok] closing_progress[OF ok _ assms(8)] closing_step_left[OF _ ok]
  show ?thesis by blast
qed

text \<open>
  Two runs of the sample system: one in which both servers have closed the connection, one
  frame being queued, when \<open>stop()\<close> is called.
\<close>

lemma sample_worker_fields:
  "w_ws (sample_worker sh) = (ws_of sample_rt sorted_list_of_set sample_sharder sh)
     \<lparr>joinable := True, pc := Run_begin\<rparr>"
  "w_q (sample_worker sh) = big_queue" "w_hand (sample_worker sh) = None" "consumer_up (sample_worker sh)"
  by (simp_all add: final_worker_id started_worker_def consumer_up_def)

lemma sample_ended:
  "\<exists>v. worker_exec ([Net Go, Net Connect_ok, Net Go] @ (if b then [Net (ws_env.Frame m), Net Go] else [])
        @ [Net Read_closed]) (sample_worker sh) = Some v
    \<and> client_up (w_ws v) \<and> pc (w_ws v) = Thread_done \<and> consumer_up v \<and> w_hand v = None
    \<and> queue_list (w_q v) = (if b then [m] else [])"
proof -
  note q0 = mk_queue_inv[OF mk_big_queue]
  have "length (queue_list big_queue) < length (qbuf big_queue)" using q0 by (simp add: big_queue_def)
  then obtain q where q: "try_push m big_queue = (True, q)" "queue_list q = [m]"
    using ring.push_room[OF q0(1), of m] q0(2) by auto
  show ?thesis
    using sample_worker_fields[of sh]
    by (simp add: ws_eval ws_of_def sample_sharder_fields(5) deliver_def q q0(2) client_up_def
        consumer_up_def)
qed

lemma sample_stopping:
  "\<exists>s' f u v. sharder_start sample_rt sorted_list_of_set (\<lambda>n w. w) (\<lambda>p. True) sample_sharder = Inr (True, s')
    \<and> reachable (\<lambda>f. f = feed_of s' Map.empty) (feed_step sample_rt sample_ps) f
    \<and> f_workers f = [u, v] \<and> queue_list (w_q u) = [''frame'']
    \<and> (\<forall>w \<in> {u, v}. client_up (w_ws w) \<and> pc (w_ws w) = Thread_done \<and> consumer_up w \<and> w_hand w = None)"
proof -
  obtain s' where s': "sharder_start sample_rt sorted_list_of_set (\<lambda>n w. w) (\<lambda>p. True) sample_sharder = Inr (True, s')"
    and two: "f_workers (feed_of s' (Map.empty :: int ltp_store)) = [sample_worker [''A'', ''B''], sample_worker [''C'']]"
    using sample_start by blast
  let ?f = "feed_of s' (Map.empty :: int ltp_store)"
  obtain es u where es: "worker_exec es (sample_worker [''A'', ''B'']) = Some u" "Write \<notin> set es"
    and u: "client_up (w_ws u)" "pc (w_ws u) = Thread_done" "consumer_up u" "w_hand u = None"
      "queue_list (w_q u) = [''frame'']"
    using sample_ended[of True "''frame''" "[''A'', ''B'']"] by (auto simp del: worker_exec.simps)
  obtain ds v where ds: "worker_exec ds (sample_worker [''C'']) = Some v" "Write \<notin> set ds"
    and v: "client_up (w_ws v)" "pc (w_ws v) = Thread_done" "consumer_up v" "w_hand v = None"
    using sample_ended[of False "''frame''" "[''C'']"] by (auto simp del: worker_exec.simps)
  let ?g = "?f\<lparr>f_workers := [u, sample_worker [''C'']]\<rparr>"
  have "runs_to (feed_step sample_rt sample_ps) ?f ?g"
    using worker_exec_runs[of es ?f 0 u] es by (simp add: two)
  moreover have "runs_to (feed_step sample_rt sample_ps) ?g (?g\<lparr>f_workers := [u, v]\<rparr>)"
    using worker_exec_runs[of ds ?g 1 v] ds by simp
  ultimately have "runs_to (feed_step sample_rt sample_ps) ?f (?g\<lparr>f_workers := [u, v]\<rparr>)"
    by (rule runs_to_trans)
  then have "reachable (\<lambda>f. f = ?f) (feed_step sample_rt sample_ps) (?g\<lparr>f_workers := [u, v]\<rparr>)"
    by (rule reachable_runs_to) (simp add: reach_init)
  then show ?thesis using s' u v
    by (intro exI[of _ s'] exI[of _ "?g\<lparr>f_workers := [u, v]\<rparr>"] exI[of _ u] exI[of _ v]) simp
qed

theorem stop_in_order_witness:
  "\<exists>s' f (c :: int closing). sharder_start sample_rt sorted_list_of_set (\<lambda>n w. w) (\<lambda>p. True) sample_sharder
      = Inr (True, s')
    \<and> reachable (\<lambda>f. f = feed_of s' Map.empty) (feed_step sample_rt sample_ps) f
    \<and> reachable (closing_init f) (closing_step sample_rt sample_ps) c
    \<and> cl_pc c = Cleared \<and> \<not> dangling_push c \<and> f_log (cl_feed c) = f_log f
    \<and> queue_list (w_q (f_workers (cl_feed c) ! 0)) = [''frame'']"
proof -
  obtain s' f u v where s': "sharder_start sample_rt sorted_list_of_set (\<lambda>n w. w) (\<lambda>p. True) sample_sharder
      = Inr (True, s')"
    and f: "reachable (\<lambda>f. f = feed_of s' (Map.empty :: int ltp_store)) (feed_step sample_rt sample_ps) f"
      "f_workers f = [u, v]" "queue_list (w_q u) = [''frame'']"
    and uv: "\<forall>w \<in> {u, v}. client_up (w_ws w) \<and> pc (w_ws w) = Thread_done \<and> consumer_up w \<and> w_hand w = None"
    using sample_stopping by blast
  obtain u' v' where e: "stop_exec 17 (Stop_ws 0) [u, v] = Some (Cleared, [u', v'])" "w_q u' = w_q u"
    using stop_two_ended[OF uv] by blast
  let ?c = "\<lparr>cl_feed = f\<lparr>f_workers := [u', v']\<rparr>, cl_pc = Cleared\<rparr>"
  have c: "reachable (closing_init f) (closing_step sample_rt sample_ps) ?c"
    by (rule stop_exec_reachable[where n = 17]) (simp only: f(2) e(1))
  have r: "\<forall>w \<in> set (f_workers f). running (w_ws w)" using uv by (simp add: f(2) client_up_def)
  have "\<not> dangling_push ?c"
    using stop_in_order[OF sample_sharder_fields(1,2) io_progress_id s' f(1) r c] by blast
  with s' f(1) c e(2) f(3) show ?thesis by (intro exI[of _ s'] exI[of _ f] exI[of _ ?c]) simp
qed

theorem stop_completes_witness:
  "\<exists>s' f (c :: int closing) d. sharder_start sample_rt sorted_list_of_set (\<lambda>n w. w) (\<lambda>p. True) sample_sharder
      = Inr (True, s')
    \<and> reachable (\<lambda>f. f = feed_of s' Map.empty) (feed_step sample_rt sample_ps) f
    \<and> closing_init f c \<and> work_left c = 29
    \<and> closing_step sample_rt sample_ps c d \<and> work_left d < work_left c"
proof -
  obtain s' f u v where s': "sharder_start sample_rt sorted_list_of_set (\<lambda>n w. w) (\<lambda>p. True) sample_sharder
      = Inr (True, s')"
    and f: "reachable (\<lambda>f. f = feed_of s' (Map.empty :: int ltp_store)) (feed_step sample_rt sample_ps) f"
      "f_workers f = [u, v]"
    and uv: "\<forall>w \<in> {u, v}. client_up (w_ws w) \<and> pc (w_ws w) = Thread_done \<and> consumer_up w \<and> w_hand w = None"
    using sample_stopping by blast
  let ?c = "\<lparr>cl_feed = f, cl_pc = Stop_ws 0\<rparr>"
  have i: "closing_init f ?c" by (simp add: closing_init_def)
  then have c: "reachable (closing_init f) (closing_step sample_rt sample_ps) ?c" by (rule reach_init)
  have r: "\<forall>w \<in> set (f_workers f). running (w_ws w)" using uv by (simp add: f(2) client_up_def)
  have "\<forall>w \<in> set (f_workers (cl_feed ?c)). \<forall>m. w_hand w = Some m \<longrightarrow> (\<exists>r. parse_ltp sample_rt sample_ps m = Inr r)"
    using uv by (simp add: f(2))
  from stop_completes[OF sample_sharder_fields(1,2) io_progress_id s' f(1) r c this]
  obtain d where "closing_step sample_rt sample_ps ?c d" "work_left d < work_left ?c" by auto
  with s' f(1) i show ?thesis
    by (intro exI[of _ s'] exI[of _ f] exI[of _ ?c] exI[of _ d]) (simp add: work_left_def f(2))
qed

text \<open>
  C10. \<open>stop()\<close> too early: when it runs before the threads of the clients have begun, it skips the
  clients and destroys the queues; a client's thread can then connect and be reading frames
  for a queue that is gone; or, if it is still not running when its client is destroyed, the
  program ends.
\<close>

theorem stop_too_early:
  "\<exists>s'. sharder_start sample_rt sorted_list_of_set (\<lambda>n w. w) (\<lambda>p. True) sample_sharder = Inr (True, s')
    \<and> (\<exists>c. reachable (closing_init (feed_of s' (Map.empty :: int ltp_store))) (closing_step sample_rt sample_ps) c
         \<and> dangling_push c)
    \<and> (\<exists>c. reachable (closing_init (feed_of s' (Map.empty :: int ltp_store))) (closing_step sample_rt sample_ps) c
         \<and> cl_pc c = Aborted)"
proof -
  obtain s' where s': "sharder_start sample_rt sorted_list_of_set (\<lambda>n w. w) (\<lambda>p. True) sample_sharder = Inr (True, s')"
    and two: "f_workers (feed_of s' (Map.empty :: int ltp_store)) = [sample_worker [''A'', ''B''], sample_worker [''C'']]"
    using sample_start by blast
  let ?f = "feed_of s' (Map.empty :: int ltp_store)" and ?u = "sample_worker [''A'', ''B'']"
    and ?v = "sample_worker [''C'']"
  have early: "\<forall>w \<in> {?u, ?v}. \<not> running (w_ws w) \<and> joinable (w_ws w) \<and> \<not> joining (w_ws w)
      \<and> consumer_up w \<and> w_hand w = None"
    by (simp add: sample_worker_fields ws_of_def ws_new_def)
  obtain u' v' where e: "stop_exec 9 (Stop_ws 0) [?u, ?v] = Some (Drop_ws 0, [u', v'])"
    "stop_exec 2 (Drop_ws 0) [u', v'] = Some (Aborted, [u', v'])" and w: "w_ws u' = w_ws ?u"
    using stop_two_early[OF early] by blast
  let ?R = "reachable (closing_init ?f) (closing_step sample_rt sample_ps)"
  let ?g = "?f\<lparr>f_workers := [u', v']\<rparr>"
  have g: "?R \<lparr>cl_feed = ?g, cl_pc = Drop_ws 0\<rparr>"
    by (rule stop_exec_reachable[where n = 9]) (simp only: two e(1))
  have "\<exists>x. worker_exec [Net Go, Net Connect_ok, Net Go] u' = Some x \<and> pc (w_ws x) = Reading"
    using w sample_worker_fields(1)[of "[''A'', ''B'']"]
    by (simp add: ws_eval ws_of_def sample_sharder_fields(5))
  then obtain x where x: "worker_exec [Net Go, Net Connect_ok, Net Go] u' = Some x" "pc (w_ws x) = Reading"
    by blast
  have "runs_to (feed_step sample_rt sample_ps) ?g (?g\<lparr>f_workers := [x, v']\<rparr>)"
    using worker_exec_runs[of _ ?g 0 x] x(1) by (simp del: worker_exec.simps)
  from reachable_runs_to[OF thread_runs[OF this] g]
  have "?R \<lparr>cl_feed = ?g\<lparr>f_workers := [x, v']\<rparr>, cl_pc = Drop_ws 0\<rparr>" by simp
  moreover have "dangling_push \<lparr>cl_feed = ?g\<lparr>f_workers := [x, v']\<rparr>, cl_pc = Drop_ws 0\<rparr>"
    using x(2) by (auto simp: dangling_push_def)
  moreover have "?R \<lparr>cl_feed = ?g, cl_pc = Aborted\<rparr>"
    using reachable_runs_to[OF stop_exec_runs[OF e(2)] g] by simp
  ultimately show ?thesis using s' by (intro exI[of _ s'] conjI) (assumption | rule exI conjI | simp)+
qed

end
