(* ===== verification/Http_Client.thy ===== *)
theory Http_Client
  imports Header_Fields Transport
begin

text \<open>
  \<open>HTTPClient\<close> (\<open>include/http_client.h\<close>, \<open>src/http_client.cpp\<close>): how a call becomes a request
  (address, query string, header fields), how it is exchanged, and how the answer is read. The
  operations take any exchange as a parameter; \<open>tls_transport\<close> is the one the program uses,
  over a network that answers its calls (theory \<open>Transport\<close>).
\<close>

subsection \<open>Addresses\<close>

definition hex_digit :: "nat \<Rightarrow> char" where
  "hex_digit d = ''0123456789ABCDEF'' ! d"

definition unreserved :: "char \<Rightarrow> bool" where
  "unreserved c \<longleftrightarrow> is_alnum c \<or> c = CHR ''_'' \<or> c = CHR ''-'' \<or> c = CHR ''.'' \<or> c = CHR ''~''"

definition encode_char :: "char \<Rightarrow> string" where
  "encode_char c = (if unreserved c then [c]
     else [CHR ''%'', hex_digit (of_char c div 16), hex_digit (of_char c mod 16)])"

definition url_encode :: "string \<Rightarrow> string" where
  "url_encode s = concat (map encode_char s)"

fun query_loop :: "bool \<Rightarrow> string_map \<Rightarrow> string" where
  "query_loop first [] = []"
| "query_loop first ((k, v) # q) =
     (if first then [] else ''&'') @ url_encode k @ ''='' @ url_encode v @ query_loop False q"

definition build_query_string :: "string_map \<Rightarrow> string" where
  "build_query_string q = (if q = [] then [] else query_loop True q)"

definition parse_https_url :: "string \<Rightarrow> string_map \<Rightarrow> (string \<times> string \<times> string) res" where
  "parse_https_url https_url query =
     (if \<not> starts_with ''https://'' https_url
      then Inl (Runtime_error ''HTTPClient: only https:// URLs supported'')
      else
        let rest = drop (length ''https://'') https_url;
            slash = find_char CHR ''/'' rest;
            hostport = (case slash of None \<Rightarrow> rest | Some i \<Rightarrow> take i rest);
            path = (case slash of None \<Rightarrow> ''/'' | Some i \<Rightarrow> drop i rest);
            hp = (case find_char CHR '':'' hostport of
                    None \<Rightarrow> (hostport, ''443'')
                  | Some c \<Rightarrow> (take c hostport,
                      if drop (c + 1) hostport = [] then ''443'' else drop (c + 1) hostport));
            qs = build_query_string query;
            target = (if qs = [] then path
              else if find_char CHR ''?'' path = None then path @ CHR ''?'' # qs
              else path @ CHR ''&'' # qs)
        in Inr (fst hp, snd hp, target))"

subsection \<open>Requests\<close>

record http_options =
  timeout_ms :: int
  tls_verify :: bool
  tls_ca_file :: string
  user_agent :: string
  default_headers :: string_map

definition default_http_options :: http_options where
  "default_http_options = \<lparr>timeout_ms = 10 * 1000, tls_verify = True, tls_ca_file = [],
     user_agent = ''alpha-http/1.0'', default_headers = []\<rparr>"

text \<open>The constructors: without options, and with them.\<close>

definition http_client_new :: "http_options option \<Rightarrow> http_options" where
  "http_client_new os = (case os of None \<Rightarrow> default_http_options | Some o1 \<Rightarrow> o1)"

datatype verb = GET | POST

record http_request =
  verb :: verb
  target :: string
  body :: string
  req_fields :: "(string \<times> string) list"

record http_response =
  status :: int
  resp_body :: string
  resp_headers :: string_map

definition apply_headers :: "http_options \<Rightarrow> string_map \<Rightarrow> http_request \<Rightarrow> http_request" where
  "apply_headers os hdrs req =
     (let fs0 = set_field (''User-Agent'', user_agent os) (req_fields req);
          fs1 = fold set_field (default_headers os) fs0;
          fs2 = fold set_field hdrs fs1
      in req\<lparr>req_fields := fs2\<rparr>)"

text \<open>
  The exchange: options, host, port and request to the status, body and fields of the answer.
  \<open>perform_request\<close> sets the \<open>Host\<close> field last and keeps the first of several response fields
  with the same name.
\<close>

type_synonym transport = "http_options \<Rightarrow> string \<Rightarrow> string \<Rightarrow> http_request
  \<Rightarrow> (int \<times> string \<times> (string \<times> string) list) res"

text \<open>
  The calls of an exchange. Reading the answer gives what the peer sends after these calls; the
  shutdown at the end is best effort, its failure is ignored.
\<close>

definition exchange_calls :: "http_options \<Rightarrow> string \<Rightarrow> string \<Rightarrow> http_request \<Rightarrow> http_request net_call list" where
  "exchange_calls os host port req =
     open_calls (tls_verify os) (tls_ca_file os) host port (timeout_ms os) @ [Request req, Response]"

definition exchange ::
  "http_request network \<Rightarrow> (http_request net_call list \<Rightarrow> int \<times> string \<times> (string \<times> string) list)
     \<Rightarrow> http_options \<Rightarrow> string \<Rightarrow> string \<Rightarrow> http_request
     \<Rightarrow> (int \<times> string \<times> (string \<times> string) list) res \<times> http_request net_call list" where
  "exchange nw answer os host port req =
     (case run_calls nw [] (exchange_calls os host port req) of
        (Inl e, tr) \<Rightarrow> (Inl e, tr)
      | (Inr u, tr) \<Rightarrow> (Inr (answer tr), tr @ [Tls_shutdown]))"

definition tls_transport ::
  "http_request network \<Rightarrow> (http_request net_call list \<Rightarrow> int \<times> string \<times> (string \<times> string) list)
     \<Rightarrow> transport" where
  "tls_transport nw answer os host port req = fst (exchange nw answer os host port req)"

definition perform_request ::
  "transport \<Rightarrow> http_options \<Rightarrow> string \<Rightarrow> string \<Rightarrow> http_request \<Rightarrow> http_response res" where
  "perform_request net os host port req =
     (let req = req\<lparr>req_fields := set_field (''Host'', host) (req_fields req)\<rparr> in
      bindE (net os host port req) (\<lambda>(st, b, fs).
        Inr \<lparr>status = st, resp_body = b,
             resp_headers = fold (\<lambda>(k, v) m. sm_emplace k v m) fs []\<rparr>))"

definition http_get ::
  "transport \<Rightarrow> http_options \<Rightarrow> string \<Rightarrow> string_map \<Rightarrow> string_map \<Rightarrow> http_response res" where
  "http_get net os https_url hdrs query =
     bindE (parse_https_url https_url query) (\<lambda>(host, port, tgt).
       perform_request net os host port
         (apply_headers os hdrs \<lparr>verb = GET, target = tgt, body = [], req_fields = []\<rparr>))"

definition http_post ::
  "transport \<Rightarrow> http_options \<Rightarrow> string \<Rightarrow> string \<Rightarrow> string \<Rightarrow> string_map \<Rightarrow> string_map
     \<Rightarrow> http_response res" where
  "http_post net os https_url b content_type hdrs query =
     bindE (parse_https_url https_url query) (\<lambda>(host, port, tgt).
       perform_request net os host port
         (apply_headers os hdrs
           \<lparr>verb = POST, target = tgt, body = b,
            req_fields = set_field (''Content-Type'', content_type)
              (set_field (''Content-Length'', show_nat (length b)) [])\<rparr>))"

definition post_json ::
  "transport \<Rightarrow> http_options \<Rightarrow> string \<Rightarrow> string \<Rightarrow> string_map \<Rightarrow> string_map \<Rightarrow> http_response res" where
  "post_json net os https_url json_body hdrs query =
     (let h = (if map_of hdrs ''Content-Type'' = None
               then sm_set ''Content-Type'' ''application/json'' hdrs else hdrs)
      in http_post net os https_url json_body ''application/json'' h query)"

definition set_default_header :: "string \<Rightarrow> string \<Rightarrow> http_options \<Rightarrow> http_options" where
  "set_default_header k v os = os\<lparr>default_headers := sm_set k v (default_headers os)\<rparr>"

definition erase_default_header :: "string \<Rightarrow> http_options \<Rightarrow> http_options" where
  "erase_default_header k os = os\<lparr>default_headers := sm_erase k (default_headers os)\<rparr>"

subsection \<open>Specification: reading a query string back\<close>

definition hex_value :: "char \<Rightarrow> nat option" where
  "hex_value c = (if is_digit c then Some (of_char c - 48)
     else if 65 \<le> (of_char c :: nat) \<and> of_char c \<le> (70 :: nat) then Some (of_char c - 55)
     else None)"

fun url_decode :: "string \<Rightarrow> string option" where
  "url_decode [] = Some []"
| "url_decode (c # s) =
     (if c = CHR ''%'' then
        (case s of
           h # l # r \<Rightarrow>
             (case (hex_value h, hex_value l) of
                (Some a, Some b) \<Rightarrow> map_option (Cons (char_of (16 * a + b))) (url_decode r)
              | _ \<Rightarrow> None)
         | _ \<Rightarrow> None)
      else map_option (Cons c) (url_decode s))"

fun split_on :: "char \<Rightarrow> string \<Rightarrow> string list" where
  "split_on c [] = [[]]"
| "split_on c (x # xs) =
     (if x = c then [] # split_on c xs
      else case split_on c xs of [] \<Rightarrow> [[x]] | y # ys \<Rightarrow> (x # y) # ys)"

definition decode_pair :: "string \<Rightarrow> (string \<times> string) option" where
  "decode_pair p =
     (case find_char CHR ''='' p of
        None \<Rightarrow> None
      | Some i \<Rightarrow> (case (url_decode (take i p), url_decode (drop (i + 1) p)) of
          (Some k, Some v) \<Rightarrow> Some (k, v)
        | _ \<Rightarrow> None))"

definition decode_query :: "string \<Rightarrow> string_map option" where
  "decode_query s = (if s = [] then Some [] else those (map decode_pair (split_on CHR ''&'' s)))"

lemma hex_digit_props:
  assumes "d < 16"
  shows "hex_value (hex_digit d) = Some d" and "unreserved (hex_digit d)"
proof -
  have "\<forall>d \<in> set [0..<16]. hex_value (hex_digit d) = Some d \<and> unreserved (hex_digit d)"
    by (simp add: upt_rec hex_value_def hex_digit_def unreserved_def is_alnum_def is_digit_def is_upper_def)
  with assms show "hex_value (hex_digit d) = Some d" "unreserved (hex_digit d)" by auto
qed

lemma not_reserved:
  "\<not> unreserved CHR ''%''" "\<not> unreserved CHR ''&''" "\<not> unreserved CHR ''=''"
  by (simp_all add: unreserved_def is_alnum_def is_digit_def is_upper_def is_lower_def)

lemma url_decode_char: "url_decode (encode_char c @ s) = map_option (Cons c) (url_decode s)"
proof (cases "unreserved c")
  case True
  then have "c \<noteq> CHR ''%''" using not_reserved(1) by auto
  with True show ?thesis by (simp add: encode_char_def)
next
  case False
  have d: "(of_char c :: nat) div 16 < 16" using nat_of_char_less_256[of c] by linarith
  have "char_of (16 * (of_char c div 16) + of_char c mod 16 :: nat) = c" by simp
  with d show ?thesis using False by (simp add: encode_char_def hex_digit_props)
qed

lemma url_decode_encode: "url_decode (url_encode s) = Some s"
  by (induction s) (simp_all add: url_encode_def url_decode_char)

lemma encode_clean: "c \<in> set (url_encode s) \<Longrightarrow> unreserved c \<or> c = CHR ''%''"
proof -
  have "(of_char x :: nat) div 16 < 16" for x using nat_of_char_less_256[of x] by linarith
  then show "c \<in> set (url_encode s) \<Longrightarrow> unreserved c \<or> c = CHR ''%''"
    by (auto simp: url_encode_def encode_char_def hex_digit_props split: if_splits)
qed

lemma split_on_step: "c \<notin> set a \<Longrightarrow> split_on c (a @ c # b) = a # split_on c b"
  by (induction a) auto

lemma split_on_none: "c \<notin> set a \<Longrightarrow> split_on c a = [a]"
  by (induction a) auto

lemma query_loop_False: "query_loop False q = (if q = [] then [] else CHR ''&'' # query_loop True q)"
  by (cases q) auto

lemma decode_pair_encode: "decode_pair (url_encode k @ CHR ''='' # url_encode v) = Some (k, v)"
proof -
  have "CHR ''='' \<notin> set (url_encode k)" using encode_clean not_reserved(3) by blast
  then show ?thesis by (simp add: decode_pair_def url_decode_encode)
qed

lemma decode_query_loop:
  "q \<noteq> [] \<Longrightarrow> those (map decode_pair (split_on CHR ''&'' (query_loop True q))) = Some q"
proof (induction q)
  case (Cons kv q)
  obtain k v where kv: "kv = (k, v)" by (cases kv)
  have amp: "CHR ''&'' \<notin> set (url_encode k @ CHR ''='' # url_encode v)"
    using encode_clean not_reserved(2) by fastforce
  show ?case
  proof (cases "q = []")
    case True
    then show ?thesis
      using split_on_none[OF amp] by (simp add: kv decode_pair_encode)
  next
    case False
    then have "query_loop True (kv # q) =
        (url_encode k @ CHR ''='' # url_encode v) @ CHR ''&'' # query_loop True q"
      by (simp add: kv query_loop_False)
    then show ?thesis
      using split_on_step[OF amp] Cons.IH[OF False] by (simp add: kv decode_pair_encode)
  qed
qed simp

lemma build_query_nonempty: "build_query_string q = [] \<longleftrightarrow> q = []"
  by (cases q) (auto simp: build_query_string_def)

lemma query_loop_clean:
  "c \<in> set (query_loop first q) \<Longrightarrow> unreserved c \<or> c \<in> {CHR ''%'', CHR ''&'', CHR ''=''}"
  by (induction first q rule: query_loop.induct) (auto dest: encode_clean split: if_splits)

lemma apply_headers_find:
  "find_field (req_fields (apply_headers os hdrs req)) n =
     (case find (\<lambda>kv. lower (fst kv) = n) (rev hdrs) of Some kv \<Rightarrow> Some kv
      | None \<Rightarrow> (case find (\<lambda>kv. lower (fst kv) = n) (rev (default_headers os)) of Some kv \<Rightarrow> Some kv
      | None \<Rightarrow> if n = ''user-agent'' then Some (''User-Agent'', user_agent os)
               else find_field (req_fields req) n))"
proof -
  have ua: "lower ''User-Agent'' = ''user-agent''"
    by (simp add: lower_def to_lower_def is_upper_def char_of_def bit_0)
  show ?thesis
    by (simp add: apply_headers_def Let_def header_fields.get_fold_put header_fields.get_put ua
        split: option.split)
qed

subsection \<open>Properties\<close>

text \<open>
  C36. The query string determines the query: splitting it at \<open>&\<close> and \<open>=\<close> and undoing the
  percent-encoding gives back the keys and values, byte for byte and in order, and it consists
  of unreserved characters and \<open>%\<close>, \<open>&\<close>, \<open>=\<close> alone, so it cannot end the target or start another
  component.
\<close>

theorem query_roundtrip:
  "decode_query (build_query_string q) = Some q
    \<and> list_all (\<lambda>c. unreserved c \<or> c \<in> {CHR ''%'', CHR ''&'', CHR ''=''}) (build_query_string q)"
proof
  show "decode_query (build_query_string q) = Some q"
    using decode_query_loop[of q] build_query_nonempty[of q]
    by (auto simp: decode_query_def build_query_string_def)
  show "list_all (\<lambda>c. unreserved c \<or> c \<in> {CHR ''%'', CHR ''&'', CHR ''=''}) (build_query_string q)"
    using query_loop_clean by (auto simp: build_query_string_def list_all_iff)
qed

text \<open>What a query adds to a path.\<close>

definition query_tail :: "string_map \<Rightarrow> string \<Rightarrow> string" where
  "query_tail q p = (if q = [] then []
     else (if CHR ''?'' \<in> set p then CHR ''&'' else CHR ''?'') # build_query_string q)"

text \<open>
  The address: \<open>parse_https_url\<close> throws exactly on what does not start with \<open>https://\<close>, and
  reads back host and port (443 when absent) and the path, to which it appends the query with
  \<open>?\<close>, or with \<open>&\<close> when the path has a query of its own.
\<close>

lemma parse_https_url_reads:
  assumes "CHR ''/'' \<notin> set host" and "CHR '':'' \<notin> set host"
    and "CHR ''/'' \<notin> set port" and "port \<noteq> []"
  shows "parse_https_url (''https://'' @ host) q = Inr (host, ''443'', CHR ''/'' # query_tail q [])
    \<and> parse_https_url (''https://'' @ host @ CHR ''/'' # p) q = Inr (host, ''443'', CHR ''/'' # p @ query_tail q p)
    \<and> parse_https_url (''https://'' @ (host @ CHR '':'' # port) @ CHR ''/'' # p) q = Inr (host, port, CHR ''/'' # p @ query_tail q p)
    \<and> (isl (parse_https_url s q) \<longleftrightarrow> \<not> starts_with ''https://'' s)"
proof -
  have parts: "CHR ''/'' \<notin> set (host @ CHR '':'' # port)" using assms by auto
  have pre: "parse_https_url (''https://'' @ rest) q =
      (let slash = find_char CHR ''/'' rest;
           hostport = (case slash of None \<Rightarrow> rest | Some i \<Rightarrow> take i rest);
           path = (case slash of None \<Rightarrow> ''/'' | Some i \<Rightarrow> drop i rest);
           hp = (case find_char CHR '':'' hostport of
                   None \<Rightarrow> (hostport, ''443'')
                 | Some c \<Rightarrow> (take c hostport,
                     if drop (c + 1) hostport = [] then ''443'' else drop (c + 1) hostport))
       in Inr (fst hp, snd hp, path @ query_tail q path))" for rest
    by (auto simp: parse_https_url_def starts_with_def query_tail_def Let_def build_query_nonempty str_simps)
  have path: "query_tail q (CHR ''/'' # p) = query_tail q p" for p by (simp add: query_tail_def)
  have slash: "find_char CHR ''/'' (host @ CHR ''/'' # p) = Some (length host)"
    "find_char CHR ''/'' host = None"
    "find_char CHR ''/'' ((host @ CHR '':'' # port) @ CHR ''/'' # p) = Some (length (host @ CHR '':'' # port))"
    by (rule find_char_append find_char_notin, rule assms(1) parts)+
  have colon: "find_char CHR '':'' (host @ CHR '':'' # port) = Some (length host)"
    "find_char CHR '':'' host = None"
    using assms(2) by simp_all
  have "parse_https_url (''https://'' @ host) q = Inr (host, ''443'', CHR ''/'' # query_tail q [])"
    unfolding pre by (simp add: slash colon path[of "[]"])
  moreover have "parse_https_url (''https://'' @ host @ CHR ''/'' # p) q = Inr (host, ''443'', CHR ''/'' # p @ query_tail q p)"
    unfolding pre by (simp add: slash colon path)
  moreover have "parse_https_url (''https://'' @ (host @ CHR '':'' # port) @ CHR ''/'' # p) q
      = Inr (host, port, CHR ''/'' # p @ query_tail q p)"
    unfolding pre Let_def slash(3) by (simp add: colon assms(4) path)
  moreover have "isl (parse_https_url s q) \<longleftrightarrow> \<not> starts_with ''https://'' s"
    by (simp add: parse_https_url_def Let_def)
  ultimately show ?thesis by blast
qed

lemma parse_https_url_reads_witness:
  "parse_https_url ''https://api.example:8443/v1?a=1'' [(''q'', ''x y'')]
    = Inr (''api.example'', ''8443'', ''/v1?a=1&q=x%20y'')"
proof -
  have "build_query_string [(''q'', ''x y'')] = ''q=x%20y''"
    by (simp add: build_query_string_def url_encode_def encode_char_def unreserved_def is_alnum_def
        is_digit_def is_upper_def is_lower_def hex_digit_def)
  then show ?thesis
    using parse_https_url_reads[of "''api.example''" "''8443''" "[(''q'', ''x y'')]" "''v1?a=1''" "[]"]
    by (simp add: query_tail_def)
qed

text \<open>
  C38. Header precedence of a POST: whatever the case of the names, the value of a field sent
  is that of the call if it gives one, else that of the default headers, else the user agent,
  the content type and the length of the body; only \<open>Host\<close> is always the host of the address.
\<close>

theorem post_header_precedence:
  assumes "parse_https_url https_url query = Inr (host, port, tgt)"
  shows "\<exists>req. http_post net os https_url b ct hdrs query = bindE (net os host port req) (\<lambda>(st, rb, fs).
        Inr \<lparr>status = st, resp_body = rb, resp_headers = fold (\<lambda>(k, v) m. sm_emplace k v m) fs []\<rparr>)
    \<and> verb req = POST \<and> target req = tgt \<and> body req = b
    \<and> find_field (req_fields req) n =
       (if n = ''host'' then Some (''Host'', host)
        else case find (\<lambda>kv. lower (fst kv) = n) (rev hdrs) of Some kv \<Rightarrow> Some kv
        | None \<Rightarrow> (case find (\<lambda>kv. lower (fst kv) = n) (rev (default_headers os)) of Some kv \<Rightarrow> Some kv
        | None \<Rightarrow> if n = ''user-agent'' then Some (''User-Agent'', user_agent os)
                 else if n = ''content-type'' then Some (''Content-Type'', ct)
                 else if n = ''content-length'' then Some (''Content-Length'', show_nat (length b))
                 else None))"
proof -
  have low: "lower ''Host'' = ''host''" "lower ''Content-Type'' = ''content-type''"
    "lower ''Content-Length'' = ''content-length''"
    by (simp_all add: lower_def to_lower_def is_upper_def char_of_def bit_0)
  define r0 where "r0 = \<lparr>verb = POST, target = tgt, body = b,
      req_fields = set_field (''Content-Type'', ct) (set_field (''Content-Length'', show_nat (length b)) [])\<rparr>"
  define req where "req = (apply_headers os hdrs r0)
      \<lparr>req_fields := set_field (''Host'', host) (req_fields (apply_headers os hdrs r0))\<rparr>"
  have "http_post net os https_url b ct hdrs query = bindE (net os host port req) (\<lambda>(st, rb, fs).
        Inr \<lparr>status = st, resp_body = rb, resp_headers = fold (\<lambda>(k, v) m. sm_emplace k v m) fs []\<rparr>)"
    by (simp add: http_post_def assms perform_request_def req_def r0_def Let_def)
  moreover have "verb req = POST" "target req = tgt" "body req = b"
    by (simp_all add: req_def r0_def apply_headers_def Let_def)
  moreover have "find_field (req_fields r0) m = (if m = ''content-type'' then Some (''Content-Type'', ct)
      else if m = ''content-length'' then Some (''Content-Length'', show_nat (length b)) else None)" for m
    by (simp add: r0_def header_fields.get_put low) (simp add: find_field_def)
  ultimately show ?thesis
    by (intro exI[of _ req]) (simp add: req_def header_fields.get_put apply_headers_find low split: option.split)
qed

theorem post_header_precedence_witness:
  "\<exists>req :: http_request. http_post (\<lambda>os host port req. Inr (200, [], req_fields req))
        \<lparr>timeout_ms = 10000, tls_verify = True, tls_ca_file = [], user_agent = ''alpha-http/1.0'',
         default_headers = []\<rparr> ''https://h/p'' ''{}'' ''text/plain'' [(''content-type'', ''application/json'')] []
      = Inr \<lparr>status = 200, resp_body = [],
          resp_headers = fold (\<lambda>(k, v) m. sm_emplace k v m) (req_fields req) []\<rparr>
    \<and> find_field (req_fields req) ''content-type'' = Some (''content-type'', ''application/json'')"
proof -
  have u: "parse_https_url ''https://h/p'' [] = Inr (''h'', ''443'', ''/p'')"
    by (simp add: parse_https_url_def starts_with_def build_query_string_def)
  have l: "lower ''content-type'' = ''content-type''"
    by (simp add: lower_def to_lower_def is_upper_def)
  let ?os = "\<lparr>timeout_ms = 10000, tls_verify = True, tls_ca_file = [], user_agent = ''alpha-http/1.0'',
         default_headers = []\<rparr>"
  show ?thesis
    using post_header_precedence[OF u, of "\<lambda>os host port req. Inr (200, [], req_fields req)" ?os
        "''{}''" "''text/plain''" "[(''content-type'', ''application/json'')]" "''content-type''"]
    by (simp add: l) blast
qed

text \<open>
  C37. A request leaves only over a prepared channel, and once. The calls before it depend on the
  options and the address only, hold no request, and are each made at most once: setting the
  verification mode of the options and no other, resolving host and port, connecting, naming the
  host to the server, and the TLS handshake, in this order, beside the loading of certificates,
  a new stream and its deadline. Over any network, when they, the request and the reading of
  the answer succeed, the exchange returns the answer and has made exactly these calls and the
  shutdown; otherwise it throws the error of the first call that fails and has made the calls
  up to that one.
\<close>

theorem request_after_handshake:
  "\<exists>pre. subseq [Verify_mode (tls_verify os), Resolve host port, Tcp_connect, Set_sni host, Tls_handshake] pre
    \<and> set pre \<subseteq> {Default_paths, Load_ca (tls_ca_file os), Verify_mode (tls_verify os), Resolve host port,
        New_stream, Deadline (timeout_ms os), Tcp_connect, Set_sni host, Tls_handshake}
    \<and> distinct pre
    \<and> (\<forall>nw answer. let calls = pre @ [Request req, Response]; x = exchange nw answer os host port req in
        if all_ok nw [] calls then x = (Inr (answer calls), calls @ [Tls_shutdown])
        else \<exists>made c rest. calls = made @ c # rest \<and> all_ok nw [] made \<and> \<not> nw made c
          \<and> x = (Inl (failure c), made @ [c]))"
proof -
  let ?pre = "open_calls (tls_verify os) (tls_ca_file os) host port (timeout_ms os)
    :: http_request net_call list"
  let ?calls = "?pre @ [Request req, Response]"
  have each: "if all_ok nw [] ?calls
      then exchange nw answer os host port req = (Inr (answer ?calls), ?calls @ [Tls_shutdown])
      else \<exists>made c rest. ?calls = made @ c # rest \<and> all_ok nw [] made \<and> \<not> nw made c
        \<and> exchange nw answer os host port req = (Inl (failure c), made @ [c])" for nw answer
  proof -
    obtain r tr where r: "run_calls nw [] ?calls = (r, tr)" by (cases "run_calls nw [] ?calls")
    then show ?thesis
    proof (cases rule: run_calls_cases)
      case returned
      then show ?thesis using r by (simp add: exchange_def exchange_calls_def)
    next
      case (failed a c b)
      then have "\<not> all_ok nw [] ?calls" by (simp only: failed(1) all_ok_append) simp
      moreover have "exchange nw answer os host port req = (Inl (failure c), a @ [c])"
        using r failed(2,3) by (simp add: exchange_def exchange_calls_def)
      ultimately show ?thesis using failed(1,4,5) by auto
    qed
  qed
  have "set ?pre \<subseteq> {Default_paths, Load_ca (tls_ca_file os), Verify_mode (tls_verify os), Resolve host port,
      New_stream, Deadline (timeout_ms os), Tcp_connect, Set_sni host, Tls_handshake}" "distinct ?pre"
    by (auto simp: open_calls_def)
  then show ?thesis
    unfolding Let_def
    by (intro exI[of _ ?pre] conjI allI) (rule open_calls_order each | assumption)+
qed

end
