(* ===== verification/Config.thy ===== *)
theory Config
  imports Json
begin

text \<open>
  \<open>Config\<close> (\<open>include/config.h\<close>, \<open>src/config.cpp\<close>): the settings read from a JSON file. The
  content of the file, if it can be opened, and the stream operator of the JSON library (which
  reads one value and ignores what follows) are arguments.
\<close>

record config =
  api_key :: string
  client_id :: string
  client_secret :: string
  cfg_tokens :: "string list"
  splits :: "string \<rightharpoonup> i32"

text \<open>\<open>at(k)\<close> and the \<open>get\<close> conversions, which throw on other kinds.\<close>

fun json_at :: "'d json \<Rightarrow> string \<Rightarrow> 'd json res" where
  "json_at (JObject kvs) k = (case map_of kvs k of None \<Rightarrow> Inl Json_exception | Some v \<Rightarrow> Inr v)"
| "json_at _ k = Inl Json_exception"

fun get_string :: "'d json \<Rightarrow> string res" where
  "get_string (JString s) = Inr s"
| "get_string _ = Inl Json_exception"

fun get_strings :: "'d json \<Rightarrow> string list res" where
  "get_strings (JArray vs) = mapE get_string vs"
| "get_strings _ = Inl Json_exception"

text \<open>\<open>get<int>()\<close> takes any number or boolean and converts it with \<open>static_cast\<close>.\<close>

fun get_int :: "'d runtime \<Rightarrow> 'd json \<Rightarrow> i32 res" where
  "get_int rt (JInt w) = Inr (ucast w)"
| "get_int rt (JUInt w) = Inr (ucast w)"
| "get_int rt (JFloat d) =
     (case to_ll rt d of
        None \<Rightarrow> Inl Undefined_behaviour
      | Some w \<Rightarrow> if - (2 ^ 31) \<le> sint w \<and> sint w < 2 ^ 31 then Inr (ucast w)
                  else Inl Undefined_behaviour)"
| "get_int rt (JBool b) = Inr (of_bool b)"
| "get_int rt _ = Inl Json_exception"

fun get_splits :: "'d runtime \<Rightarrow> 'd json \<Rightarrow> (string \<rightharpoonup> i32) res" where
  "get_splits rt (JObject kvs) =
     bindE (mapE (\<lambda>(k, v). bindE (get_int rt v) (\<lambda>n. Inr (k, n))) kvs) (\<lambda>m. Inr (map_of m))"
| "get_splits rt _ = Inl Json_exception"

definition load_from_file ::
  "'d runtime \<Rightarrow> (string \<Rightarrow> 'd json option) \<Rightarrow> string option \<Rightarrow> string \<Rightarrow> config res" where
  "load_from_file rt read_json file path =
     (case file of
        None \<Rightarrow> Inl (Runtime_error (''Confit file not found: '' @ path))
      | Some text \<Rightarrow>
        (case read_json text of
           None \<Rightarrow> Inl Json_exception
         | Some j \<Rightarrow>
             bindE (bindE (json_at j ''api_key'') get_string) (\<lambda>a.
             bindE (bindE (json_at j ''client_id'') get_string) (\<lambda>i.
             bindE (bindE (json_at j ''client_secret'') get_string) (\<lambda>s.
             bindE (bindE (json_at j ''tokens'') get_strings) (\<lambda>toks.
             bindE (bindE (json_at j ''splits'') (get_splits rt)) (\<lambda>sp.
               Inr \<lparr>api_key = a, client_id = i, client_secret = s, cfg_tokens = toks, splits = sp\<rparr>)))))))"

subsection \<open>What a loaded configuration comes from\<close>

lemma json_at_Inr: "json_at j k = Inr v \<longleftrightarrow> json_field j k = Some v"
  by (cases j) (auto split: option.splits)

lemma get_string_Inr: "get_string v = Inr s \<longleftrightarrow> v = JString s"
  by (cases v) auto

lemma get_strings_Inr: "get_strings v = Inr ss \<longleftrightarrow> v = JArray (map JString ss)"
proof (cases v)
  case (JArray vs)
  have "mapE get_string vs = Inr ss \<longleftrightarrow> vs = map JString ss"
    by (induction vs arbitrary: ss) (auto simp: bindE_Inr_iff get_string_Inr Cons_eq_map_conv)
  with JArray show ?thesis by simp
qed auto

text \<open>A configuration is loaded only from a readable file that holds every field with its type.\<close>

lemma load_from_file_Inr:
  "load_from_file rt read_json file path = Inr c \<longleftrightarrow>
    (\<exists>text j sp. file = Some text \<and> read_json text = Some j
      \<and> json_field j ''api_key'' = Some (JString (api_key c))
      \<and> json_field j ''client_id'' = Some (JString (client_id c))
      \<and> json_field j ''client_secret'' = Some (JString (client_secret c))
      \<and> json_field j ''tokens'' = Some (JArray (map JString (cfg_tokens c)))
      \<and> json_field j ''splits'' = Some sp \<and> get_splits rt sp = Inr (splits c))"
  by (cases c)
     (auto simp: load_from_file_def bindE_Inr_iff json_at_Inr get_string_Inr get_strings_Inr
       split: option.splits)

lemma json_errors:
  "json_at j k = Inl e \<Longrightarrow> e = Json_exception" "get_string v = Inl e \<Longrightarrow> e = Json_exception"
  "get_strings v = Inl e \<Longrightarrow> e = Json_exception"
  "get_int rt v = Inl e \<Longrightarrow> e \<in> {Json_exception, Undefined_behaviour}"
proof -
  show s: "get_string v = Inl e \<Longrightarrow> e = Json_exception" for v by (cases v) auto
  show "json_at j k = Inl e \<Longrightarrow> e = Json_exception" by (cases j) (auto split: option.splits)
  show "get_strings v = Inl e \<Longrightarrow> e = Json_exception"
    by (cases v) (auto dest!: mapE_Inl s)
  show "get_int rt v = Inl e \<Longrightarrow> e \<in> {Json_exception, Undefined_behaviour}"
    by (cases v) (auto split: option.splits if_splits)
qed

lemma get_splits_error: "get_splits rt v = Inl e \<Longrightarrow> e \<in> {Json_exception, Undefined_behaviour}"
  by (cases v) (auto simp: bindE_Inl_iff dest!: mapE_Inl json_errors(4))

subsection \<open>Properties\<close>

text \<open>
  C40. What is loaded is well typed: a configuration comes only from a readable file holding a
  JSON object with a string for each of the three keys, an array of strings for the tokens,
  and numbers for the splits, and carries exactly these; the error without a file names its
  path; with a file, the only errors are the JSON library's and the conversion of a split that
  no \<open>int\<close> represents.
\<close>

theorem config_loaded:
  "case load_from_file rt read_json file path of
     Inr c \<Rightarrow> (\<exists>content j kvs sp. file = Some content \<and> read_json content = Some j \<and> j = JObject kvs
       \<and> json_field j ''api_key'' = Some (JString (api_key c))
       \<and> json_field j ''client_id'' = Some (JString (client_id c))
       \<and> json_field j ''client_secret'' = Some (JString (client_secret c))
       \<and> json_field j ''tokens'' = Some (JArray (map JString (cfg_tokens c)))
       \<and> json_field j ''splits'' = Some sp \<and> get_splits rt sp = Inr (splits c))
   | Inl e \<Rightarrow> (if file = None then e = Runtime_error (''Confit file not found: '' @ path)
       else e \<in> {Json_exception, Undefined_behaviour})"
proof (cases "load_from_file rt read_json file path")
  case (Inl e)
  then show ?thesis
    by (auto simp: load_from_file_def bindE_Inl_iff split: option.splits
        dest!: json_errors(1-3) get_splits_error)
next
  case (Inr c)
  then obtain content j sp where "file = Some content" "read_json content = Some j"
    "json_field j ''api_key'' = Some (JString (api_key c))"
    "json_field j ''client_id'' = Some (JString (client_id c))"
    "json_field j ''client_secret'' = Some (JString (client_secret c))"
    "json_field j ''tokens'' = Some (JArray (map JString (cfg_tokens c)))"
    "json_field j ''splits'' = Some sp" "get_splits rt sp = Inr (splits c)"
    unfolding load_from_file_Inr by blast
  moreover from this(3) obtain kvs where "j = JObject kvs" by (cases j) auto
  ultimately show ?thesis using Inr by simp
qed

end
