(* ===== verification/Auth.thy ===== *)
theory Auth
  imports Parser Http_Client Config
begin

text \<open>
  \<open>Auth\<close> (\<open>include/auth.h\<close>, \<open>src/auth.cpp\<close>): login and token refresh over the HTTP client. An
  operation that throws may already have changed the tokens, so each returns its result and
  the tokens it leaves. The current time is an argument; messages to the logger are left out.
\<close>

subsection \<open>State\<close>

record tokens =
  access_token :: string
  refresh_token :: string
  feed_token :: string
  expires_at :: i64

record auth =
  a_cfg :: config
  a_http :: http_options
  a_tokens :: tokens

definition auth_new :: "config \<Rightarrow> http_options \<Rightarrow> auth" where
  "auth_new cfg h = \<lparr>a_cfg = cfg, a_http = h,
     a_tokens = \<lparr>access_token = [], refresh_token = [], feed_token = [], expires_at = 0\<rparr>\<rparr>"

definition kBase :: string where
  "kBase = ''https://apiconnect.angelone.in''"

definition kLoginPath :: string where
  "kLoginPath = ''/rest/auth/angelbroking/user/v1/loginByPassword''"

definition kGenTok :: string where
  "kGenTok = ''/rest/auth/angelbroking/jwt/v1/generateTokens''"

definition auth_common_headers :: "config \<Rightarrow> string_map" where
  "auth_common_headers cfg = fold (\<lambda>(k, v) m. sm_set k v m)
     [(''Content-Type'', ''application/json''), (''Accept'', ''application/json''),
      (''X-PrivateKey'', api_key cfg), (''X-UserType'', ''USER''), (''X-SourceID'', ''WEB'')] []"

subsection \<open>Reading the responses\<close>

text \<open>\<open>get<int>()\<close> keeps the low 32 bits of an integer.\<close>

definition ttl_sec :: "'d json \<Rightarrow> i32" where
  "ttl_sec d =
     (let pick = (\<lambda>k. case json_field d k of
             Some v \<Rightarrow> if is_number_integer v then Some (ucast (get_ll v) :: i32) else None
           | None \<Rightarrow> None)
      in case pick ''expiresIn'' of
           Some n \<Rightarrow> n
         | None \<Rightarrow> (case pick ''jwtTokenTTL'' of Some n \<Rightarrow> n | None \<Rightarrow> 0))"

text \<open>\<open>j.contains("data") && j["data"].is_object()\<close>\<close>

definition data_object :: "'d json \<Rightarrow> 'd json option" where
  "data_object j = (case json_field j ''data'' of
     Some d \<Rightarrow> if is_object d then Some d else None
   | None \<Rightarrow> None)"

definition handle_login_response ::
  "'d runtime \<Rightarrow> i64 \<Rightarrow> string \<Rightarrow> tokens \<Rightarrow> bool res \<times> tokens" where
  "handle_login_response rt now bdy t =
     (case parse_json rt bdy of
        None \<Rightarrow> (Inr False, t)
      | Some j \<Rightarrow>
        (case data_object j of
           None \<Rightarrow> (Inr False, t)
         | Some d \<Rightarrow>
             if \<not> json_contains d ''jwtToken'' \<or> \<not> json_contains d ''refreshToken'' then (Inr False, t)
             else case json_value d ''jwtToken'' [] of
               Inl e \<Rightarrow> (Inl e, t)
             | Inr acc \<Rightarrow>
                 let t = t\<lparr>access_token := acc\<rparr> in
                 case json_value d ''refreshToken'' [] of
                   Inl e \<Rightarrow> (Inl e, t)
                 | Inr refr \<Rightarrow>
                     let t = t\<lparr>refresh_token := refr\<rparr> in
                     case json_value d ''feedToken'' [] of
                       Inl e \<Rightarrow> (Inl e, t)
                     | Inr feed \<Rightarrow>
                         let t = t\<lparr>feed_token := feed\<rparr>; ttl = ttl_sec d in
                         if 0 < sint ttl then
                           case ticks (sint now + sint ttl * 10 ^ 9) of
                             Inl e \<Rightarrow> (Inl e, t)
                           | Inr w \<Rightarrow> (Inr (acc \<noteq> []), t\<lparr>expires_at := w\<rparr>)
                         else (Inr (acc \<noteq> []), t\<lparr>expires_at := 0\<rparr>)))"

definition handle_refresh_response ::
  "'d runtime \<Rightarrow> i64 \<Rightarrow> string \<Rightarrow> tokens \<Rightarrow> bool res \<times> tokens" where
  "handle_refresh_response rt now bdy t =
     (case parse_json rt bdy of
        None \<Rightarrow> (Inr False, t)
      | Some j \<Rightarrow>
        (case data_object j of
           None \<Rightarrow> (Inr False, t)
         | Some d \<Rightarrow>
             case json_value d ''jwtToken'' [] of
               Inl e \<Rightarrow> (Inl e, t)
             | Inr new_jwt \<Rightarrow>
                 if new_jwt = [] then (Inr False, t)
                 else
                   let t = t\<lparr>access_token := new_jwt\<rparr> in
                   case (if json_contains d ''refreshToken''
                         then json_value d ''refreshToken'' (refresh_token t)
                         else Inr (refresh_token t)) of
                     Inl e \<Rightarrow> (Inl e, t)
                   | Inr refr \<Rightarrow>
                       let t = t\<lparr>refresh_token := refr\<rparr> in
                       case json_value d ''feedToken'' (feed_token t) of
                         Inl e \<Rightarrow> (Inl e, t)
                       | Inr feed \<Rightarrow>
                           let t = t\<lparr>feed_token := feed\<rparr>; ttl = ttl_sec d in
                           if 0 < sint ttl then
                             case ticks (sint now + sint ttl * 10 ^ 9) of
                               Inl e \<Rightarrow> (Inl e, t)
                             | Inr w \<Rightarrow> (Inr True, t\<lparr>expires_at := w\<rparr>)
                           else (Inr True, t)))"

subsection \<open>The operations\<close>

text \<open>The exchange common to both: write the payload, post it, and look at the status.\<close>

definition auth_post ::
  "'d runtime \<Rightarrow> transport \<Rightarrow> string \<Rightarrow> 'd json \<Rightarrow> auth \<Rightarrow> http_response res" where
  "auth_post rt net path payload a =
     bindE (dump_json rt payload) (\<lambda>p.
       post_json net (a_http a) (kBase @ path) p (auth_common_headers (a_cfg a)) [])"

definition login_impl ::
  "'d runtime \<Rightarrow> transport \<Rightarrow> i64 \<Rightarrow> string \<Rightarrow> auth \<Rightarrow> bool res \<times> auth" where
  "login_impl rt net now otp a =
     (case auth_post rt net kLoginPath
             (JObject [(''clientcode'', JString (client_id (a_cfg a))),
                       (''password'', JString (client_secret (a_cfg a))),
                       (''totp'', JString otp)]) a of
        Inl e \<Rightarrow> (Inl e, a)
      | Inr resp \<Rightarrow>
          if status resp div 100 \<noteq> 2 then (Inr False, a)
          else case handle_login_response rt now (resp_body resp) (a_tokens a) of
            (r, t) \<Rightarrow> (r, a\<lparr>a_tokens := t\<rparr>))"

definition login_with_totp ::
  "'d runtime \<Rightarrow> transport \<Rightarrow> i64 \<Rightarrow> string \<Rightarrow> auth \<Rightarrow> bool res \<times> auth" where
  "login_with_totp rt net now totp a = login_impl rt net now totp a"

definition login_with_cotp ::
  "'d runtime \<Rightarrow> transport \<Rightarrow> i64 \<Rightarrow> string \<Rightarrow> auth \<Rightarrow> bool res \<times> auth" where
  "login_with_cotp rt net now cotp a = login_impl rt net now cotp a"

definition refresh :: "'d runtime \<Rightarrow> transport \<Rightarrow> i64 \<Rightarrow> auth \<Rightarrow> bool res \<times> auth" where
  "refresh rt net now a =
     (if refresh_token (a_tokens a) = [] then (Inr False, a)
      else case auth_post rt net kGenTok
             (JObject [(''refreshToken'', JString (refresh_token (a_tokens a)))]) a of
        Inl e \<Rightarrow> (Inl e, a)
      | Inr resp \<Rightarrow>
          if status resp div 100 \<noteq> 2 then (Inr False, a)
          else case handle_refresh_response rt now (resp_body resp) (a_tokens a) of
            (r, t) \<Rightarrow> (r, a\<lparr>a_tokens := t\<rparr>))"

definition is_expired :: "i64 \<Rightarrow> int \<Rightarrow> auth \<Rightarrow> bool res" where
  "is_expired now skew a =
     (if access_token (a_tokens a) = [] then Inr True
      else if expires_at (a_tokens a) = 0 then Inr False
      else bindE (ticks (sint now + skew * 10 ^ 9)) (\<lambda>w.
        Inr (sint (expires_at (a_tokens a)) \<le> sint w)))"

definition auth_headers :: "auth \<Rightarrow> string_map" where
  "auth_headers a =
     (if access_token (a_tokens a) = [] then []
      else [(''Authorization'', ''Bearer '' @ access_token (a_tokens a))])"

subsection \<open>What the handlers leave behind\<close>

definition expiry :: "i64 \<Rightarrow> i64 \<Rightarrow> i32 \<Rightarrow> i64 \<Rightarrow> bool" where
  "expiry old now ttl new \<longleftrightarrow>
     (if 0 < sint ttl then sint new = sint now + sint ttl * 10 ^ 9 else new = old)"

lemma ticks_sint: "ticks n = Inr w \<Longrightarrow> sint w = n"
  by (auto simp: ticks_iff sint_of_int_i64)

lemma json_value_cases:
  "json_value d k dflt = Inr s \<Longrightarrow>
    json_field d k = Some (JString s) \<or> json_field d k = None \<and> s = dflt"
  by (cases d) (auto split: option.splits json.splits)

lemma login_handler_True:
  assumes "handle_login_response rt now bdy t = (Inr True, t')"
  shows "\<exists>j d. parse_json rt bdy = Some j \<and> json_field j ''data'' = Some d \<and> is_object d
    \<and> json_field d ''jwtToken'' = Some (JString (access_token t')) \<and> access_token t' \<noteq> []
    \<and> json_field d ''refreshToken'' = Some (JString (refresh_token t'))
    \<and> json_value d ''feedToken'' [] = Inr (feed_token t')
    \<and> expiry 0 now (ttl_sec d) (expires_at t')"
proof -
  obtain j d where j: "parse_json rt bdy = Some j" "json_field j ''data'' = Some d" "is_object d"
    and has: "json_contains d ''jwtToken''" "json_contains d ''refreshToken''"
    and vals: "json_value d ''jwtToken'' [] = Inr (access_token t')"
      "json_value d ''refreshToken'' [] = Inr (refresh_token t')"
      "json_value d ''feedToken'' [] = Inr (feed_token t')" "access_token t' \<noteq> []"
      "expiry 0 now (ttl_sec d) (expires_at t')"
    using assms
    by (auto simp: handle_login_response_def data_object_def Let_def expiry_def
        split: option.splits if_splits sum.splits dest: ticks_sint)
  then show ?thesis
    using json_value_cases[OF vals(1)] json_value_cases[OF vals(2)] has
    by (auto simp: json_contains_def)
qed

lemma refresh_handler_True:
  assumes "handle_refresh_response rt now bdy t = (Inr True, t')"
  shows "\<exists>j d. parse_json rt bdy = Some j \<and> json_field j ''data'' = Some d
    \<and> json_field d ''jwtToken'' = Some (JString (access_token t')) \<and> access_token t' \<noteq> []
    \<and> expiry (expires_at t) now (ttl_sec d) (expires_at t')"
proof -
  obtain j d where j: "parse_json rt bdy = Some j" "json_field j ''data'' = Some d"
    and vals: "json_value d ''jwtToken'' [] = Inr (access_token t')" "access_token t' \<noteq> []"
      "expiry (expires_at t) now (ttl_sec d) (expires_at t')"
    using assms
    by (auto simp: handle_refresh_response_def data_object_def Let_def expiry_def
        split: option.splits if_splits sum.splits dest: ticks_sint)
  then show ?thesis using json_value_cases[OF vals(1)] by auto
qed

lemma login_authorises:
  assumes "login_impl rt net now otp a = (Inr True, a')"
  shows "access_token (a_tokens a') \<noteq> []"
    and "auth_headers a' = [(''Authorization'', ''Bearer '' @ access_token (a_tokens a'))]"
proof -
  obtain bdy where "handle_login_response rt now bdy (a_tokens a) = (Inr True, a_tokens a')"
    using assms by (auto simp: login_impl_def split: sum.splits if_splits prod.splits)
  from login_handler_True[OF this] show "access_token (a_tokens a') \<noteq> []" by blast
  then show "auth_headers a' = [(''Authorization'', ''Bearer '' @ access_token (a_tokens a'))]"
    by (simp add: auth_headers_def)
qed

subsection \<open>Properties\<close>

text \<open>
  C32. A login that returns true: the server answered 2xx with a \<open>data\<close> object holding a
  non-empty \<open>jwtToken\<close> and a \<open>refreshToken\<close>, these are the tokens kept, the expiry is unknown or
  exactly the time to live after now, and the authorisation header carries the token.
\<close>

theorem login_outcome:
  assumes "login_impl rt net now otp a = (Inr True, a')"
  shows "\<exists>resp j d. auth_post rt net kLoginPath
        (JObject [(''clientcode'', JString (client_id (a_cfg a))),
          (''password'', JString (client_secret (a_cfg a))), (''totp'', JString otp)]) a = Inr resp
    \<and> status resp div 100 = 2 \<and> parse_json rt (resp_body resp) = Some j
    \<and> json_field j ''data'' = Some d
    \<and> json_field d ''jwtToken'' = Some (JString (access_token (a_tokens a')))
    \<and> json_field d ''refreshToken'' = Some (JString (refresh_token (a_tokens a')))
    \<and> expiry 0 now (ttl_sec d) (expires_at (a_tokens a'))
    \<and> auth_headers a' = [(''Authorization'', ''Bearer '' @ access_token (a_tokens a'))]"
proof -
  obtain resp t where r: "auth_post rt net kLoginPath
        (JObject [(''clientcode'', JString (client_id (a_cfg a))),
          (''password'', JString (client_secret (a_cfg a))), (''totp'', JString otp)]) a = Inr resp"
    "status resp div 100 = 2"
    and h: "handle_login_response rt now (resp_body resp) (a_tokens a) = (Inr True, t)"
    and a': "a' = a\<lparr>a_tokens := t\<rparr>"
    using assms by (auto simp: login_impl_def split: sum.splits if_splits prod.splits)
  with login_handler_True[OF h] show ?thesis by (auto simp: auth_headers_def)
qed

definition answering :: "int json \<Rightarrow> int runtime" where
  "answering j = silent_runtime\<lparr>parse_json := (\<lambda>s. Some j)\<rparr>"

definition accepting :: transport where
  "accepting os host port req = Inr (200, ''{}'', [])"

lemma answering_parse [simp]: "parse_json (answering j) text = Some j"
  by (simp add: answering_def)

lemma accepting_post: "auth_post (answering j) accepting path payload a =
    (case parse_https_url (kBase @ path) [] of Inl e \<Rightarrow> Inl e
     | Inr x \<Rightarrow> Inr \<lparr>status = 200, resp_body = ''{}'', resp_headers = []\<rparr>)"
  by (simp add: auth_post_def answering_def silent_runtime_def post_json_def http_post_def
      perform_request_def accepting_def Let_def split: sum.split)

lemma login_address: "parse_https_url (kBase @ kLoginPath) [] =
    Inr (''apiconnect.angelone.in'', ''443'', kLoginPath)"
  by (simp add: parse_https_url_def starts_with_def build_query_string_def kBase_def kLoginPath_def Let_def)

lemma refresh_address: "parse_https_url (kBase @ kGenTok) [] =
    Inr (''apiconnect.angelone.in'', ''443'', kGenTok)"
  by (simp add: parse_https_url_def starts_with_def build_query_string_def kBase_def kGenTok_def Let_def)

lemma login_answer: "login_impl (answering j) accepting now otp a =
    (case handle_login_response (answering j) now ''{}'' (a_tokens a) of (r, t) \<Rightarrow> (r, a\<lparr>a_tokens := t\<rparr>))"
  by (simp add: login_impl_def accepting_post login_address)

definition good_login :: "int json" where
  "good_login = JObject [(''data'', JObject [(''jwtToken'', JString ''jwt''),
     (''refreshToken'', JString ''ref''), (''expiresIn'', JUInt 3600)])]"

lemma good_login_runs: "login_impl (answering good_login) accepting 5 ''123456'' a =
    (Inr True, a\<lparr>a_tokens := \<lparr>access_token = ''jwt'', refresh_token = ''ref'', feed_token = [],
       expires_at = 3600000000005\<rparr>\<rparr>)"
  by (cases "a_tokens a")
     (simp add: login_answer handle_login_response_def good_login_def data_object_def
      ttl_sec_def ticks_def Let_def)

definition sample_auth :: auth where
  "sample_auth = auth_new \<lparr>api_key = ''k'', client_id = ''c'', client_secret = ''s'', cfg_tokens = [],
      splits = Map.empty\<rparr> \<lparr>timeout_ms = 10000, tls_verify = True, tls_ca_file = [],
      user_agent = ''alpha-http/1.0'', default_headers = []\<rparr>"

theorem login_outcome_witness:
  "\<exists>a'. login_impl (answering good_login) accepting 5 ''123456'' sample_auth = (Inr True, a')
    \<and> auth_headers a' = [(''Authorization'', ''Bearer jwt'')]"
  using login_outcome[OF good_login_runs[of sample_auth]] good_login_runs[of sample_auth] by auto



text \<open>
  C34. Refreshing: after a refresh that returns true, the access token is the one of the answer;
  with a time to live the expiry is exactly that long after now, but without one the old expiry
  stays, so a session that had expired is still reported as expired, at every time and margin.
\<close>

theorem refresh_outcome:
  assumes "refresh rt net now a = (Inr True, a')" and "access_token (a_tokens a) \<noteq> []"
  shows "\<exists>resp j d. auth_post rt net kGenTok
        (JObject [(''refreshToken'', JString (refresh_token (a_tokens a)))]) a = Inr resp
    \<and> parse_json rt (resp_body resp) = Some j \<and> json_field j ''data'' = Some d
    \<and> json_field d ''jwtToken'' = Some (JString (access_token (a_tokens a')))
    \<and> (if 0 < sint (ttl_sec d)
       then sint (expires_at (a_tokens a')) = sint now + sint (ttl_sec d) * 10 ^ 9
       else is_expired later skew a' = is_expired later skew a)"
proof -
  obtain resp t where r: "auth_post rt net kGenTok
        (JObject [(''refreshToken'', JString (refresh_token (a_tokens a)))]) a = Inr resp"
    and h: "handle_refresh_response rt now (resp_body resp) (a_tokens a) = (Inr True, t)"
    and a': "a' = a\<lparr>a_tokens := t\<rparr>"
    using assms(1) by (auto simp: refresh_def split: sum.splits if_splits prod.splits)
  obtain j d where d: "parse_json rt (resp_body resp) = Some j" "json_field j ''data'' = Some d"
    "json_field d ''jwtToken'' = Some (JString (access_token t))" "access_token t \<noteq> []"
    "expiry (expires_at (a_tokens a)) now (ttl_sec d) (expires_at t)"
    using refresh_handler_True[OF h] by blast
  have "is_expired later skew a' = is_expired later skew a" if "expires_at t = expires_at (a_tokens a)"
    by (simp add: is_expired_def a' assms(2) d(4) that)
  then have "if 0 < sint (ttl_sec d)
       then sint (expires_at (a_tokens a')) = sint now + sint (ttl_sec d) * 10 ^ 9
       else is_expired later skew a' = is_expired later skew a"
    using d(5) by (simp add: expiry_def a' split: if_splits)
  then show ?thesis using r d(1-3) by (auto simp: a')
qed

definition stale_auth :: auth where
  "stale_auth = sample_auth\<lparr>a_tokens := \<lparr>access_token = ''old'', refresh_token = ''ref'',
     feed_token = [], expires_at = 1000\<rparr>\<rparr>"

theorem refresh_outcome_witness:
  "\<exists>a'. refresh (answering (JObject [(''data'', JObject [(''jwtToken'', JString ''jwt'')])])) accepting
      2000 stale_auth = (Inr True, a')
    \<and> access_token (a_tokens a') = ''jwt'' \<and> is_expired 2000 0 a' = Inr True"
proof -
  let ?j = "JObject [(''data'', JObject [(''jwtToken'', JString ''jwt'')])]"
  let ?a = "stale_auth\<lparr>a_tokens := \<lparr>access_token = ''jwt'', refresh_token = ''ref'',
     feed_token = [], expires_at = 1000\<rparr>\<rparr>"
  have r: "refresh (answering ?j) accepting 2000 stale_auth = (Inr True, ?a)"
    by (simp add: refresh_def accepting_post refresh_address handle_refresh_response_def
        data_object_def ttl_sec_def stale_auth_def Let_def)
  have e: "is_expired 2000 0 stale_auth = Inr True"
    by (simp add: is_expired_def stale_auth_def ticks_def)
  have "is_expired 2000 0 ?a = Inr True"
    using refresh_outcome[OF r, of 2000 0] e
    by (auto simp: stale_auth_def ttl_sec_def split: if_splits)
  with r show ?thesis by auto
qed

end
