(* ===== verification/Logger.thy ===== *)
theory Logger
  imports Text
begin

text \<open>
  \<open>Logger\<close> (\<open>include/logger.h\<close>, \<open>src/logger.cpp\<close>): messages below a level are dropped, the
  others written as one line each. The calendar part of the time stamp (\<open>std::put_time\<close> of the
  local time) is an argument, as is the time of each call.
\<close>

subsection \<open>Levels\<close>

datatype log_level = TRACE | DEBUG | INFO | WARN | ERROR

fun severity :: "log_level \<Rightarrow> nat" where
  "severity TRACE = 0"
| "severity DEBUG = 1"
| "severity INFO = 2"
| "severity WARN = 3"
| "severity ERROR = 4"

lemma severity_inj: "severity a = severity b \<Longrightarrow> a = b"
  by (cases a; cases b; simp)

text \<open>\<open>enum class LogLevel\<close> is ordered by its values.\<close>

instantiation log_level :: linorder
begin

definition less_eq_log_level :: "log_level \<Rightarrow> log_level \<Rightarrow> bool" where
  "less_eq_log_level a b \<longleftrightarrow> severity a \<le> severity b"

definition less_log_level :: "log_level \<Rightarrow> log_level \<Rightarrow> bool" where
  "less_log_level a b \<longleftrightarrow> severity a < severity b"

instance
  by standard (auto simp: less_eq_log_level_def less_log_level_def intro: severity_inj)

end

fun level_text :: "log_level \<Rightarrow> string" where
  "level_text TRACE = ''TRACE''"
| "level_text DEBUG = ''DEBUG''"
| "level_text INFO = ''INFO''"
| "level_text WARN = ''WARN''"
| "level_text ERROR = ''ERROR''"

subsection \<open>The logger\<close>

text \<open>\<open>written\<close> is what went to the stream; \<open>log_mutex\<close> is whether \<open>mutex_\<close> is not null.\<close>

record logger =
  log_name :: string
  log_level :: log_level
  written :: string
  log_mutex :: bool

definition logger_new :: "string \<Rightarrow> logger" where
  "logger_new n = \<lparr>log_name = n, log_level = INFO, written = [], log_mutex = True\<rparr>"

text \<open>Taking the lock through a null pointer is undefined.\<close>

definition set_level :: "log_level \<Rightarrow> logger \<Rightarrow> logger res" where
  "set_level l g = (if log_mutex g then Inr (g\<lparr>log_level := l\<rparr>) else Inl Undefined_behaviour)"

text \<open>
  Milliseconds of the time in nanoseconds, both conversions truncating towards zero, written
  with width 3 and fill character \<open>0\<close>.
\<close>

definition millis :: "i64 \<Rightarrow> int" where
  "millis now = (if 0 \<le> sint now then sint now div 10 ^ 6 mod 1000
     else - (- sint now div 10 ^ 6 mod 1000))"

definition millis_text :: "i64 \<Rightarrow> string" where
  "millis_text now =
     (let s = (if 0 \<le> millis now then show_nat (nat (millis now))
               else CHR ''-'' # show_nat (nat (- millis now)))
      in replicate (3 - length s) CHR ''0'' @ s)"

definition log_header :: "(i64 \<Rightarrow> string) \<Rightarrow> i64 \<Rightarrow> log_level \<Rightarrow> string \<Rightarrow> string" where
  "log_header stamp now l n =
     stamp now @ ''.'' @ millis_text now @ '' ['' @ level_text l @ ''] '' @ n @ '': ''"

definition emit :: "(i64 \<Rightarrow> string) \<Rightarrow> i64 \<Rightarrow> log_level \<Rightarrow> string \<Rightarrow> logger \<Rightarrow> logger res" where
  "emit stamp now l payload g =
     (if log_mutex g
      then Inr (g\<lparr>written := written g @ log_header stamp now l (log_name g) @ payload @ [CHR 0x0A]\<rparr>)
      else Inl Undefined_behaviour)"

definition log_msg :: "(i64 \<Rightarrow> string) \<Rightarrow> i64 \<Rightarrow> log_level \<Rightarrow> string \<Rightarrow> logger \<Rightarrow> logger res" where
  "log_msg stamp now l msg g = (if severity l < severity (log_level g) then Inr g
     else emit stamp now l msg g)"

definition log_trace :: "(i64 \<Rightarrow> string) \<Rightarrow> i64 \<Rightarrow> string \<Rightarrow> logger \<Rightarrow> logger res" where
  "log_trace stamp now msg g = log_msg stamp now TRACE msg g"

definition log_debug :: "(i64 \<Rightarrow> string) \<Rightarrow> i64 \<Rightarrow> string \<Rightarrow> logger \<Rightarrow> logger res" where
  "log_debug stamp now msg g = log_msg stamp now DEBUG msg g"

definition log_info :: "(i64 \<Rightarrow> string) \<Rightarrow> i64 \<Rightarrow> string \<Rightarrow> logger \<Rightarrow> logger res" where
  "log_info stamp now msg g = log_msg stamp now INFO msg g"

definition log_warn :: "(i64 \<Rightarrow> string) \<Rightarrow> i64 \<Rightarrow> string \<Rightarrow> logger \<Rightarrow> logger res" where
  "log_warn stamp now msg g = log_msg stamp now WARN msg g"

definition log_error :: "(i64 \<Rightarrow> string) \<Rightarrow> i64 \<Rightarrow> string \<Rightarrow> logger \<Rightarrow> logger res" where
  "log_error stamp now msg g = log_msg stamp now ERROR msg g"

text \<open>\<open>info_fmt\<close> ignores its format and concatenates the arguments as the stream writes them.\<close>

definition info_fmt :: "(i64 \<Rightarrow> string) \<Rightarrow> i64 \<Rightarrow> string \<Rightarrow> string list \<Rightarrow> logger \<Rightarrow> logger res" where
  "info_fmt stamp now fmt args g = log_info stamp now (concat args) g"

text \<open>
  The move assignment locks both mutexes, and then assigns the other's to its own, which
  destroys a mutex while it is locked.
\<close>

definition destroy_mutex :: "bool \<Rightarrow> unit res" where
  "destroy_mutex locked = (if locked then Inl Undefined_behaviour else Inr ())"

definition logger_assign :: "bool \<Rightarrow> string \<Rightarrow> logger \<Rightarrow> logger \<Rightarrow> (logger \<times> logger) res" where
  "logger_assign same junk g other =
     (if same then Inr (g, other)
      else if \<not> log_mutex g \<or> \<not> log_mutex other then Inl Undefined_behaviour
      else bindE (destroy_mutex True) (\<lambda>_.
        Inr (\<lparr>log_name = log_name other, log_level = log_level other, written = written other,
              log_mutex = True\<rparr>,
             other\<lparr>log_name := junk, log_mutex := False\<rparr>)))"

text \<open>The move constructor: the new logger, and the one moved from with an arbitrary name.\<close>

definition logger_move :: "string \<Rightarrow> logger \<Rightarrow> logger \<times> logger" where
  "logger_move junk other =
     (\<lparr>log_name = log_name other, log_level = log_level other, written = written other,
       log_mutex = log_mutex other\<rparr>,
      other\<lparr>log_name := junk, log_mutex := False\<rparr>)"

datatype log_call = Set_level log_level | Log i64 log_level string

fun log_calls :: "(i64 \<Rightarrow> string) \<Rightarrow> log_call list \<Rightarrow> logger \<Rightarrow> logger res" where
  "log_calls stamp [] g = Inr g"
| "log_calls stamp (Set_level l # cs) g = bindE (set_level l g) (log_calls stamp cs)"
| "log_calls stamp (Log now l msg # cs) g = bindE (log_msg stamp now l msg g) (log_calls stamp cs)"

subsection \<open>Specification\<close>

text \<open>The calls that are written: those at least as severe as the level last set.\<close>

fun passing :: "log_level \<Rightarrow> log_call list \<Rightarrow> (i64 \<times> log_level \<times> string) list" where
  "passing lv [] = []"
| "passing lv (Set_level l # cs) = passing l cs"
| "passing lv (Log now l msg # cs) = (if lv \<le> l then [(now, l, msg)] else []) @ passing lv cs"

definition log_line :: "(i64 \<Rightarrow> string) \<Rightarrow> string \<Rightarrow> i64 \<times> log_level \<times> string \<Rightarrow> string" where
  "log_line stamp n = (\<lambda>(now, l, msg). log_header stamp now l n @ msg @ [CHR 0x0A])"

lemma log_calls_from:
  "log_mutex g \<Longrightarrow> \<exists>g'. log_calls stamp cs g = Inr g'
    \<and> written g' = written g @ concat (map (log_line stamp (log_name g)) (passing (log_level g) cs))"
proof (induction stamp cs g rule: log_calls.induct)
  case (2 stamp l cs g)
  then show ?case using 2(1)[of "g\<lparr>log_level := l\<rparr>"] by (simp add: set_level_def)
next
  case (3 stamp now l msg cs g)
  show ?case
  proof (cases "severity l < severity (log_level g)")
    case True
    then show ?thesis using 3 by (simp add: log_msg_def less_eq_log_level_def)
  next
    case False
    let ?g = "g\<lparr>written := written g @ log_header stamp now l (log_name g) @ msg @ [CHR 0x0A]\<rparr>"
    have "log_msg stamp now l msg g = Inr ?g" using False 3(2) by (simp add: log_msg_def emit_def)
    then show ?thesis
      using False 3(1)[of ?g] 3(2) by (auto simp: less_eq_log_level_def log_line_def)
  qed
qed simp

lemma logger_assign_undefined: "logger_assign False junk g other = Inl Undefined_behaviour"
  by (simp add: logger_assign_def destroy_mutex_def)

subsection \<open>Properties\<close>

text \<open>
  C39. After any sequence of calls on a new logger the stream holds exactly one line for each
  message at least as severe as the level set last before it (\<open>INFO\<close> at first), in order.
\<close>

theorem logger_writes_passing:
  "\<exists>g. log_calls stamp cs (logger_new n) = Inr g
    \<and> written g = concat (map (log_line stamp n) (passing INFO cs))"
  using log_calls_from[of "logger_new n" stamp cs] by (simp add: logger_new_def)

end
