(* ===== verification/Subscription_Build.thy ===== *)
theory Subscription_Build
  imports Subscription_Manager Transition
begin

text \<open>
  \<open>build_subscribe_batches\<close> and \<open>build_unsubscribe_batches\<close> of \<open>SubscriptionManager\<close> while other
  threads call the same manager. Only the computation of the difference holds the mutex; the
  batch size, the mode (once for a payload) and the formatter (once for a token) are read after
  it is released. In C++ such a read beside a setter is a data race; here each read is one step,
  which is the best the code can get.
\<close>

subsection \<open>A build cut at its reads\<close>

datatype build_pc =
    Diff                                   \<comment> \<open>about to take the lock\<close>
  | Cut "string list"                      \<comment> \<open>about to read the batch size\<close>
  | Payloads "string list list" "string list"
      \<comment> \<open>batches left, payloads built\<close>
  | Format sub_mode "string list" "string list" "string list list" "string list"
      \<comment> \<open>mode read; tokens left and formatted of this batch\<close>
  | Built "string list"
  | Failed cpp_error

text \<open>\<open>snap\<close> records the manager at the locked section.\<close>

record building =
  mgr :: sub_manager
  bpc :: build_pc
  snap :: sub_manager

fun build_step ::
  "'d runtime \<Rightarrow> set_order \<Rightarrow> bool \<Rightarrow> building \<Rightarrow> building option" where
  "build_step rt order subscribe s =
     (let m = mgr s in
      case bpc s of
        Diff \<Rightarrow> Some (s\<lparr>bpc := Cut (if subscribe then diff_desired_minus_active order m
                                    else diff_active_minus_desired order m), snap := m\<rparr>)
      | Cut need \<Rightarrow> Some (s\<lparr>bpc := (case make_batches (batch_size m) need of
                                         Inl e \<Rightarrow> Failed e
                                       | Inr bs \<Rightarrow> Payloads bs [])\<rparr>)
      | Payloads [] out \<Rightarrow> Some (s\<lparr>bpc := Built out\<rparr>)
      | Payloads (b # bs) out \<Rightarrow> Some (s\<lparr>bpc := Format (mode m) b [] bs out\<rparr>)
      | Format md (t # ts) fs bs out \<Rightarrow>
          Some (s\<lparr>bpc := Format md ts (fs @ [fmt_token m t]) bs out\<rparr>)
      | Format md [] fs bs out \<Rightarrow>
          Some (s\<lparr>bpc := (case dump_json rt (JObject
              [(''action'', JString (if subscribe then ''subscribe'' else ''unsubscribe'')),
               (''mode'', JString (mode_string md)),
               (''tokens'', JArray (map JString fs))]) of
                 Inl e \<Rightarrow> Failed e
               | Inr p \<Rightarrow> Payloads bs (out @ [p]))\<rparr>)
      | Built out \<Rightarrow> None
      | Failed e \<Rightarrow> None)"

declare build_step.simps [simp del]

text \<open>
  The other threads: any call that holds the mutex, restricted to the calls of \<open>P\<close>.
\<close>

inductive building_step ::
  "'d runtime \<Rightarrow> set_order \<Rightarrow> bool \<Rightarrow> (sm_call \<Rightarrow> bool) \<Rightarrow> building \<Rightarrow> building \<Rightarrow> bool"
  for rt order subscribe P where
  build_own: "build_step rt order subscribe s = Some t \<Longrightarrow> building_step rt order subscribe P s t"
| build_other: "P c \<Longrightarrow> building_step rt order subscribe P s (s\<lparr>mgr := sm_apply c (mgr s)\<rparr>)"

definition building_init :: "sub_manager \<Rightarrow> building \<Rightarrow> bool" where
  "building_init m s \<longleftrightarrow> mgr s = m \<and> bpc s = Diff \<and> snap s = m"

text \<open>The calls that change only the two sets.\<close>

fun changes_sets :: "sm_call \<Rightarrow> bool" where
  "changes_sets (Set_mode md) = False"
| "changes_sets (Set_batch_size n) = False"
| "changes_sets (Set_formatter f) = False"
| "changes_sets _ = True"

lemma changes_sets_keeps:
  "changes_sets c \<Longrightarrow> mode (sm_apply c m) = mode m \<and> batch_size (sm_apply c m) = batch_size m
    \<and> token_formatter (sm_apply c m) = token_formatter m"
  by (cases c) (simp_all add: sm_ops)

subsection \<open>What a build returns\<close>

text \<open>
  The result of the build as one call on the snapshot, and the invariant: what was built and
  what is left to build are that result, for the settings of the snapshot.
\<close>

definition need_of :: "set_order \<Rightarrow> bool \<Rightarrow> sub_manager \<Rightarrow> string list" where
  "need_of order subscribe m = (if subscribe then diff_desired_minus_active order m
     else diff_active_minus_desired order m)"

definition built_at :: "'d runtime \<Rightarrow> set_order \<Rightarrow> bool \<Rightarrow> sub_manager \<Rightarrow> string list res" where
  "built_at rt order subscribe m = (if subscribe then build_subscribe_batches rt order m
     else build_unsubscribe_batches rt order m)"

lemma built_at_eq: "built_at rt order subscribe m =
  bindE (make_batches (batch_size m) (need_of order subscribe m))
    (mapE (\<lambda>b. build_payload rt m b subscribe))"
  by (simp add: built_at_def need_of_def build_subscribe_batches_def build_unsubscribe_batches_def)

definition rest_of :: "'d runtime \<Rightarrow> bool \<Rightarrow> sub_manager \<Rightarrow> string list list \<Rightarrow> string list \<Rightarrow> string list res" where
  "rest_of rt subscribe m bs out =
     bindE (mapE (\<lambda>b. build_payload rt m b subscribe) bs) (\<lambda>ps. Inr (out @ ps))"

lemma rest_of_simps:
  "rest_of rt sub m [] out = Inr out"
  "rest_of rt sub m (b # bs) out = bindE (build_payload rt m b sub) (\<lambda>p. rest_of rt sub m bs (out @ [p]))"
  "rest_of rt sub m bs [] = mapE (\<lambda>b. build_payload rt m b sub) bs"
  by (simp_all add: rest_of_def bindE_def split: sum.splits)

fun build_ok :: "'d runtime \<Rightarrow> set_order \<Rightarrow> bool \<Rightarrow> sub_manager \<Rightarrow> build_pc \<Rightarrow> bool" where
  "build_ok rt order sub m Diff \<longleftrightarrow> True"
| "build_ok rt order sub m (Cut need) \<longleftrightarrow> need = need_of order sub m"
| "build_ok rt order sub m (Payloads bs out) \<longleftrightarrow> built_at rt order sub m = rest_of rt sub m bs out"
| "build_ok rt order sub m (Format md ts fs bs out) \<longleftrightarrow>
     md = mode m \<and> (\<exists>b. fs @ map (fmt_token m) ts = map (fmt_token m) b
       \<and> built_at rt order sub m = rest_of rt sub m (b # bs) out)"
| "build_ok rt order sub m (Built out) \<longleftrightarrow> built_at rt order sub m = Inr out"
| "build_ok rt order sub m (Failed e) \<longleftrightarrow> built_at rt order sub m = Inl e"

definition same_settings :: "sub_manager \<Rightarrow> sub_manager \<Rightarrow> bool" where
  "same_settings m n \<longleftrightarrow> mode m = mode n \<and> batch_size m = batch_size n
     \<and> token_formatter m = token_formatter n"

lemma same_settings_fmt: "same_settings m n \<Longrightarrow> fmt_token m = fmt_token n"
  by (auto simp: same_settings_def fmt_token_def)

definition building_inv :: "'d runtime \<Rightarrow> set_order \<Rightarrow> bool \<Rightarrow> sub_manager \<Rightarrow> building \<Rightarrow> bool" where
  "building_inv rt order sub m0 s \<longleftrightarrow> same_settings (mgr s) m0 \<and> same_settings (snap s) m0
     \<and> build_ok rt order sub (snap s) (bpc s)"

lemma build_step_keeps:
  assumes "build_step rt order sub s = Some t" and inv: "building_inv rt order sub m0 s"
  shows "building_inv rt order sub m0 t"
proof -
  have set: "same_settings (mgr s) m0" "same_settings (snap s) m0"
    and ok: "build_ok rt order sub (snap s) (bpc s)" using inv by (simp_all add: building_inv_def)
  have same: "mode (mgr s) = mode (snap s)" "batch_size (mgr s) = batch_size (snap s)"
    "fmt_token (mgr s) = fmt_token (snap s)"
    using set same_settings_fmt[of "mgr s" m0] same_settings_fmt[of "snap s" m0]
    by (simp_all add: same_settings_def)
  show ?thesis
  proof (cases "bpc s")
    case Diff
    with assms(1) set show ?thesis
      by (auto simp: build_step.simps building_inv_def need_of_def Let_def)
  next
    case (Cut need)
    with assms(1) set ok same show ?thesis
      by (auto simp: build_step.simps building_inv_def built_at_eq rest_of_simps Let_def split: sum.splits)
  next
    case (Payloads bs out)
    with assms(1) set ok same show ?thesis
      by (cases bs) (auto simp: build_step.simps building_inv_def rest_of_simps Let_def)
  next
    case (Format md ts fs bs out)
    then obtain b where b: "md = mode (snap s)" "fs @ map (fmt_token (snap s)) ts = map (fmt_token (snap s)) b"
      "built_at rt order sub (snap s) = rest_of rt sub (snap s) (b # bs) out" using ok by auto
    show ?thesis
    proof (cases ts)
      case (Cons u us)
      with Format assms(1) set b same show ?thesis
        by (auto simp: build_step.simps building_inv_def Let_def)
    next
      case Nil
      with Format b assms(1) set show ?thesis
        by (auto simp: build_step.simps building_inv_def rest_of_simps build_payload_def payload_json_def
            Let_def comp_def split: sum.splits)
    qed
  qed (use assms(1) in \<open>simp_all add: build_step.simps\<close>)
qed

text \<open>The snapshot is a state the manager was in between the start of the build and now.\<close>

definition between :: "sub_manager \<Rightarrow> building \<Rightarrow> bool" where
  "between m0 s \<longleftrightarrow> (\<exists>cs ds. list_all changes_sets (cs @ ds) \<and> snap s = fold sm_apply cs m0
     \<and> mgr s = fold sm_apply ds (snap s))"

lemma build_step_frame:
  "build_step rt order sub s = Some t \<Longrightarrow> mgr t = mgr s \<and> (snap t = snap s \<or> snap t = mgr s)"
  by (auto simp: build_step.simps Let_def split: build_pc.splits list.splits)

lemma between_step:
  assumes "building_step rt order sub changes_sets s t" and "between m0 s"
  shows "between m0 t"
proof -
  obtain cs ds where cd: "list_all changes_sets (cs @ ds)" "snap s = fold sm_apply cs m0"
    "mgr s = fold sm_apply ds (snap s)" using assms(2) by (auto simp: between_def)
  from assms(1) show ?thesis
  proof (cases rule: building_step.cases)
    case build_own
    from build_step_frame[OF build_own] consider "mgr t = mgr s" "snap t = snap s"
      | "mgr t = mgr s" "snap t = mgr s" by blast
    then show ?thesis
    proof cases
      case 1
      with cd show ?thesis unfolding between_def by metis
    next
      case 2
      with cd show ?thesis unfolding between_def
        by (intro exI[of _ "cs @ ds"] exI[of _ "[]"]) simp
    qed
  next
    case (build_other c)
    with cd show ?thesis unfolding between_def
      by (intro exI[of _ cs] exI[of _ "ds @ [c]"]) simp
  qed
qed

interpretation building: inductive_invariant "building_init m"
    "building_step rt order sub changes_sets" "\<lambda>s. building_inv rt order sub m s \<and> between m s"
  for m rt order sub
proof
  fix s assume "building_init m s"
  then show "building_inv rt order sub m s \<and> between m s"
    unfolding between_def
    by (auto simp: building_init_def building_inv_def same_settings_def intro!: exI[of _ "[]"])
next
  fix s t assume st: "building_step rt order sub changes_sets s t"
    and inv: "building_inv rt order sub m s \<and> between m s"
  from st have "building_inv rt order sub m t"
  proof (cases rule: building_step.cases)
    case build_own
    with inv show ?thesis by (blast intro: build_step_keeps)
  next
    case (build_other c)
    with inv changes_sets_keeps[of c "mgr s"] show ?thesis
      by (simp add: building_inv_def same_settings_def)
  qed
  with between_step[OF st] inv show "building_inv rt order sub m t \<and> between m t" by blast
qed

subsection \<open>Properties\<close>

text \<open>
  C16. A build is atomic with respect to the sets: while other threads only add, remove, clear
  and acknowledge tokens, a build that ends returns exactly what one undisturbed call would
  have returned at the moment it held the lock, or throws what that call would have thrown.
\<close>

theorem build_linearizes:
  assumes "reachable (building_init m) (building_step rt order subscribe changes_sets) s"
  shows "(\<exists>cs ds. snap s = fold sm_apply cs m \<and> mgr s = fold sm_apply ds (snap s))
    \<and> (\<forall>out. bpc s = Built out \<longrightarrow> (if subscribe then build_subscribe_batches rt order (snap s)
         else build_unsubscribe_batches rt order (snap s)) = Inr out)
    \<and> (\<forall>e. bpc s = Failed e \<longrightarrow> (if subscribe then build_subscribe_batches rt order (snap s)
         else build_unsubscribe_batches rt order (snap s)) = Inl e)"
  using building.always[OF assms]
  by (auto simp: between_def building_inv_def simp flip: built_at_def)

fun build_exec :: "'d runtime \<Rightarrow> set_order \<Rightarrow> bool \<Rightarrow> sm_call option list \<Rightarrow> building \<Rightarrow> building option" where
  "build_exec rt order sub [] s = Some s"
| "build_exec rt order sub (None # cs) s =
     (case build_step rt order sub s of None \<Rightarrow> None | Some t \<Rightarrow> build_exec rt order sub cs t)"
| "build_exec rt order sub (Some c # cs) s =
     build_exec rt order sub cs (s\<lparr>mgr := sm_apply c (mgr s)\<rparr>)"

lemma build_exec_runs:
  "build_exec rt order sub cs s = Some t \<Longrightarrow> (\<And>c. Some c \<in> set cs \<Longrightarrow> P c) \<Longrightarrow>
    runs_to (building_step rt order sub P) s t"
proof (induction rt order sub cs s rule: build_exec.induct)
  case (1 rt order sub s)
  then show ?case by (simp add: runs_refl)
next
  case (2 rt order sub cs s)
  then obtain u where u: "build_step rt order sub s = Some u" "build_exec rt order sub cs u = Some t"
    by (auto split: option.splits)
  from "2.IH"[OF u] "2.prems"(2) have "runs_to (building_step rt order sub P) u t" by simp
  with build_own[OF u(1)] show ?case by (rule runs_step)
next
  case (3 rt order sub c cs s)
  then have "runs_to (building_step rt order sub P) (s\<lparr>mgr := sm_apply c (mgr s)\<rparr>) t" by simp
  with build_other[of P c] "3.prems"(2) show ?case by (metis list.set_intros(1) runs_step)
qed

definition sample_manager :: "string list \<Rightarrow> sub_manager" where
  "sample_manager ts = add_many ts (sm_new LTP 1 None)"

definition building_start :: "sub_manager \<Rightarrow> building" where
  "building_start m = \<lparr>mgr = m, bpc = Diff, snap = m\<rparr>"

lemma building_start_init: "building_init m (building_start m)"
  by (simp add: building_init_def building_start_def)

lemma build_exec_reachable:
  assumes "build_exec rt order sub cs (building_start m) = Some s" and "\<And>c. Some c \<in> set cs \<Longrightarrow> P c"
  shows "reachable (building_init m) (building_step rt order sub P) s"
proof -
  have "reachable (building_init m) (building_step rt order sub P) (building_start m)"
    by (rule reach_init) (rule building_start_init)
  with build_exec_runs[OF assms] show ?thesis by (rule reachable_runs_to)
qed

lemmas build_eval = building_start_def sample_manager_def sm_ops sm_new_def Let_def build_step.simps
  diff_desired_minus_active_def make_batches_def slice_loop.simps fmt_token_def

theorem build_linearizes_witness:
  "\<exists>s. reachable (building_init (sample_manager [''A'']))
        (building_step silent_runtime sorted_list_of_set True changes_sets) s
    \<and> bpc s = Built [[]] \<and> ''B'' \<in> desired (mgr s)
    \<and> build_subscribe_batches silent_runtime sorted_list_of_set (snap s) = Inr [[]]"
proof -
  let ?rt = silent_runtime
  have "\<exists>s. build_exec ?rt sorted_list_of_set True [None, Some (Add ''B''), None, None, None, None, None]
      (building_start (sample_manager [''A''])) = Some s \<and> bpc s = Built [[]] \<and> ''B'' \<in> desired (mgr s)"
    by (simp add: build_eval silent_runtime_def)
  then obtain s where e: "build_exec ?rt sorted_list_of_set True [None, Some (Add ''B''), None, None, None, None, None]
      (building_start (sample_manager [''A''])) = Some s" and s: "bpc s = Built [[]]" "''B'' \<in> desired (mgr s)"
    by blast
  have r: "reachable (building_init (sample_manager [''A'']))
      (building_step ?rt sorted_list_of_set True changes_sets) s"
    by (rule build_exec_reachable[OF e]) auto
  from build_linearizes[OF r] r s show ?thesis by auto
qed

text \<open>
  A build is not atomic with respect to the settings: when the mode is changed while a
  build runs, its payloads can carry different modes, which no single call returns, whatever
  the state of the manager.
\<close>

definition mode_runtime :: "int runtime" where
  "mode_runtime = silent_runtime\<lparr>dump_json := (\<lambda>v. Inr (case json_field v ''mode'' of
     Some (JString s) \<Rightarrow> s | _ \<Rightarrow> []))\<rparr>"

lemma build_mixes_modes:
  "\<exists>s out. reachable (building_init (sample_manager [''A'', ''B'']))
        (building_step mode_runtime sorted_list_of_set True (\<lambda>c. True)) s
    \<and> bpc s = Built out \<and> (\<forall>m order. build_subscribe_batches mode_runtime order m \<noteq> Inr out)"
proof -
  let ?rt = mode_runtime
  let ?cs = "[None, None, None, None, None, Some (Set_mode FULL), None, None, None, None]"
  have "\<exists>s. build_exec ?rt sorted_list_of_set True ?cs (building_start (sample_manager [''A'', ''B''])) = Some s
      \<and> bpc s = Built [''ltp'', ''full'']"
    by (simp add: build_eval mode_runtime_def silent_runtime_def)
  then obtain s where e: "build_exec ?rt sorted_list_of_set True ?cs
      (building_start (sample_manager [''A'', ''B''])) = Some s" and s: "bpc s = Built [''ltp'', ''full'']"
    by blast
  have r: "reachable (building_init (sample_manager [''A'', ''B'']))
      (building_step ?rt sorted_list_of_set True (\<lambda>c. True)) s"
    by (rule build_exec_reachable[OF e]) simp
  have one: "set ps \<subseteq> {mode_string (mode m)}"
    if "mapE (\<lambda>b. build_payload ?rt m b True) bs = Inr ps" for m bs ps
    using that by (induction bs arbitrary: ps)
      (auto simp: bindE_Inr_iff build_payload_def payload_json_def mode_runtime_def)
  have "mapE (\<lambda>b. build_payload ?rt m b True) bs \<noteq> Inr [''ltp'', ''full'']" for m bs
  proof
    assume "mapE (\<lambda>b. build_payload ?rt m b True) bs = Inr [''ltp'', ''full'']"
    from one[OF this] have "mode_string (mode m) = ''ltp''" "mode_string (mode m) = ''full''" by auto
    then show False by simp
  qed
  then have "build_subscribe_batches ?rt order m \<noteq> Inr [''ltp'', ''full'']" for order m
    by (auto simp: build_subscribe_batches_def bindE_Inr_iff)
  with r s show ?thesis by blast
qed

end
