(* ===== verification/End_To_End.thy ===== *)
theory End_To_End
  imports Market_Feed
begin

text \<open>
  From the network to the store: what the store of a running system answers for a token, in
  terms of the frames the connections have delivered. It puts together the partition of the
  tokens by \<open>Sharder::start()\<close>, the queues, the consumers, the parser and the store.
\<close>

subsection \<open>Lanes without losses\<close>

text \<open>
  As long as a client has not delivered more frames than its queue holds, every frame it
  delivered is written, in its consumer's hands or queued.
\<close>

definition lane_whole :: "string list \<Rightarrow> worker \<Rightarrow> bool" where
  "lane_whole fs w \<longleftrightarrow> length (delivered (w_ws w)) \<le> 8192 \<longrightarrow> fs @ held w = delivered (w_ws w)"

lemma map_update_same: "h w = h (xs ! i) \<Longrightarrow> map h (xs[i := w]) = map h xs"
  by (cases "i < length xs") (simp_all add: map_update list_update_beyond list_update_same_conv)

lemma deliver_room:
  assumes "queue_inv (w_q w)" and "length (queue_list (w_q w)) < length (qbuf (w_q w))"
  shows "held (deliver m w) = held w @ [m]"
proof -
  obtain b q where p: "try_push m (w_q w) = (b, q)" by (cases "try_push m (w_q w)")
  from ring.push_cases(3,4)[OF assms(1) p] assms(2) show ?thesis by (simp add: held_def deliver_def p)
qed

lemma lane_whole_step:
  assumes "lane_whole fs w" and ok: "lane_ok fs w" and "worker_step a w = Some v"
  shows "lane_whole (fs @ (case a of Write \<Rightarrow> [the (w_hand w)] | _ \<Rightarrow> [])) v"
proof (cases a)
  case (Net env)
  then obtain c where c: "io_step env (w_ws w) = Some c"
    and v: "v = fold deliver (drop (length (delivered (w_ws w))) (delivered c)) (w\<lparr>w_ws := c\<rparr>)"
    using assms(3) by (auto split: option.splits)
  obtain ms where ms: "delivered c = delivered (w_ws w) @ ms" "length ms \<le> 1"
    using io_step_delivered[OF c] ok by (auto simp: lane_ok_def)
  have u: "held (w\<lparr>w_ws := c\<rparr>) = held w" "w_q (w\<lparr>w_ws := c\<rparr>) = w_q w" by (simp_all add: held_def)
  show ?thesis
  proof (cases ms)
    case Nil
    with assms(1) ms u(1) show ?thesis by (simp add: Net v lane_whole_def)
  next
    case (Cons m ms')
    then have m: "ms = [m]" using ms(2) by simp
    have "fs @ held v = delivered c" if "length (delivered c) \<le> 8192"
    proof -
      have whole: "fs @ held w = delivered (w_ws w)" and "length (fs @ held w) < 8192"
        using assms(1) that by (auto simp: lane_whole_def ms(1) m)
      moreover have "length (queue_list (w_q w)) \<le> length (fs @ held w)" by (simp add: held_def)
      ultimately have "length (queue_list (w_q w)) < length (qbuf (w_q w))"
        using ok by (simp only: lane_ok_def)
      with deliver_room[of "w\<lparr>w_ws := c\<rparr>" m] ok have "held v = held w @ [m]"
        unfolding v ms(1) m by (simp add: u lane_ok_def)
      with whole show ?thesis by (simp add: ms(1) m)
    qed
    moreover have "w_ws v = c" by (simp add: v)
    ultimately show ?thesis by (simp add: Net lane_whole_def)
  qed
next
  case (Pop j)
  obtain r q where p: "try_pop j (w_q w) = (r, q)" by (cases "try_pop j (w_q w)")
  have v: "v = w\<lparr>w_q := q, w_hand := r\<rparr>" and n: "w_hand w = None"
    using assms(3) by (auto simp: Pop p split: if_splits)
  have "queue_inv (w_q w)" using ok by (simp add: lane_ok_def)
  from ring.pop_cases(4)[OF this p] have "held v = held w" by (simp add: held_def v n)
  with assms(1) show ?thesis by (simp add: lane_whole_def Pop v)
next
  case Write
  then show ?thesis using assms(1,3) by (auto simp: lane_whole_def held_def split: if_splits option.splits)
qed

text \<open>
  The invariant of a run: the lanes are whole, the log names workers, and the shards stay.
\<close>

definition whole_inv :: "string list list \<Rightarrow> 'd feed \<Rightarrow> bool" where
  "whole_inv toks f \<longleftrightarrow> map w_tokens (f_workers f) = toks
     \<and> fst ` set (f_log f) \<subseteq> {..<length (f_workers f)}
     \<and> (\<forall>i < length (f_workers f). lane_whole (frames_of i (f_log f)) (f_workers f ! i))"

lemma whole_inv_kept:
  assumes "feed_step rt ps f g" and inv: "feed_inv rt ps st f" "whole_inv toks f"
  shows "whole_inv toks g"
proof -
  have lane: "lane_ok (frames_of i (f_log f)) (f_workers f ! i)"
    "lane_whole (frames_of i (f_log f)) (f_workers f ! i)" if "i < length (f_workers f)" for i
    using inv that by (simp_all add: feed_inv_def whole_inv_def)
  have toks: "map w_tokens ((f_workers f)[i := w]) = toks"
    if "worker_step a (f_workers f ! i) = Some w" "i < length (f_workers f)" for a i w
    using worker_step_frame[OF that(1)] inv(2) that(2)
    by (simp add: whole_inv_def map_update_same)
  note step = lane_whole_step[OF lane(2,1)]
  show ?thesis
    using assms(1)
  proof (cases rule: feed_step.cases)
    case (feed_net i env w)
    with step[OF feed_net(2) feed_net(2) feed_net(3)] toks[OF feed_net(3,2)] inv(2) show ?thesis
      by (auto simp: whole_inv_def nth_list_update)
  next
    case (feed_pop i junk w)
    with step[OF feed_pop(2) feed_pop(2) feed_pop(3)] toks[OF feed_pop(3,2)] inv(2) show ?thesis
      by (auto simp: whole_inv_def nth_list_update)
  next
    case (feed_write i w m r)
    with step[OF feed_write(2) feed_write(2) feed_write(3)] toks[OF feed_write(3,2)] inv(2) show ?thesis
      by (auto simp: whole_inv_def nth_list_update)
  qed
qed

lemma whole_inv_start:
  assumes "feed_live f" and "\<forall>w \<in> set (f_workers f). lane_ok [] w \<and> delivered (w_ws w) = []"
    and "f_log f = []"
  shows "whole_inv (map w_tokens (f_workers f)) f"
proof -
  have "held w = []" if "w \<in> set (f_workers f)" for w
    using assms(2) that by (auto simp: lane_ok_def)
  then show ?thesis using assms(2,3) by (simp add: whole_inv_def lane_whole_def)
qed

lemma whole_inv_run:
  "runs_to (feed_step rt ps) f g \<Longrightarrow> feed_inv rt ps st f \<Longrightarrow> whole_inv toks f \<Longrightarrow>
    feed_inv rt ps st g \<and> whole_inv toks g"
  by (induction rule: runs_to.induct) (use feed_inv_kept whole_inv_kept in blast)+

subsection \<open>The last record of a token\<close>

lemma find_rev_last: "find P (rev xs) = (if filter P xs = [] then None else Some (last (filter P xs)))"
  by (induction xs rule: rev_induct) auto

text \<open>When the records of a token come in the frames of one lane, only that lane matters.\<close>

lemma filter_lane:
  assumes "\<forall>(j, m) \<in> set l. j \<noteq> i \<longrightarrow> filter P (valid parse [m]) = []"
  shows "filter P (valid parse (map snd l)) = filter P (valid parse (frames_of i l))"
  using assms
proof (induction l)
  case (Cons x l)
  obtain j m where x: "x = (j, m)" by (cases x)
  have split: "valid parse (m # ms) = valid parse [m] @ valid parse ms" for ms by (simp add: valid_def)
  have "filter P (valid parse (map snd l)) = filter P (valid parse (frames_of i l))"
    using Cons.IH Cons.prems by simp
  with Cons.prems split[of "map snd l"] split[of "frames_of i l"] show ?case
    by (auto simp: x simp del: valid_simps)
qed simp

lemma valid_single: "v \<in> set (valid parse [m]) \<longleftrightarrow> parse m = Inr (Some v)"
  by (auto simp: valid_def split: sum.splits option.splits)

lemma distinct_concat_nth:
  "distinct (concat xss) \<Longrightarrow> i < length xss \<Longrightarrow> j < length xss \<Longrightarrow> i \<noteq> j \<Longrightarrow>
    x \<in> set (xss ! i) \<Longrightarrow> x \<notin> set (xss ! j)"
proof (induction xss arbitrary: i j)
  case (Cons xs xss)
  have in_rest: "set (xss ! k) \<subseteq> set (concat xss)" if "k < length xss" for k
    using that by (metis UN_iff nth_mem set_concat subsetI)
  have apart: "set xs \<inter> set (concat xss) = {}" using Cons.prems(1) by simp
  show ?case
  proof (cases i)
    case 0
    with Cons.prems obtain k where "j = Suc k" "k < length xss" by (cases j) auto
    with 0 Cons.prems(5) in_rest[of k] apart show ?thesis by auto
  next
    case i: (Suc l)
    show ?thesis
    proof (cases j)
      case 0
      with i Cons.prems(2,5) in_rest[of l] apart show ?thesis by auto
    next
      case (Suc k)
      with i Cons.prems show ?thesis using Cons.IH[of l k] by simp
    qed
  qed
qed simp

text \<open>
  The frames of each connection quote only tokens of the worker's shard, and no token is in two
  shards.
\<close>

definition quotes_own_shard :: "'d runtime \<Rightarrow> parser \<Rightarrow> worker \<Rightarrow> bool" where
  "quotes_own_shard rt ps w \<longleftrightarrow> (\<forall>m \<in> set (delivered (w_ws w)). \<forall>v.
     parse_ltp rt ps m = Inr (Some v) \<longrightarrow> token v \<in> set (w_tokens w))"

lemma store_of_lane:
  assumes inv: "feed_inv rt ps st g" and whole: "whole_inv toks g" and "distinct (concat toks)"
    and own: "\<forall>w \<in> set (f_workers g). quotes_own_shard rt ps w"
    and all: "\<forall>i < length (f_workers g). frames_of i (f_log g) = delivered (w_ws (f_workers g ! i))"
    and i: "i < length (f_workers g)" and tok: "t \<in> set (w_tokens (f_workers g ! i))"
  shows "store_get (f_store g) t =
    (let vs = filter (\<lambda>v. token v = t) (valid (parse_ltp rt ps) (delivered (w_ws (f_workers g ! i)))) in
     if vs = [] then store_get st t else Some (last vs))"
proof -
  let ?ws = "f_workers g" and ?P = "\<lambda>v. token v = t"
  have sh: "toks ! k = w_tokens (?ws ! k)" "length toks = length ?ws" if "k < length ?ws" for k
    using whole that by (auto simp: whole_inv_def)
  have other: "filter ?P (valid (parse_ltp rt ps) [m]) = []" if "(j, m) \<in> set (f_log g)" "j \<noteq> i" for j m
  proof -
    have j: "j < length ?ws" using whole that(1) by (auto simp: whole_inv_def)
    have "m \<in> set (frames_of j (f_log g))" using that(1) by (force simp: frames_of_def)
    then have "m \<in> set (delivered (w_ws (?ws ! j)))" using all j by simp
    then have "token v \<in> set (w_tokens (?ws ! j))" if "parse_ltp rt ps m = Inr (Some v)" for v
      using own j that by (auto simp: quotes_own_shard_def)
    moreover have "t \<notin> set (w_tokens (?ws ! j))"
      using distinct_concat_nth[OF assms(3), of i j t] sh i j tok that(2) by simp
    ultimately show ?thesis by (auto simp: filter_empty_conv valid_single)
  qed
  have "filter ?P (valid (parse_ltp rt ps) (map snd (f_log g)))
      = filter ?P (valid (parse_ltp rt ps) (frames_of i (f_log g)))"
    by (rule filter_lane) (use other in blast)
  with all i have f: "filter ?P (valid (parse_ltp rt ps) (map snd (f_log g)))
      = filter ?P (valid (parse_ltp rt ps) (delivered (w_ws (?ws ! i))))" by simp
  have "store_get (f_store g) t = (case find ?P (rev (valid (parse_ltp rt ps) (map snd (f_log g)))) of
      None \<Rightarrow> store_get st t | Some v \<Rightarrow> Some v)"
    using inv by (simp add: feed_inv_def quotes.get_fold_put)
  then show ?thesis by (simp add: find_rev_last f Let_def)
qed

text \<open>The consumers' turns leave the clients and the shards alone.\<close>

lemma turn_clients:
  "turn rt ps i junk f = Inr g \<Longrightarrow> map w_ws (f_workers g) = map w_ws (f_workers f)
    \<and> map w_tokens (f_workers g) = map w_tokens (f_workers f)"
  by (auto simp: turn_def Let_def bindE_Inr_iff map_update_same split: option.splits prod.splits)

lemma turns_clients:
  "turns rt ps sched f = Inr g \<Longrightarrow> map w_ws (f_workers g) = map w_ws (f_workers f)
    \<and> map w_tokens (f_workers g) = map w_tokens (f_workers f)"
proof (induction rt ps sched f rule: turns.induct)
  case (2 rt ps i junk sched f)
  then obtain h where h: "turn rt ps i junk f = Inr h" "turns rt ps sched h = Inr g"
    by (auto simp: bindE_Inr_iff)
  from "2.IH"[OF h(2)] turn_clients[OF h(1)] show ?case by simp
qed simp

lemma start_shards:
  assumes "length (desired_tokens s) \<le> 2 ^ 63" and "stopped s" and "io_progress io"
    and "sharder_start rt order io write_ok s = Inr (b, s')"
  shows "concat (map w_tokens (workers s')) = desired_tokens s"
  by (simp add: start_workers(2)[OF assms(1,2,4)] comp_def shard_list_props(1)
      final_worker_fields(2)[OF assms(3) refl])

lemma reachable_whole:
  assumes "length (desired_tokens s) \<le> 2 ^ 63" and "stopped s" and "io_progress io"
    and "sharder_start rt order io write_ok s = Inr (b, s')"
    and "\<forall>w \<in> set (workers s'). delivered (w_ws w) = []"
    and "reachable (\<lambda>f. f = feed_of s' st) (feed_step rt ps) f"
  shows "whole_inv (map w_tokens (workers s')) f"
proof -
  have init: "feed_init st (feed_of s' st)" by (rule start_feed_init[OF assms(1-4)])
  have "feed_inv rt ps st f \<and> whole_inv (map w_tokens (workers s')) f"
    using assms(6)
  proof (induction rule: reachable.induct)
    case (reach_init f)
    have "whole_inv (map w_tokens (f_workers (feed_of s' st))) (feed_of s' st)"
      by (rule whole_inv_start) (use init assms(5) in
        \<open>auto simp: feed_init_def list_all_iff feed_of_def\<close>)
    with feed.at_start[OF init] show ?case by (simp add: reach_init feed_of_def)
  next
    case (reach_step f g)
    then show ?case by (blast intro: feed_inv_kept whole_inv_kept)
  qed
  then show ?thesis ..
qed

subsection \<open>Properties\<close>

text \<open>
  C7. End to end: let a sharder be started on different tokens, let no frame have come before
  \<open>start()\<close> returned, and let each connection quote only tokens of its worker's shard. Then in
  any reachable state in which no connection has delivered more than 8192 frames, once the
  consumers have drained their queues the store answers, for every token of a shard, the last
  record for it among all the frames its connection has delivered; and what it answered before
  \<open>start()\<close> when there is none.
\<close>

theorem end_to_end_quotes:
  assumes "length (desired_tokens s) \<le> 2 ^ 63" and "stopped s" and "io_progress io"
    and "sharder_start rt order io write_ok s = Inr (b, s')"
    and "distinct (desired_tokens s)" and "\<forall>w \<in> set (workers s'). delivered (w_ws w) = []"
    and "reachable (\<lambda>f. f = feed_of s' st) (feed_step rt ps) f"
    and "\<forall>w \<in> set (f_workers f). quotes_own_shard rt ps w \<and> length (delivered (w_ws w)) \<le> 8192"
    and "\<forall>w \<in> set (f_workers f). \<forall>m \<in> set (held w). \<exists>r. parse_ltp rt ps m = Inr r"
    and "fst ` set sched \<subseteq> {..<length (f_workers f)}"
    and "\<forall>i < length (f_workers f). 2 * length (held (f_workers f ! i)) \<le> count_list (map fst sched) i"
  shows "\<exists>g. turns rt ps sched f = Inr g \<and>
    (\<forall>w \<in> set (f_workers f). \<forall>t \<in> set (w_tokens w). store_get (f_store g) t =
      (let vs = filter (\<lambda>v. token v = t) (valid (parse_ltp rt ps) (delivered (w_ws w))) in
       if vs = [] then store_get st t else Some (last vs)))"
proof -
  note inv = feed_reachable_inv[OF assms(1-4,7)]
  have whole: "whole_inv (map w_tokens (workers s')) f" by (rule reachable_whole[OF assms(1-4,6,7)])
  have "\<forall>i < length (f_workers f). work (f_workers f ! i) \<le> count_list (map fst sched) i"
    using work_held assms(11) by (blast intro: order_trans)
  from turns_drain[OF conjI[OF inv] assms(9,10) this] obtain g where
    g: "turns rt ps sched f = Inr g" "runs_to (feed_step rt ps) f g"
      "length (f_workers g) = length (f_workers f)"
    and drained: "\<forall>i < length (f_workers f). held (f_workers g ! i) = []
         \<and> frames_of i (f_log g) = frames_of i (f_log f) @ held (f_workers f ! i)" by blast
  have ginv: "feed_inv rt ps st g" "whole_inv (map w_tokens (workers s')) g"
    using whole_inv_run[OF g(2) inv(1) whole] by simp_all
  have keep: "w_ws (f_workers g ! i) = w_ws (f_workers f ! i)"
    "w_tokens (f_workers g ! i) = w_tokens (f_workers f ! i)" if "i < length (f_workers f)" for i
    using turns_clients[OF g(1)] that g(3) by (metis nth_map)+
  have dist: "distinct (concat (map w_tokens (workers s')))"
    using start_shards[OF assms(1-4)] assms(5) by simp
  have all: "\<forall>i < length (f_workers g). frames_of i (f_log g) = delivered (w_ws (f_workers g ! i))"
    using drained whole assms(8) keep g(3) by (auto simp: whole_inv_def lane_whole_def)
  have own: "\<forall>w \<in> set (f_workers g). quotes_own_shard rt ps w"
    using assms(8) keep g(3) by (auto simp: quotes_own_shard_def in_set_conv_nth) (metis nth_mem)+
  have "store_get (f_store g) t = (let vs = filter (\<lambda>v. token v = t)
        (valid (parse_ltp rt ps) (delivered (w_ws (f_workers f ! i)))) in
       if vs = [] then store_get st t else Some (last vs))"
    if "i < length (f_workers f)" "t \<in> set (w_tokens (f_workers f ! i))" for i t
    using store_of_lane[OF ginv dist own all, of i t] keep[OF that(1)] that g(3) by simp
  then have "\<forall>w \<in> set (f_workers f). \<forall>t \<in> set (w_tokens w). store_get (f_store g) t =
      (let vs = filter (\<lambda>v. token v = t) (valid (parse_ltp rt ps) (delivered (w_ws w))) in
       if vs = [] then store_get st t else Some (last vs))"
    by (metis in_set_conv_nth)
  with g(1) show ?thesis by blast
qed

text \<open>A sharder of one token, whose only worker has popped the sample frame that quotes it.\<close>

abbreviation one_token :: sharder where
  "one_token \<equiv> set_tokens [''26000''] sample_sharder"

lemma one_token_fields:
  "length (desired_tokens one_token) \<le> 2 ^ 63" "stopped one_token" "desired_tokens one_token = [''26000'']"
  "wss_url (sh_opts one_token) = ''wss://h''"
  using sample_sharder_fields(2,5) by (simp_all add: set_tokens_def stopped_def)

theorem end_to_end_quotes_witness:
  "\<exists>s' f (g :: int feed). sharder_start sample_rt sorted_list_of_set (\<lambda>n w. w) (\<lambda>p. True) one_token = Inr (True, s')
    \<and> reachable (\<lambda>f. f = feed_of s' Map.empty) (feed_step sample_rt sample_ps) f
    \<and> map (\<lambda>w. delivered (w_ws w)) (f_workers f) = [[''frame'']] \<and> f_log f = []
    \<and> turns sample_rt sample_ps [(0, []), (0, [])] f = Inr g
    \<and> store_get (f_store g) ''26000'' = Some \<lparr>token = ''26000'', ltp = 101, ts = 1728123456789000000\<rparr>"
proof -
  have "\<exists>t. dump_json sample_rt v = Inr t" for v by (simp add: sample_runtime_def)
  from start_returns[OF one_token_fields(1,2) sorted_order_ok this] obtain s' where
    s': "sharder_start sample_rt sorted_list_of_set (\<lambda>n w. w) (\<lambda>p. True) one_token = Inr (True, s')"
    by blast
  let ?w = "final_worker sample_rt sorted_list_of_set (\<lambda>n w. w) (\<lambda>p. True) one_token [''26000'']"
  let ?f = "feed_of s' (Map.empty :: int ltp_store)"
  have width: "shard_width (max_tokens_per_conn (sh_opts one_token)) = 2"
    using sample_sharder_fields(4) by (simp add: set_tokens_def)
  have ws: "workers s' = [?w]"
    by (simp add: start_workers(2)[OF one_token_fields(1,2) s'] shard_list_def one_token_fields(3)
        width chunks.simps)
  have new: "delivered (w_ws ?w) = []"
    by (simp add: final_worker_id started_worker_def ws_of_def ws_new_def)
  obtain v where v: "worker_exec [Net Go, Net Connect_ok, Net Go, Net (ws_env.Frame ''frame''), Pop []] ?w = Some v"
    "held v = [''frame'']" "delivered (w_ws v) = [''frame'']"
    using sample_lane(2)[OF refl one_token_fields(4)] by blast
  let ?g = "?f\<lparr>f_workers := [v]\<rparr>"
  have wf: "f_workers ?f = [?w]" "f_log ?f = []" by (simp_all add: feed_of_def ws)
  have "runs_to (feed_step sample_rt sample_ps) ?f ?g"
    using worker_exec_runs[of _ ?f 0 v] v(1) by (simp add: wf del: worker_exec.simps)
  then have r: "reachable (\<lambda>f. f = ?f) (feed_step sample_rt sample_ps) ?g"
    by (rule reachable_runs_to) (simp add: reach_init)
  have tok: "w_tokens v = [''26000'']"
    using worker_exec_frame[OF v(1)] final_worker_fields(2)[OF io_progress_id refl] by simp
  have "\<exists>g. turns sample_rt sample_ps [(0, []), (0, [])] ?g = Inr g \<and>
    (\<forall>w \<in> set (f_workers ?g). \<forall>t \<in> set (w_tokens w). store_get (f_store g) t =
      (let vs = filter (\<lambda>v. token v = t) (valid (parse_ltp sample_rt sample_ps) (delivered (w_ws w))) in
       if vs = [] then store_get Map.empty t else Some (last vs)))"
    by (rule end_to_end_quotes[OF one_token_fields(1,2) io_progress_id s' _ _ r])
       (simp_all add: one_token_fields(3) ws new quotes_own_shard_def v tok sample_parse)
  then obtain g where g: "turns sample_rt sample_ps [(0, []), (0, [])] ?g = Inr g"
    "store_get (f_store g) ''26000'' = Some \<lparr>token = ''26000'', ltp = 101, ts = 1728123456789000000\<rparr>"
    by (auto simp: v tok sample_parse)
  with s' r v(3) wf(2) show ?thesis by (intro exI[of _ s'] exI[of _ ?g] exI[of _ g]) simp
qed

end
