(* ===== verification/Sharder_Life.thy ===== *)
theory Sharder_Life
  imports Sharder
begin

text \<open>
  A \<open>Sharder\<close> over its whole life: any sequence of calls by its owner, with the threads of the
  workers running in between. Settings are read when \<open>start()\<close> builds the workers and at no other
  time.
\<close>

subsection \<open>Sequences of calls\<close>

text \<open>
  \<open>Start_all\<close> carries what the threads of the workers do meanwhile and which writes complete, as
  \<open>sharder_start\<close> does; \<open>Threads\<close> lets the threads of every worker run between two calls.
\<close>

datatype sharder_call =
    Start_all "nat \<Rightarrow> worker \<Rightarrow> worker" "string \<Rightarrow> bool"
  | Stop_all
  | Tokens "string list"
  | Access string
  | Headers string_map
  | Broadcast "string \<Rightarrow> bool" string
  | Threads "worker \<Rightarrow> worker"

fun sharder_apply :: "'d runtime \<Rightarrow> set_order \<Rightarrow> sharder_call \<Rightarrow> sharder \<Rightarrow> sharder res" where
  "sharder_apply rt order (Start_all io write_ok) s =
     bindE (sharder_start rt order io write_ok s) (\<lambda>(b, s). Inr s)"
| "sharder_apply rt order Stop_all s = sharder_stop s"
| "sharder_apply rt order (Tokens toks) s = Inr (set_tokens toks s)"
| "sharder_apply rt order (Access v) s = Inr (set_access_token v s)"
| "sharder_apply rt order (Headers h) s = Inr (set_common_headers h s)"
| "sharder_apply rt order (Broadcast write_ok p) s = Inr (snd (debug_broadcast_text write_ok p s))"
| "sharder_apply rt order (Threads io) s = Inr (s\<lparr>workers := map io (workers s)\<rparr>)"

fun sharder_calls :: "'d runtime \<Rightarrow> set_order \<Rightarrow> sharder_call list \<Rightarrow> sharder \<Rightarrow> sharder res" where
  "sharder_calls rt order [] s = Inr s"
| "sharder_calls rt order (c # cs) s = bindE (sharder_apply rt order c s) (sharder_calls rt order cs)"

text \<open>What the threads do is a run of their steps, and token lists are not astronomically long.\<close>

fun call_ok :: "sharder_call \<Rightarrow> bool" where
  "call_ok (Start_all io write_ok) = io_progress io"
| "call_ok (Threads io) = io_progress (\<lambda>n. io)"
| "call_ok (Tokens toks) = (length toks \<le> 2 ^ 63)"
| "call_ok _ = True"

subsection \<open>The settings in force\<close>

record settings =
  set_toks :: "string list"
  set_auth :: string
  set_hdrs :: string_map

definition handshake_headers :: "settings \<Rightarrow> string_map" where
  "handshake_headers x = (if set_auth x \<noteq> [] then sm_set ''Authorization'' (set_auth x) (set_hdrs x)
     else set_hdrs x)"

text \<open>
  The last settings made, and those in force: the ones of the last \<open>start()\<close> that started
  anything, until the next \<open>stop()\<close>.
\<close>

fun after_call :: "sharder_call \<Rightarrow> settings \<times> settings option \<Rightarrow> settings \<times> settings option" where
  "after_call (Start_all io write_ok) (x, force) = (x, Some (case force of None \<Rightarrow> x | Some y \<Rightarrow> y))"
| "after_call Stop_all (x, force) = (x, None)"
| "after_call (Tokens toks) (x, force) = (x\<lparr>set_toks := toks\<rparr>, force)"
| "after_call (Access v) (x, force) = (x\<lparr>set_auth := v\<rparr>, force)"
| "after_call (Headers h) (x, force) = (x\<lparr>set_hdrs := h\<rparr>, force)"
| "after_call (Broadcast write_ok p) (x, force) = (x, force)"
| "after_call (Threads io) (x, force) = (x, force)"

definition no_settings :: settings where
  "no_settings = \<lparr>set_toks = [], set_auth = [], set_hdrs = []\<rparr>"

definition settings_after :: "sharder_call list \<Rightarrow> settings \<times> settings option" where
  "settings_after cs = fold after_call cs (no_settings, None)"

text \<open>A worker keeps its shard and its options whatever its threads do.\<close>

lemma io_step_opts: "io_step env c = Some d \<Longrightarrow> opts d = opts c"
  by (induction rule: io_step_cases) (auto simp: io_defs)

lemma io_exec_opts: "io_exec es c = Some d \<Longrightarrow> opts d = opts c"
  by (induction es arbitrary: c) (auto split: option.splits dest: io_step_opts)

lemma progress_keeps:
  assumes "io_progress (\<lambda>n. io)"
  shows "w_tokens (io w) = w_tokens w" and "opts (w_ws (io w)) = opts (w_ws w)"
proof -
  obtain ops where "worker_exec ops w = Some (io w)" using io_progressD[OF assms] .
  from worker_exec_frame[OF this] io_exec_opts show "w_tokens (io w) = w_tokens w"
    "opts (w_ws (io w)) = opts (w_ws w)" by blast+
qed

lemma broadcast_keeps:
  "broadcast write_ok p any ws = (r, ws') \<Longrightarrow> map w_tokens ws' = map w_tokens ws
    \<and> map (\<lambda>w. opts (w_ws w)) ws' = map (\<lambda>w. opts (w_ws w)) ws"
proof (induction ws arbitrary: any r ws')
  case (Cons w ws)
  obtain b c where c: "send_text (write_ok p) p (w_ws w) = (b, c)"
    by (cases "send_text (write_ok p) p (w_ws w)")
  obtain r' us where u: "broadcast write_ok p (b \<or> any) ws = (r', us)"
    by (cases "broadcast write_ok p (b \<or> any) ws")
  have "opts c = opts (w_ws w)" using c by (auto simp: send_text_def split: if_splits)
  with Cons.IH[OF u] Cons.prems c u show ?case by auto
qed simp

definition life_ok :: "settings \<times> settings option \<Rightarrow> sharder \<Rightarrow> bool" where
  "life_ok = (\<lambda>(x, force) s.
     desired_tokens s = set_toks x \<and> auth_header_value s = set_auth x \<and> common_headers s = set_hdrs x
     \<and> length (set_toks x) \<le> 2 ^ 63 \<and> (sh_running s \<longleftrightarrow> force \<noteq> None)
     \<and> (case force of
          None \<Rightarrow> workers s = []
        | Some y \<Rightarrow> concat (map w_tokens (workers s)) = set_toks y
            \<and> (\<forall>o1 \<in> set (map (\<lambda>w. opts (w_ws w)) (workers s)). headers o1 = handshake_headers y)))"

lemma start_life:
  assumes "life_ok (x, None) s" and "io_progress io"
    and "sharder_start rt order io write_ok s = Inr (b, s')"
  shows "life_ok (x, Some x) s'"
proof -
  have s: "length (desired_tokens s) \<le> 2 ^ 63" "stopped s"
    using assms(1) by (simp_all add: life_ok_def stopped_def)
  note w = start_workers(2)[OF s assms(3)]
  have o: "headers (opts (w_ws (final_worker rt order io write_ok s sh))) = handshake_headers x" for sh
  proof -
    have "opts (w_ws (final_worker rt order io write_ok s sh)) = ws_options_of s"
      using started_client[OF assms(2) refl runs_refl, where rt = rt and order = order and write_ok = write_ok and s = s and sh = sh] by (simp add: ws_full_inv_def ws_inv_def)
    then show ?thesis using assms(1)
      by (simp add: ws_options_of_def effective_headers_def handshake_headers_def life_ok_def)
  qed
  have "concat (map w_tokens (workers s')) = desired_tokens s"
    by (simp add: w comp_def final_worker_fields(2)[OF assms(2) refl] shard_list_props(1))
  then show ?thesis using assms(1) by (simp add: life_ok_def w o)
qed

lemma apply_life:
  assumes "life_ok p s" and "call_ok c" and "sharder_apply rt order c s = Inr s'"
  shows "life_ok (after_call c p) s'"
proof -
  obtain x force where p: "p = (x, force)" by (cases p)
  show ?thesis
  proof (cases c)
    case (Start_all io write_ok)
    then obtain b where st: "sharder_start rt order io write_ok s = Inr (b, s')"
      using assms(3) by (auto simp: bindE_Inr_iff)
    show ?thesis
    proof (cases force)
      case None
      with start_life[of x s io] assms(1,2) st show ?thesis by (simp add: p Start_all)
    next
      case (Some y)
      then have "sh_running s" using assms(1) by (simp add: p life_ok_def)
      then have "s' = s" using st by (simp add: sharder_start_def)
      with Some assms(1) show ?thesis by (simp add: p Start_all)
    qed
  next
    case Stop_all
    then have "s' = (if sh_running s then s\<lparr>workers := [], sh_running := False\<rparr> else s)"
      using assms(3) by (auto simp: sharder_stop_def Let_def bindE_Inr_iff split: if_splits)
    with assms(1) show ?thesis by (auto simp: p Stop_all life_ok_def split: option.splits)
  next
    case (Broadcast write_ok payload)
    obtain r ws where b: "broadcast write_ok payload False (workers s) = (r, ws)"
      by (cases "broadcast write_ok payload False (workers s)")
    then have s': "s' = (if sh_running s then s\<lparr>workers := ws\<rparr> else s)"
      using assms(3) by (simp add: Broadcast debug_broadcast_text_def split: if_splits)
    show ?thesis
    proof (cases "sh_running s")
      case False
      with assms(1) s' show ?thesis by (simp add: p Broadcast)
    next
      case True
      then obtain y where "force = Some y" using assms(1) by (auto simp: p life_ok_def)
      with True assms(1) broadcast_keeps[OF b] s' show ?thesis
        by (simp add: p Broadcast life_ok_def del: set_map)
    qed
  next
    case (Threads io)
    with assms progress_keeps[of io] show ?thesis
      by (auto simp: p life_ok_def comp_def split: option.splits)
  qed (use assms in \<open>auto simp: p life_ok_def set_tokens_def set_access_token_def
      set_common_headers_def split: option.splits\<close>)
qed

lemma calls_life:
  "sharder_calls rt order cs s = Inr s' \<Longrightarrow> list_all call_ok cs \<Longrightarrow> life_ok p s \<Longrightarrow>
    life_ok (fold after_call cs p) s'"
proof (induction cs arbitrary: s p)
  case (Cons c cs)
  then obtain u where u: "sharder_apply rt order c s = Inr u" "sharder_calls rt order cs u = Inr s'"
    by (auto simp: bindE_Inr_iff)
  have "life_ok (after_call c p) u" using apply_life[OF Cons.prems(3) _ u(1)] Cons.prems(2) by simp
  from Cons.IH[OF u(2) _ this] Cons.prems(2) show ?case by simp
qed simp

subsection \<open>Properties\<close>

text \<open>
  C35. Settings take effect at the next \<open>start()\<close>: after any sequence of calls that returns, with
  the threads running in between, a sharder runs exactly when a \<open>start()\<close> came after the last
  \<open>stop()\<close>; then its workers together hold the token list, and open connections with the access
  token and headers, that were set when that \<open>start()\<close> was called, whatever was set since; and
  otherwise it has no workers.
\<close>

theorem settings_take_effect_at_start:
  assumes "sharder_calls rt order cs (sharder_new o1) = Inr s" and "list_all call_ok cs"
    and "settings_after cs = (x, force)"
  shows "desired_tokens s = set_toks x \<and> (sh_running s \<longleftrightarrow> force \<noteq> None)
    \<and> (case force of
         None \<Rightarrow> workers s = []
       | Some y \<Rightarrow> concat (map w_tokens (workers s)) = set_toks y
           \<and> (\<forall>w \<in> set (workers s). headers (opts (w_ws w)) = handshake_headers y))"
proof -
  have "life_ok (no_settings, None) (sharder_new o1)"
    by (simp add: life_ok_def no_settings_def sharder_new_def)
  from calls_life[OF assms(1,2) this] assms(3) have "life_ok (x, force) s" by (simp add: settings_after_def)
  then show ?thesis by (auto simp: life_ok_def split: option.splits)
qed

theorem settings_take_effect_at_start_witness:
  "\<exists>s. sharder_calls silent_runtime sorted_list_of_set
        [Tokens [''A''], Access ''old'', Start_all (\<lambda>n w. w) (\<lambda>p. True), Access ''new'', Tokens [''B'']]
        (sharder_new default_sharder_options) = Inr s
    \<and> sh_running s \<and> desired_tokens s = [''B''] \<and> concat (map w_tokens (workers s)) = [''A'']
    \<and> (\<forall>w \<in> set (workers s). headers (opts (w_ws w)) = [(''Authorization'', ''old'')])"
proof -
  let ?cs = "[Tokens [''A''], Access ''old'', Start_all (\<lambda>n w. w) (\<lambda>p. True), Access ''new'', Tokens [''B'']]"
  let ?s = "set_access_token ''old'' (set_tokens [''A''] (sharder_new default_sharder_options))"
  have "length (desired_tokens ?s) \<le> 2 ^ 63" "stopped ?s"
    by (simp_all add: set_access_token_def set_tokens_def sharder_new_def stopped_def)
  from start_returns[OF this sorted_order_ok silent_dump] obtain s' where
    "sharder_start silent_runtime sorted_list_of_set (\<lambda>n w. w) (\<lambda>p. True) ?s = Inr (True, s')" by blast
  then obtain s where s: "sharder_calls silent_runtime sorted_list_of_set ?cs (sharder_new default_sharder_options) = Inr s"
    by simp
  have "settings_after ?cs = (\<lparr>set_toks = [''B''], set_auth = ''new'', set_hdrs = []\<rparr>,
      Some \<lparr>set_toks = [''A''], set_auth = ''old'', set_hdrs = []\<rparr>)"
    by (simp add: settings_after_def no_settings_def)
  from settings_take_effect_at_start[OF s _ this] io_progress_id s show ?thesis
    by (simp add: handshake_headers_def)
qed

end
