(* ===== verification/Spec2Isabelle.thy ===== *)
theory Spec2Isabelle
  imports Slicing Ingest_Queue Spsc Consumer Base32 Totp Subscription_Manager Ws_Connect
    Shutdown Http_Client Auth Logger Subscription_Build End_To_End Sharder_Life
begin

text \<open>
  A real-time market data client. It logs in to a broker over HTTPS, opens WebSocket
  connections, subscribes to the quotes of a list of tokens, and keeps the last price of each
  token. This development models every class of the library under \<open>src/\<close> and \<open>include/\<close> and
  proves what makes each correct, or exactly how it is not.

  \<^bold>\<open>The program\<close>

  \<^item> \<open>Config\<close> reads keys and tokens from a JSON file. \<open>TOTP\<close> makes the one-time password of the
    login. \<open>Auth\<close> logs in and refreshes the session through \<open>HTTPClient\<close>.
  \<^item> \<open>Sharder\<close> cuts the token list into shards and gives each a worker: a \<open>WebSocketClient\<close>, a
    \<open>SubscriptionManager\<close> that builds the payloads sent through it, an \<open>IngestQueue\<close> and a
    \<open>Consumer\<close>.
  \<^item> The client's I/O thread pushes each frame into the queue, or drops it when the queue is
    full. The consumer's thread pops frames, reads them with the \<open>Parser\<close>, writes the records to
    the \<open>LTPStore\<close> shared by all workers and calls the sink. When a connection is lost the I/O
    thread reconnects and runs a hook that subscribes again. All components write to a \<open>Logger\<close>.

  \<^bold>\<open>The theories\<close>

  \<^item> \<open>Prelude\<close>: machine integers, the ways a C++ call fails (\<open>cpp_error\<close>), the error sum \<open>res\<close>
    with \<open>bindE\<close> and \<open>mapE\<close>, string search, and lemmas on lists and words. \<open>Text\<close>: the standard
    library on characters and numbers in text. \<open>Json\<close>: JSON values and the record \<open>runtime\<close> of
    library calls that are parameters. \<open>Transition\<close>: reachable states and the contract
    \<open>inductive_invariant\<close>. \<open>Slicing\<close>: the slicing loop that the program has twice
    (\<open>SubscriptionManager::make_batches\<close>, \<open>Sharder::Impl::shard\<close>), its specification \<open>chunks\<close> and
    the contract \<open>slicer\<close>.
  \<^item> \<open>Ingest_Queue\<close> (\<open>src/ingest_queue.cpp\<close>): capacity rounding, every operation as a whole call,
    the invariant \<open>queue_inv\<close>, the abstraction \<open>queue_list\<close> and the contract \<open>bounded_fifo\<close>.
    \<open>Spsc\<close>: the same operations cut at every access to shared memory, as a step relation of two
    threads that may read old values of each other's index. It shows the queue is first in first
    out and free of races on its slots under every interleaving.
  \<^item> \<open>Ltp_Store\<close> (\<open>src/ltp_store.cpp\<close>): the store and the contracts \<open>kv_store\<close> and
    \<open>sized_kv_store\<close>. \<open>Parser\<close> (\<open>src/parser.cpp\<close>): from JSON value to record; totality, choice of
    keys, wrappers, and the exact range of \<open>to_timepoint\<close>. \<open>Consumer\<close> (\<open>src/consumer.cpp\<close>): the
    loop and its life cycle, and the contract \<open>ingest_pipeline\<close> that puts queue, parser and store
    together, interpreted on the models of the three.
  \<^item> \<open>Base32\<close> and \<open>Totp\<close> (\<open>src/totp.cpp\<close>): the decoder against RFC 4648, written from the table
    of the RFC on bit strings, the codes against RFC 4226, and the window of \<open>verify\<close>.
  \<^item> \<open>Subscription_Manager\<close> (\<open>src/subscription_manager.cpp\<close>): wanted and acknowledged tokens,
    batches and payloads; coverage and convergence. \<open>Subscription_Build\<close>: a build cut at each of
    its reads, since it holds the lock only while it takes the difference, with any calls of
    other threads in between. Beside changes of the two sets it returns what one call returns;
    beside changes of the mode it need not.
  \<^item> \<open>Websocket_Client\<close> (\<open>src/websocket_client.cpp\<close>): address parsing, and the I/O thread with the
    calls of other threads as a step relation \<open>ws_step\<close>. The functions \<open>run\<close>, \<open>read_loop\<close>,
    \<open>reconnect_loop\<close> and \<open>connect_once\<close> are the program counter \<open>ws_pc\<close>. Its invariant gives
    safety, resubscription and the return of \<open>stop()\<close>.
  \<^item> \<open>Transport\<close>: the calls to Boost and OpenSSL that open a TLS connection, in order, over a
    network that lets each succeed or fail. \<open>Header_Fields\<close>: maps of strings
    and the case-insensitive fields of a request, which both clients set from them. \<open>Ws_Connect\<close>:
    \<open>connect_once\<close> call by call, with the fields its handshake sets, which refines the attempt of
    the step relation; and \<open>send_text\<close> cut between its test and its use of
    the stream, which shows the races with a reconnection and with a read.
  \<^item> \<open>Sharder\<close> (\<open>src/sharder.cpp\<close>): sharding, building workers, \<open>start\<close>, \<open>stop\<close>, the destructor
    and the setters, over the models of the four worker components. Its properties span them:
    the partition of the tokens, the initial subscriptions that are lost, the complete
    resubscription, the conditions under which \<open>stop()\<close> does not end the program.
    \<open>Sharder_Life\<close>: any sequence of these calls; the settings in force are those of the last
    \<open>start()\<close>.
  \<^item> \<open>Market_Feed\<close>: the workers of a started sharder running together over one store, as a step
    relation whose steps are those of any thread of any worker. Its properties are what the whole
    system keeps, the latest record of each token, and that the consumers drain their queues in
    twice as many turns as there are frames. \<open>End_To_End\<close>: what the store then answers for a
    token, from the frames its connection delivered. The root theory relates the login to the
    handshakes of the workers.
  \<^item> \<open>Shutdown\<close>: \<open>Sharder::stop()\<close> step by step while the workers' threads run. After every client
    has begun to run it refines the single step \<open>sharder_stop\<close>, loses no popped frame and
    returns; before that, it can leave a client's thread with a queue that is destroyed.
  \<^item> \<open>Http_Client\<close> (\<open>src/http_client.cpp\<close>): addresses, queries and headers; the exchange sends
    its request last, once, over a prepared stream. \<open>Config\<close> (\<open>src/config.cpp\<close>): what a loaded
    configuration comes from. \<open>Auth\<close> (\<open>src/auth.cpp\<close>) and \<open>Logger\<close> (\<open>src/logger.cpp\<close>).

  Records have the names of the classes' members, shortened or prefixed where two would clash.
  A method is a function from the state to the new state, with \<open>res\<close> where the C++ call can
  throw, end the program or be undefined.

  \<^bold>\<open>Bounds and fuel\<close>

  Integers have their width: \<open>size_t\<close> and \<open>uint64_t\<close> are 64-bit words that wrap, as are the ring
  indices; \<open>int\<close> accumulators are 32-bit words; a signed result out of range is
  \<open>Undefined_behaviour\<close>. Only \<open>slice_loop\<close> has fuel, one more than the length of its list; the
  theorems that use it show this is enough for lists of up to \<open>2 ^ 63\<close> elements. The loops of the
  threads are step relations, or take the list of their iterations; the other loops terminate
  by a measure.

  \<^bold>\<open>What is assumed\<close>

  \<^item> Parameters for code outside the repository: parsing and writing of JSON text, conversions of
    floating-point numbers (doubles are an abstract type), HMAC, the answers of the
    network to each blocking call (success or failure, frames, HTTP responses), the order in which an
    unordered set is visited, the clock, and the text of the local time. The operations of
    \<open>HTTPClient\<close> and \<open>Auth\<close> take any function for the exchange (\<open>transport\<close>); \<open>tls_transport\<close> is
    the one the code passes.
  \<^item> \<open>system_clock\<close> counts nanoseconds, as in libstdc++; the "C" locale; shifts of signed integers
    as in C++20; a moved-from string is arbitrary; allocation succeeds; callbacks do not throw
    and are set before \<open>start()\<close>.
  \<^item> Memory order in \<open>Spsc\<close>: coherence of each index, and release stores made visible by the
    acquire loads that read them. In the other theories an operation under a lock is one step.
  \<^item> The lines components write to the logger are modelled in \<open>Logger\<close> only.

  \<^bold>\<open>Not modelled\<close>

  What happens inside the calls into Boost and OpenSSL (DNS, TCP, TLS, WebSocket framing): only
  that they are made, in which order, and with which outcome. The other data races are
  undefined in C++ and have no step here: \<open>std::localtime\<close>, the level of a \<open>Logger\<close>, the vector
  of workers in \<open>debug_broadcast_text\<close> and \<open>num_workers\<close>; the options that a build reads outside
  the lock of \<open>SubscriptionManager\<close> are modelled as if each read were atomic. The state that an exception leaves in
  \<open>Sharder::start()\<close> is not modelled: a call that throws has no state after it. A resubscribe hook
  whose payloads cannot be written sends nothing (after a \<open>start()\<close> that returned they can).
  \<open>Impl::stop()\<close> of the client is its flag; its calls on the stream make a blocked read return.
  The expiry of the stream deadlines is not modelled: it has no effect on the
  synchronous calls the program makes. The getters that only return a member are the fields of
  the records. The test drivers under \<open>tests/\<close> and the build files hold no program logic.
\<close>

section \<open>Login and feed\<close>

lemma authorization_lower: "lower ''Authorization'' = ''authorization''"
  by (simp add: lower_def to_lower_def is_upper_def char_of_def bit_0)

text \<open>
  C31. The session reaches every connection, once: when the header of a login that returned
  true is given to a stopped sharder, every handshake a worker's client sends after \<open>start()\<close>, in
  whatever state it has reached and so in reconnections too, sets in the request made by the
  library the common headers and \<open>Authorization\<close>, of spellings of a name that differ only in case
  the last in key order; and a token set later changes no worker, although reconnections are said
  to use it. In particular, when no common header is another spelling of \<open>Authorization\<close>, the
  request carries that login's token.
\<close>

theorem login_reaches_handshakes:
  assumes "login_impl rt net now otp a = (Inr True, a')"
    and "length (desired_tokens s) \<le> 2 ^ 63" and "stopped s" and "io_progress io"
    and "sharder_start rt' order io write_ok
           (set_access_token (map_get (auth_headers a') ''Authorization'' []) s) = Inr (b, s')"
    and "w \<in> set (workers (set_access_token later s'))" and "runs_to ws_step (w_ws w) c"
    and "Request (host, tgt, dec) \<in> set (snd (connect_attempt nw c))"
  shows "find_field (dec fs) n =
      (case find (\<lambda>kv. lower (fst kv) = n) (rev (sm_set ''Authorization''
          (''Bearer '' @ access_token (a_tokens a')) (common_headers s))) of
         Some kv \<Rightarrow> Some kv
       | None \<Rightarrow> find_field fs n)
    \<and> (sm_ok (common_headers s)
        \<and> (\<forall>k \<in> fst ` set (common_headers s). lower k = ''authorization'' \<longrightarrow> k = ''Authorization'') \<longrightarrow>
       find_field (dec fs) ''authorization'' =
         Some (''Authorization'', ''Bearer '' @ access_token (a_tokens a')))"
proof -
  let ?s = "set_access_token (map_get (auth_headers a') ''Authorization'' []) s"
  let ?hs = "sm_set ''Authorization'' (''Bearer '' @ access_token (a_tokens a')) (common_headers s)"
  have s: "length (desired_tokens ?s) \<le> 2 ^ 63" "stopped ?s"
    using assms(2,3) by (simp_all add: set_access_token_def stopped_def)
  obtain sh where w: "w = final_worker rt' order io write_ok ?s sh"
    using assms(6) start_workers(2)[OF s assms(5)] by (auto simp: set_access_token_def)
  have "opts c = ws_options_of ?s"
    using started_client[OF assms(4) w assms(7)] by (simp add: ws_full_inv_def ws_inv_def)
  then have "headers (opts c) = ?hs"
    using login_authorises[OF assms(1)]
    by (simp add: ws_options_of_def effective_headers_def set_access_token_def map_get_def)
  with attempt_decorator[OF assms(8)] have dec: "dec fs = fold set_field ?hs fs" by (simp add: decorator_def)
  show ?thesis
    using find_set_rev[of "common_headers s" "''Authorization''"]
    by (simp add: dec find_fields authorization_lower)
qed

theorem login_reaches_handshakes_witness:
  "\<exists>a' s' w c dec. login_impl (answering good_login) accepting 5 ''123456'' sample_auth = (Inr True, a')
    \<and> sharder_start silent_runtime sorted_list_of_set (\<lambda>n w. w) (\<lambda>p. True)
        (set_access_token (map_get (auth_headers a') ''Authorization'' []) sample_sharder) = Inr (True, s')
    \<and> w \<in> set (workers (set_access_token ''Bearer new'' s')) \<and> runs_to ws_step (w_ws w) c
    \<and> Request (''h'', ''/'', dec) \<in> set (snd (connect_attempt (\<lambda>tr c. True) c))
    \<and> find_field (dec []) ''authorization'' = Some (''Authorization'', ''Bearer jwt'')"
proof -
  obtain a' where a': "login_impl (answering good_login) accepting 5 ''123456'' sample_auth = (Inr True, a')"
    "access_token (a_tokens a') = ''jwt''"
    using good_login_runs[of sample_auth] by auto
  let ?s = "set_access_token (map_get (auth_headers a') ''Authorization'' []) sample_sharder"
  have s: "length (desired_tokens ?s) \<le> 2 ^ 63" "stopped ?s"
    using sample_sharder_fields(1,2) by (simp_all add: set_access_token_def stopped_def)
  obtain s' where s': "sharder_start silent_runtime sorted_list_of_set (\<lambda>n w. w) (\<lambda>p. True) ?s = Inr (True, s')"
    using start_returns[OF s sorted_order_ok silent_dump] by blast
  have "workers (set_access_token ''Bearer new'' s') \<noteq> []"
    using start_workers(2)[OF s s'] by (auto simp: set_access_token_def shard_list_def Let_def)
  then obtain w where w: "w \<in> set (workers (set_access_token ''Bearer new'' s'))"
    by fastforce
  obtain sh where "w = started_worker silent_runtime sorted_list_of_set ?s sh"
    using w start_workers(2)[OF s s'] by (auto simp: set_access_token_def final_worker_id)
  then have u: "url (w_ws w) = ''wss://h''"
    using sample_sharder_fields(5) by (simp add: started_worker_def ws_of_def ws_new_def set_access_token_def)
  let ?dec = "decorator (headers (opts (w_ws w)))"
  have r: "Request (''h'', ''/'', ?dec) \<in> set (snd (connect_attempt (\<lambda>tr c. True) (w_ws w)))"
    by (simp add: connect_attempt_def u connect_calls_def open_calls_def parse_wss_def starts_with_def)
  have "sm_ok (common_headers sample_sharder)" "common_headers sample_sharder = []"
    by (simp_all add: sample_sharder_def set_tokens_def sharder_new_def)
  with login_reaches_handshakes[OF a'(1) sample_sharder_fields(1,2) io_progress_id s' w runs_refl r] a'(2)
  have "find_field (?dec []) ''authorization'' = Some (''Authorization'', ''Bearer jwt'')" by (simp add: authorization_lower)
  then show ?thesis by (intro exI conjI) (rule a'(1) s' w runs_refl r | assumption)+
qed

end
